(* ===== verification/Prelude.thy ===== *)
theory Prelude
  imports Main "HOL-Library.Word" "HOL-Library.Monad_Syntax"
begin

text \<open>
  Shared vocabulary of the development: the fixed-width integer types, bytes and C strings,
  checked memory accesses and checked signed arithmetic, and the generic lemmas on lists, words
  and the option monad that the component theories use.

  A computation of type \<open>'a option\<close> is a piece of C or C++ code: \<open>Some v\<close> says that the code
  returns \<open>v\<close> and that its behaviour is defined, \<open>None\<close> says that it reads or writes outside an
  object, overflows a signed integer, or (for the loops that wait on the hardware) never returns.
  A theorem with conclusion \<open>f x = Some v\<close> is therefore a memory-safety, no-overflow and
  termination statement at once.
\<close>

unbundle bit_operations_syntax

subsection \<open>Types\<close>

type_synonym u8 = "8 word"
type_synonym u16 = "16 word"
type_synonym u32 = "32 word"
type_synonym u64 = "64 word"
type_synonym bytes = "u8 list"

text \<open>The responses of \<open>Fw::CmdResponse\<close> that the command handlers send.\<close>

datatype cmd_response = CmdOK | VALIDATION_ERROR | EXECUTION_ERROR

text \<open>The byte of an ASCII character, and the bytes of a string literal without its NUL.\<close>

abbreviation ch :: "char \<Rightarrow> u8" where
  "ch c \<equiv> of_char c"

abbreviation ascii :: "string \<Rightarrow> bytes" where
  "ascii s \<equiv> map of_char s"

text \<open>The array object a string literal denotes: its bytes and the terminating NUL.\<close>

definition cstr_lit :: "string \<Rightarrow> bytes" where
  "cstr_lit s = ascii s @ [0]"

text \<open>The characters of a NUL-terminated string that starts at the head of a byte list.\<close>

definition cstr :: "bytes \<Rightarrow> bytes" where
  "cstr bs = takeWhile (\<lambda>c. c \<noteq> 0) bs"

subsection \<open>Checked memory accesses and checked signed arithmetic\<close>

definition rd :: "bytes \<Rightarrow> nat \<Rightarrow> u8 option" where
  "rd b i = (if i < length b then Some (b ! i) else None)"

definition wr :: "bytes \<Rightarrow> nat \<Rightarrow> u8 \<Rightarrow> bytes option" where
  "wr b i v = (if i < length b then Some (b[i := v]) else None)"

text \<open>The value of a 32-bit signed operation: overflow is undefined behaviour in C and C++.\<close>

definition i32 :: "int \<Rightarrow> int option" where
  "i32 x = (if - (2 ^ 31) \<le> x \<and> x < 2 ^ 31 then Some x else None)"

text \<open>\<open>c >= '0' && c <= '9'\<close>, and \<open>c - '0'\<close> after promotion to \<open>int\<close>.\<close>

definition is_digit :: "u8 \<Rightarrow> bool" where
  "is_digit c \<longleftrightarrow> ch CHR ''0'' \<le> c \<and> c \<le> ch CHR ''9''"

definition digit_val :: "u8 \<Rightarrow> int" where
  "digit_val c = uint c - uint (ch CHR ''0'')"

text \<open>Narrowing conversions to a signed 16-bit integer (modulo 2^16, as GCC defines it).\<close>

definition to_i16 :: "int \<Rightarrow> int" where
  "to_i16 x = sint (word_of_int x :: 16 word)"

subsection \<open>Collections of rewrite rules\<close>

named_theorems mem_simps \<open>checked reads and writes inside the object\<close>
named_theorems ub_simps \<open>evaluation of the option monad of defined behaviour\<close>

lemma rd_in [mem_simps]: "i < length b \<Longrightarrow> rd b i = Some (b ! i)"
  by (simp add: rd_def)

lemma wr_in [mem_simps]: "i < length b \<Longrightarrow> wr b i v = Some (b[i := v])"
  by (simp add: wr_def)

lemma rd_SomeD: "rd b i = Some c \<Longrightarrow> i < length b \<and> b ! i = c"
  by (simp add: rd_def split: if_splits)

lemma wr_SomeD: "wr b i v = Some b' \<Longrightarrow> i < length b \<and> b' = b[i := v]"
  by (auto simp: wr_def split: if_splits)

lemma rd_eq_Some: "rd b i = Some c \<longleftrightarrow> i < length b \<and> b ! i = c"
  by (auto simp: rd_def)

lemma i32_in [ub_simps]: "- 2147483648 \<le> x \<Longrightarrow> x < 2147483648 \<Longrightarrow> i32 x = Some x"
  by (simp add: i32_def)

lemma i32_SomeD: "i32 x = Some y \<Longrightarrow> y = x \<and> - 2147483648 \<le> x \<and> x < 2147483648"
  by (simp add: i32_def split: if_splits)

lemma unat_u32: "unat x < 4294967296" for x :: u32
proof -
  have "unat x < 2 ^ LENGTH(32)" by (rule unsigned_less)
  then show ?thesis by simp
qed

lemma unat_u32_succ: "unat x + 1 < 4294967296 \<Longrightarrow> unat (x + 1) = unat x + 1" for x :: u32
  by (simp add: unat_word_ariths)

subsection \<open>Digits\<close>

lemma is_digit_alt: "is_digit c \<longleftrightarrow> 48 \<le> uint c \<and> uint c \<le> 57"
  by (simp add: is_digit_def word_le_def)

lemma digit_val_alt: "digit_val c = uint c - 48"
  by (simp add: digit_val_def)

lemma digit_val_range: "is_digit c \<Longrightarrow> 0 \<le> digit_val c \<and> digit_val c \<le> 9"
  by (simp add: is_digit_alt digit_val_alt)

text \<open>The value of a digit string read after the value \<open>v\<close>, most significant digit first.\<close>

definition dec_from :: "int \<Rightarrow> bytes \<Rightarrow> int" where
  "dec_from v ds = foldl (\<lambda>a c. a * 10 + digit_val c) v ds"

definition dec :: "bytes \<Rightarrow> int" where
  "dec ds = dec_from 0 ds"

abbreviation digits :: "bytes \<Rightarrow> bool" where
  "digits ds \<equiv> list_all is_digit ds"

lemma dec_from_Nil [simp]: "dec_from v [] = v"
  by (simp add: dec_from_def)

lemma dec_from_Cons [simp]: "dec_from v (c # ds) = dec_from (v * 10 + digit_val c) ds"
  by (simp add: dec_from_def)

lemma dec_from_append: "dec_from v (xs @ ys) = dec_from (dec_from v xs) ys"
  by (simp add: dec_from_def)

lemma dec_from_ge: "digits ds \<Longrightarrow> 0 \<le> v \<Longrightarrow> v \<le> dec_from v ds"
proof (induction ds arbitrary: v)
  case Nil
  then show ?case by simp
next
  case (Cons c ds)
  then have "0 \<le> digit_val c" using digit_val_range [of c] by simp
  with Cons.prems Cons.IH [of "v * 10 + digit_val c"] show ?case by simp
qed

lemma dec_from_bound: "digits ds \<Longrightarrow> dec_from v ds < (v + 1) * 10 ^ length ds"
proof (induction ds arbitrary: v)
  case Nil
  then show ?case by simp
next
  case (Cons c ds)
  then have d: "digit_val c \<le> 9" using digit_val_range [of c] by simp
  have "dec_from (v * 10 + digit_val c) ds < (v * 10 + digit_val c + 1) * 10 ^ length ds"
    using Cons by simp
  also have "\<dots> \<le> (v * 10 + 10) * 10 ^ length ds"
    using d by (intro mult_right_mono) auto
  also have "\<dots> = (v + 1) * 10 ^ length (c # ds)" by (simp add: algebra_simps)
  finally show ?case by simp
qed

lemma dec_bounds: "digits ds \<Longrightarrow> 0 \<le> dec ds \<and> dec ds < 10 ^ length ds"
  using dec_from_ge [of ds 0] dec_from_bound [of ds 0] by (simp add: dec_def)

lemma dec_bounds_le: "digits ds \<Longrightarrow> length ds \<le> n \<Longrightarrow> 0 \<le> dec ds \<and> dec ds < 10 ^ n"
  using dec_bounds [of ds] power_increasing [of "length ds" n "10::int"] by linarith

text \<open>Reading inside a byte list given as a prefix, the part of interest, and the rest.\<close>

lemma rd_append [mem_simps]: "rd (pre @ c # rest) (length pre) = Some c"
  by (simp add: rd_def)

lemma rd_append_Suc [mem_simps]:
  "rd (pre @ a # c # rest) (Suc (length pre)) = Some c"
  "rd (pre @ a # b # c # rest) (Suc (Suc (length pre))) = Some c"
  by (simp_all add: rd_def nth_append)

text \<open>A list is cut at the first occurrence of an element in one way only.\<close>

lemma first_split_unique:
  "xs @ x # ys = xs' @ x # ys' \<Longrightarrow> x \<notin> set xs \<Longrightarrow> x \<notin> set xs' \<Longrightarrow> xs = xs' \<and> ys = ys'"
proof (induction xs arbitrary: xs')
  case Nil
  then show ?case by (cases xs') auto
next
  case (Cons a xs)
  then show ?case by (cases xs') auto
qed

lemma unat_u8_less: "unat (b :: u8) < 256"
proof -
  have "unat b < 2 ^ LENGTH(8)" by (rule unsigned_less)
  then show ?thesis by simp
qed

lemma not_digit [simp]:
  "\<not> is_digit 0" "\<not> is_digit 42" "\<not> is_digit 43" "\<not> is_digit 44" "\<not> is_digit 45" "\<not> is_digit 46"
  by (simp_all add: is_digit_def)

lemma digit_not [simp]:
  "is_digit c \<Longrightarrow> c \<noteq> 0 \<and> c \<noteq> 42 \<and> c \<noteq> 43 \<and> c \<noteq> 44 \<and> c \<noteq> 45 \<and> c \<noteq> 46"
  by (auto simp: is_digit_alt)

lemma digits_no [simp]:
  "digits ds \<Longrightarrow> 0 \<notin> set ds \<and> 42 \<notin> set ds \<and> 43 \<notin> set ds \<and> 44 \<notin> set ds \<and> 45 \<notin> set ds \<and> 46 \<notin> set ds"
  by (induction ds) (auto dest: digit_not)

subsection \<open>Running a fallible step over a list of inputs\<close>

fun foldM :: "('b \<Rightarrow> 's \<Rightarrow> 's option) \<Rightarrow> 'b list \<Rightarrow> 's \<Rightarrow> 's option" where
  "foldM f [] s = Some s"
| "foldM f (b # bs) s = do { s' \<leftarrow> f b s; foldM f bs s' }"

lemma foldM_append: "foldM f (xs @ ys) s = do { s' \<leftarrow> foldM f xs s; foldM f ys s' }"
  by (induction xs arbitrary: s) (auto split: bind_splits)

lemma foldM_snoc: "foldM f (xs @ [y]) s = do { s' \<leftarrow> foldM f xs s; f y s' }"
  by (simp add: foldM_append split: bind_splits)

text \<open>A step that keeps an invariant and is defined under it runs over every input.\<close>

lemma foldM_inv:
  assumes "\<And>b s. I s \<Longrightarrow> \<exists>s'. f b s = Some s' \<and> I s'" and "I s"
  shows "\<exists>s'. foldM f bs s = Some s' \<and> I s'"
  using assms(2)
proof (induction bs arbitrary: s)
  case Nil
  then show ?case by simp
next
  case (Cons b bs)
  then obtain s1 where "f b s = Some s1" "I s1" using assms(1) by blast
  with Cons.IH [of s1] show ?case by simp
qed

subsection \<open>What holds whenever an operation returns\<close>

text \<open>
  Partial correctness of a fallible operation; the rules follow the structure of the operation, one
  for each construct.
\<close>

definition on_return :: "('a \<Rightarrow> bool) \<Rightarrow> 'a option \<Rightarrow> bool" where
  "on_return P m \<longleftrightarrow> (\<forall>x. m = Some x \<longrightarrow> P x)"

lemma postD: "on_return P m \<Longrightarrow> m = Some x \<Longrightarrow> P x"
  by (simp add: on_return_def)

lemma post_Some: "P x \<Longrightarrow> on_return P (Some x)"
  by (simp add: on_return_def)

lemma post_None: "on_return P None"
  by (simp add: on_return_def)

lemma post_bind: "(\<And>x. m = Some x \<Longrightarrow> on_return P (f x)) \<Longrightarrow> on_return P (m \<bind> f)"
  by (auto simp: on_return_def Option.bind_eq_Some_conv)

lemma post_if: "(b \<Longrightarrow> on_return P m) \<Longrightarrow> (\<not> b \<Longrightarrow> on_return P m') \<Longrightarrow> on_return P (if b then m else m')"
  by simp

lemma post_pair: "(\<And>a b. p = (a, b) \<Longrightarrow> on_return P (g a b)) \<Longrightarrow> on_return P (case p of (a, b) \<Rightarrow> g a b)"
  by (cases p) simp

lemma post_option: "(x = None \<Longrightarrow> on_return P m) \<Longrightarrow> (\<And>y. x = Some y \<Longrightarrow> on_return P (h y)) \<Longrightarrow> on_return P (case x of None \<Rightarrow> m | Some y \<Rightarrow> h y)"
  by (cases x) simp_all

lemma post_let: "(\<And>v. v = t \<Longrightarrow> on_return P (k v)) \<Longrightarrow> on_return P (let v = t in k v)"
  by (simp add: Let_def)

lemmas post_rules = post_Some post_None post_bind post_if post_pair post_option post_let


subsection \<open>Draining a byte source\<close>

text \<open>
  The polling loop both receivers use: take at most \<open>n\<close> bytes from the source, hand each to the
  line assembler, stop at the first poll that finds nothing.
\<close>

fun drain :: "('w \<Rightarrow> ('b option \<times> 'w) option) \<Rightarrow> ('b \<Rightarrow> 's \<Rightarrow> 's option) \<Rightarrow> nat \<Rightarrow> 's \<Rightarrow> 'w \<Rightarrow> ('s \<times> 'w) option" where
  "drain getc f 0 s w = Some (s, w)"
| "drain getc f (Suc n) s w = do {
     (r, w') \<leftarrow> getc w;
     case r of
       None \<Rightarrow> Some (s, w')
     | Some b \<Rightarrow> do { s' \<leftarrow> f b s; drain getc f n s' w' } }"

text \<open>
  A source whose bytes come out in the order they went in, while new ones may arrive at any poll:
  \<open>pending w\<close> are the bytes inside, \<open>arriving w\<close> those the next poll adds, \<open>later\<close> what polling
  leaves alone, \<open>quiet w\<close> says that nothing arrives any more.
\<close>

locale byte_source =
  fixes getc :: "'w \<Rightarrow> ('b option \<times> 'w) option"
    and winv :: "'w \<Rightarrow> bool"
    and pending :: "'w \<Rightarrow> 'b list"
    and arriving :: "'w \<Rightarrow> 'b list"
    and quiet :: "'w \<Rightarrow> bool"
    and later :: "'w \<Rightarrow> 'w \<Rightarrow> bool"
  assumes getc_fifo: "winv w \<Longrightarrow> \<exists>r w'. getc w = Some (r, w') \<and> winv w' \<and> later w w'
      \<and> pending w @ arriving w = (case r of None \<Rightarrow> [] | Some b \<Rightarrow> [b]) @ pending w'
      \<and> (r = None \<longrightarrow> pending w' = [])"
    and quiet_arriving: "quiet w \<Longrightarrow> arriving w = []"
    and later_quiet: "later w w' \<Longrightarrow> quiet w \<Longrightarrow> quiet w'"
    and later_refl: "later w w"
    and later_trans: "later w w1 \<Longrightarrow> later w1 w2 \<Longrightarrow> later w w2"
begin

text \<open>
  Which bytes a drain delivers is decided by the source alone: the client's state is what its step
  makes of them, in order. A drain that stops before its limit has left nothing behind.
\<close>

lemma drain_feeds:
  "winv w \<Longrightarrow> \<exists>bs acc w'. (\<forall>(f :: 'b \<Rightarrow> 's \<Rightarrow> 's option) s. drain getc f n s w = map_option (\<lambda>s'. (s', w')) (foldM f bs s))
    \<and> winv w' \<and> later w w' \<and> length bs \<le> n \<and> pending w @ acc = bs @ pending w'
    \<and> (length bs < n \<longrightarrow> pending w' = []) \<and> (quiet w \<longrightarrow> acc = [])"
proof (induction n arbitrary: w)
  case 0
  then show ?case using later_refl by (intro exI [of _ "[]"] exI [of _ w]) auto
next
  case (Suc n)
  obtain r w1 where g: "getc w = Some (r, w1)" "winv w1" "later w w1"
      "pending w @ arriving w = (case r of None \<Rightarrow> [] | Some b \<Rightarrow> [b]) @ pending w1"
      "r = None \<longrightarrow> pending w1 = []"
    using getc_fifo [OF Suc.prems] by blast
  show ?case
  proof (cases r)
    case None
    with g show ?thesis
      by (intro exI [of _ "[]"] exI [of _ "arriving w"] exI [of _ w1]) (auto simp: quiet_arriving)
  next
    case (Some b)
    from Suc.IH [OF g(2)] obtain bs acc w' where IH:
      "\<forall>(f :: 'b \<Rightarrow> 's \<Rightarrow> 's option) s. drain getc f n s w1 = map_option (\<lambda>s'. (s', w')) (foldM f bs s)" "winv w'" "later w1 w'"
      "length bs \<le> n" "pending w1 @ acc = bs @ pending w'" "length bs < n \<longrightarrow> pending w' = []"
      "quiet w1 \<longrightarrow> acc = []"
      by blast
    have "drain getc f (Suc n) s w = map_option (\<lambda>s'. (s', w')) (foldM f (b # bs) s)"
      for f :: "'b \<Rightarrow> 's \<Rightarrow> 's option" and s
      using g(1) Some IH(1) by (cases "f b s") simp_all
    moreover have "pending w @ arriving w @ acc = (b # bs) @ pending w'"
      using g(4) IH(5) Some by (metis append.assoc append_Cons append_Nil option.simps(5))
    moreover have "quiet w \<longrightarrow> arriving w @ acc = []"
      using IH(7) later_quiet [OF g(3)] quiet_arriving by simp
    ultimately show ?thesis
      using IH later_trans [OF g(3) IH(3)]
      by (intro exI [of _ "b # bs"] exI [of _ "arriving w @ acc"] exI [of _ w']) auto
  qed
qed

text \<open>With no more arrivals and room under the limit, everything pending is delivered.\<close>

lemma drain_quiet:
  fixes s :: 's
  assumes "winv w" "quiet w" "length (pending w) < n" "foldM f (pending w) s = Some s'"
  shows "\<exists>w'. drain getc f n s w = Some (s', w') \<and> winv w' \<and> later w w' \<and> pending w' = []"
proof -
  obtain bs acc w' where d: "drain getc f n s w = map_option (\<lambda>s'. (s', w')) (foldM f bs s)"
      "winv w'" "later w w'" "pending w @ acc = bs @ pending w'"
      "length bs < n \<longrightarrow> pending w' = []" "quiet w \<longrightarrow> acc = []"
    using drain_feeds [where ?'s = 's, OF assms(1), of n] by blast
  with assms(2) have p: "pending w = bs @ pending w'" by simp
  with assms(3) d(5) have "pending w' = []" by auto
  with p d assms(4) show ?thesis by simp
qed

end

end
