(* ===== verification/RingBuf.thy ===== *)
theory RingBuf
  imports Prelude
begin

text \<open>
  The interrupt-driven receive ring buffer of \<open>hal/rp2040_uart.c\<close>: its state, the loop of the
  two interrupt handlers, and the task-side operations. The abstraction \<open>rb_list\<close> reads a ring
  as the list of unread bytes; the lemmas show that every operation implements a bounded FIFO of
  255 bytes, and the locale \<open>byte_fifo\<close> states that contract once for its clients.
\<close>

definition UART_RING_BUF_SIZE :: nat where
  "UART_RING_BUF_SIZE = 256"

definition RING_MASK :: u32 where
  "RING_MASK = of_nat UART_RING_BUF_SIZE - 1"

definition HAL_OK :: int where "HAL_OK = 0"
definition HAL_ERR_TIMEOUT :: int where "HAL_ERR_TIMEOUT = - 1"
definition HAL_ERR_BUS :: int where "HAL_ERR_BUS = - 2"
definition HAL_ERR_INVAL :: int where "HAL_ERR_INVAL = - 3"
definition HAL_ERR_EMPTY :: int where "HAL_ERR_EMPTY = - 4"

record ringbuf =
  rb_buf :: bytes
  rb_head :: u32
  rb_tail :: u32

text \<open>The body of the interrupt handler's loop for one received byte.\<close>

definition rx_push :: "u8 \<Rightarrow> ringbuf \<Rightarrow> ringbuf option" where
  "rx_push byte rb =
     (let nxt = (rb_head rb + 1) AND RING_MASK in
      if nxt \<noteq> rb_tail rb then do {
        b \<leftarrow> wr (rb_buf rb) (unat (rb_head rb)) byte;
        Some (rb\<lparr>rb_buf := b, rb_head := nxt\<rparr>)
      } else Some rb)"

fun rx_irq_loop :: "bytes \<Rightarrow> ringbuf \<Rightarrow> ringbuf option" where
  "rx_irq_loop [] rb = Some rb"
| "rx_irq_loop (byte # fifo) rb = do { rb' \<leftarrow> rx_push byte rb; rx_irq_loop fifo rb' }"

text \<open>
  \<open>uart_getc_nb\<close>: the pointer argument is \<open>None\<close> for \<open>NULL\<close>, else the object it points to.
\<close>

definition uart_getc_nb :: "ringbuf \<Rightarrow> u8 option \<Rightarrow> (int \<times> u8 option \<times> ringbuf) option" where
  "uart_getc_nb rb byte =
     (case byte of
        None \<Rightarrow> Some (HAL_ERR_INVAL, None, rb)
      | Some b0 \<Rightarrow>
          (let head = rb_head rb in
           if rb_tail rb = head then Some (HAL_ERR_EMPTY, Some b0, rb)
           else do {
             b \<leftarrow> rd (rb_buf rb) (unat (rb_tail rb));
             Some (HAL_OK, Some b, rb\<lparr>rb_tail := (rb_tail rb + 1) AND RING_MASK\<rparr>)
           }))"

definition uart_rx_available :: "ringbuf \<Rightarrow> u32" where
  "uart_rx_available rb = (rb_head rb - rb_tail rb) AND RING_MASK"

definition uart_rx_flush :: "ringbuf \<Rightarrow> ringbuf" where
  "uart_rx_flush rb = rb\<lparr>rb_tail := rb_head rb\<rparr>"

subsection \<open>The queue a ring buffer stands for\<close>

definition rb_wf :: "ringbuf \<Rightarrow> bool" where
  "rb_wf rb \<longleftrightarrow> length (rb_buf rb) = 256 \<and> rb_head rb < 256 \<and> rb_tail rb < 256"

definition rb_count :: "ringbuf \<Rightarrow> nat" where
  "rb_count rb = (unat (rb_head rb) + 256 - unat (rb_tail rb)) mod 256"

definition rb_list :: "ringbuf \<Rightarrow> bytes" where
  "rb_list rb = map (\<lambda>k. rb_buf rb ! ((unat (rb_tail rb) + k) mod 256)) [0..<rb_count rb]"

lemma RING_MASK_mask: "RING_MASK = mask 8"
  by (simp add: RING_MASK_def UART_RING_BUF_SIZE_def mask_eq_exp_minus_1)

lemma unat_and_RING_MASK [simp]: "unat (x AND RING_MASK) = unat x mod 256"
proof -
  have "x AND RING_MASK = take_bit 8 x"
    by (simp only: RING_MASK_mask take_bit_eq_mask)
  then have "unat (x AND RING_MASK) = take_bit 8 (unat x)"
    by (simp only: unsigned_take_bit_eq)
  then show ?thesis by (simp add: take_bit_eq_mod)
qed

lemma unat_less_256: "x < 256 \<Longrightarrow> unat x < 256" for x :: u32
  by (simp add: word_less_nat_alt)

lemma and_RING_MASK_less [simp]: "(x AND RING_MASK) < 256"
  by (simp add: word_less_nat_alt)

lemma unat_succ_RING [simp]: "x < 256 \<Longrightarrow> unat ((x + 1) AND RING_MASK) = (unat x + 1) mod 256"
  by (simp add: unat_word_ariths word_less_nat_alt)

lemma unat_diff_RING:
  assumes "x < 256" "y < 256"
  shows "unat ((x - y) AND RING_MASK) = (unat x + 256 - unat y) mod 256"
proof (cases "y \<le> x")
  case True
  then have "unat (x - y) = unat x - unat y" by (rule unat_sub)
  with True assms show ?thesis by (simp add: word_le_nat_alt word_less_nat_alt mod_if)
next
  case False
  then have "unat (x - y) = unat x + 2 ^ 32 - unat y"
    using unat_sub_if_size [of x y] by (simp add: word_size word_le_nat_alt)
  with False assms have "unat (x - y) = (unat x + 256 - unat y) + 256 * 16777215"
    by (simp add: word_le_nat_alt word_less_nat_alt)
  then have "unat (x - y) mod 256 = (unat x + 256 - unat y) mod 256"
    by (simp only: mod_mult_self2)
  then show ?thesis by simp
qed

lemma rb_count_less [simp]: "rb_count rb < 256"
  by (simp add: rb_count_def)

lemma length_rb_list [simp]: "length (rb_list rb) = rb_count rb"
  by (simp add: rb_list_def)

lemma rb_wf_unat: "rb_wf rb \<Longrightarrow> length (rb_buf rb) = 256 \<and> unat (rb_head rb) < 256 \<and> unat (rb_tail rb) < 256"
  by (simp add: rb_wf_def unat_less_256)

lemma rb_head_offset: "rb_wf rb \<Longrightarrow> (unat (rb_tail rb) + rb_count rb) mod 256 = unat (rb_head rb)"
  by (drule rb_wf_unat) (auto simp: rb_count_def mod_if)

lemma rb_list_eq_Nil: "rb_wf rb \<Longrightarrow> rb_list rb = [] \<longleftrightarrow> rb_tail rb = rb_head rb"
proof -
  assume "rb_wf rb"
  then have "rb_count rb = 0 \<longleftrightarrow> unat (rb_tail rb) = unat (rb_head rb)"
    by (drule_tac rb_wf_unat) (auto simp: rb_count_def mod_if)
  then show ?thesis by (simp add: rb_list_def word_unat_eq_iff)
qed

lemma rb_count_eq_255:
  assumes "rb_wf rb"
  shows "(rb_head rb + 1) AND RING_MASK = rb_tail rb \<longleftrightarrow> rb_count rb = 255"
proof -
  have "(unat (rb_head rb) + 1) mod 256 = unat (rb_tail rb) \<longleftrightarrow> rb_count rb = 255"
    using rb_wf_unat [OF assms] by (auto simp: rb_count_def mod_if)
  then show ?thesis
    using assms by (simp add: word_unat_eq_iff rb_wf_def del: unat_and_RING_MASK)
qed


lemma rb_slot_inj:
  assumes "j < 256" "k < 256"
  shows "(t + j) mod 256 = (t + k) mod 256 \<longleftrightarrow> j = (k::nat)"
proof
  assume "(t + j) mod 256 = (t + k) mod 256"
  then have "(int t + int j) mod 256 = (int t + int k) mod 256"
    by (metis of_nat_add of_nat_mod of_nat_numeral)
  then have "int j mod 256 = int k mod 256"
    by (simp add: mod_eq_dvd_iff)
  with assms show "j = k" by simp
qed simp

lemma ring_count_succ:
  assumes "h < 256" "t < 256" "(h + 256 - t) mod 256 < 255"
  shows "(Suc h mod 256 + 256 - t) mod 256 = Suc ((h + 256 - t) mod 256)"
proof (cases "h = 255")
  case True
  with assms show ?thesis by (cases "t = 0") (auto simp: mod_if)
next
  case False
  with assms show ?thesis by (cases "t \<le> h") (auto simp: mod_if)
qed

lemma ring_count_pred:
  assumes "h < 256" "t < 256" "t \<noteq> h"
  shows "(h + 256 - t) mod 256 = Suc ((h + 256 - Suc t mod 256) mod 256)"
proof (cases "t = 255")
  case True
  with assms show ?thesis by (auto simp: mod_if)
next
  case False
  with assms show ?thesis by (cases "t < h") (auto simp: mod_if)
qed

lemma rx_push_full:
  "rb_wf rb \<Longrightarrow> rb_count rb = 255 \<Longrightarrow> rx_push byte rb = Some rb"
  by (simp add: rx_push_def rb_count_eq_255 Let_def)

lemma rx_push_room:
  assumes wf: "rb_wf rb" and room: "rb_count rb < 255"
  obtains rb' where "rx_push byte rb = Some rb'" "rb_wf rb'" "rb_list rb' = rb_list rb @ [byte]"
proof -
  let ?h = "unat (rb_head rb)" and ?t = "unat (rb_tail rb)"
  let ?rb = "rb\<lparr>rb_buf := (rb_buf rb)[?h := byte], rb_head := (rb_head rb + 1) AND RING_MASK\<rparr>"
  note u = rb_wf_unat [OF wf]
  have h256: "rb_head rb < 256" using wf by (simp add: rb_wf_def)
  have push: "rx_push byte rb = Some ?rb"
    using wf room u by (simp add: rx_push_def Let_def rb_count_eq_255 mem_simps)
  have wf': "rb_wf ?rb" using wf by (simp add: rb_wf_def)
  have count: "rb_count ?rb = rb_count rb + 1"
    using u room h256 by (simp add: rb_count_def ring_count_succ del: unat_and_RING_MASK)
  have off: "(?t + rb_count rb) mod 256 = ?h"
    by (rule rb_head_offset [OF wf])
  have old: "?h \<noteq> (?t + k) mod 256" if "k < rb_count rb" for k
    using rb_slot_inj [of "rb_count rb" k ?t] that room off by auto
  have "rb_list ?rb = rb_list rb @ [byte]"
    using u off old unfolding rb_list_def count by simp
  with push wf' show ?thesis by (rule that)
qed

lemma uart_getc_nb_empty:
  "rb_wf rb \<Longrightarrow> rb_list rb = [] \<Longrightarrow> uart_getc_nb rb (Some b0) = Some (HAL_ERR_EMPTY, Some b0, rb)"
  by (simp add: uart_getc_nb_def rb_list_eq_Nil)

lemma uart_getc_nb_cons:
  assumes wf: "rb_wf rb" and l: "rb_list rb = b # bs"
  obtains rb' where "uart_getc_nb rb (Some b0) = Some (HAL_OK, Some b, rb')" "rb_wf rb'" "rb_list rb' = bs"
proof -
  let ?t = "unat (rb_tail rb)"
  let ?rb = "rb\<lparr>rb_tail := (rb_tail rb + 1) AND RING_MASK\<rparr>"
  note u = rb_wf_unat [OF wf]
  have t256: "rb_tail rb < 256" using wf by (simp add: rb_wf_def)
  from l have ne: "rb_tail rb \<noteq> rb_head rb" using rb_list_eq_Nil [OF wf] by simp
  then have count: "rb_count rb = Suc (rb_count ?rb)"
    using u t256 by (simp add: rb_count_def ring_count_pred word_unat_eq_iff del: unat_and_RING_MASK)
  have "rb_list rb = rb_buf rb ! ?t # map (\<lambda>k. rb_buf rb ! ((?t + Suc k) mod 256)) [0..<rb_count ?rb]"
    using u unfolding rb_list_def count by (simp add: upt_conv_Cons map_Suc_upt [symmetric] del: upt_Suc)
  moreover have "rb_list ?rb = map (\<lambda>k. rb_buf rb ! ((?t + Suc k) mod 256)) [0..<rb_count ?rb]"
    using t256 by (simp add: rb_list_def mod_add_left_eq del: unat_and_RING_MASK)
  ultimately have "b = rb_buf rb ! ?t" "rb_list ?rb = bs" using l by simp_all
  moreover have "uart_getc_nb rb (Some b0) = Some (HAL_OK, Some (rb_buf rb ! ?t), ?rb)"
    using ne u by (simp add: uart_getc_nb_def mem_simps)
  moreover have "rb_wf ?rb" using wf by (simp add: rb_wf_def)
  ultimately show ?thesis by (intro that) auto
qed

lemma uart_rx_flush_wf: "rb_wf rb \<Longrightarrow> rb_wf (uart_rx_flush rb)"
  by (simp add: rb_wf_def uart_rx_flush_def)

lemma uart_rx_flush_list: "rb_list (uart_rx_flush rb) = []"
  by (simp add: rb_list_def rb_count_def uart_rx_flush_def)

lemma uart_rx_available_count:
  "rb_wf rb \<Longrightarrow> unat (uart_rx_available rb) = length (rb_list rb)"
  by (simp add: rb_wf_def uart_rx_available_def unat_diff_RING rb_count_def del: unat_and_RING_MASK)

text \<open>A ring buffer that holds given bytes.\<close>

definition rb_load :: "bytes \<Rightarrow> ringbuf" where
  "rb_load L = \<lparr>rb_buf = L @ replicate (256 - length L) 0, rb_head = of_nat (length L), rb_tail = 0\<rparr>"

lemma rb_load_list:
  assumes "length L \<le> 255"
  shows "rb_wf (rb_load L) \<and> rb_list (rb_load L) = L"
proof
  have u: "unat (of_nat (length L) :: u32) = length L" using assms by (simp add: unat_of_nat)
  then show "rb_wf (rb_load L)" using assms by (simp add: rb_wf_def rb_load_def word_less_nat_alt)
  have c: "rb_count (rb_load L) = length L" using u assms by (simp add: rb_count_def rb_load_def)
  show "rb_list (rb_load L) = L"
    unfolding rb_list_def c using assms by (intro nth_equalityI) (simp_all add: rb_load_def nth_append)
qed

subsection \<open>The contract of a bounded byte queue\<close>

text \<open>
  What the rest of the firmware relies on: \<open>put\<close> appends a byte unless the queue is full, \<open>get\<close>
  returns the oldest byte or nothing, \<open>flush\<close> empties the queue.
\<close>

locale byte_fifo =
  fixes put :: "'b \<Rightarrow> 'q \<Rightarrow> 'q option"
    and get :: "'q \<Rightarrow> ('b option \<times> 'q) option"
    and flush :: "'q \<Rightarrow> 'q"
    and inv :: "'q \<Rightarrow> bool"
    and cont :: "'q \<Rightarrow> 'b list"
    and cap :: nat
  assumes cont_bounded: "inv q \<Longrightarrow> length (cont q) \<le> cap"
    and put_room: "inv q \<Longrightarrow> length (cont q) < cap \<Longrightarrow>
      \<exists>q'. put b q = Some q' \<and> inv q' \<and> cont q' = cont q @ [b]"
    and put_full: "inv q \<Longrightarrow> length (cont q) = cap \<Longrightarrow> put b q = Some q"
    and get_empty: "inv q \<Longrightarrow> cont q = [] \<Longrightarrow> get q = Some (None, q)"
    and get_next: "inv q \<Longrightarrow> cont q = b # bs \<Longrightarrow>
      \<exists>q'. get q = Some (Some b, q') \<and> inv q' \<and> cont q' = bs"
    and flush_empty: "inv q \<Longrightarrow> inv (flush q) \<and> cont (flush q) = []"
begin

lemma foldM_accepts:
  "inv q \<Longrightarrow> \<exists>q'. foldM put bs q = Some q' \<and> inv q'
     \<and> cont q' = cont q @ take (cap - length (cont q)) bs"
proof (induction bs arbitrary: q)
  case Nil
  then show ?case by simp
next
  case (Cons b bs)
  show ?case
  proof (cases "length (cont q) < cap")
    case True
    then obtain q1 where q1: "put b q = Some q1" "inv q1" "cont q1 = cont q @ [b]"
      using put_room [OF Cons.prems] by blast
    with True Cons.IH [OF q1(2)] q1 show ?thesis by (auto simp: take_Cons')
  next
    case False
    with cont_bounded [OF Cons.prems] have full: "length (cont q) = cap" by simp
    with Cons.IH [OF Cons.prems] put_full [OF Cons.prems full] show ?thesis by simp
  qed
qed

lemma foldM_then_get:
  assumes "inv q"
  shows "\<exists>q1 r q2. foldM put bs q = Some q1 \<and> get q1 = Some (r, q2) \<and> inv q2
    \<and> cont q @ take (cap - length (cont q)) bs = (case r of None \<Rightarrow> [] | Some b \<Rightarrow> [b]) @ cont q2
    \<and> (r = None \<longrightarrow> cont q2 = [])"
proof -
  obtain q1 where q1: "foldM put bs q = Some q1" "inv q1"
      "cont q1 = cont q @ take (cap - length (cont q)) bs"
    using foldM_accepts [OF assms] by blast
  show ?thesis
  proof (cases "cont q1")
    case Nil
    with q1 get_empty [OF q1(2) Nil] show ?thesis by auto
  next
    case (Cons b cs)
    with q1 get_next [OF q1(2) Cons] show ?thesis by fastforce
  qed
qed

end

text \<open>
  \<open>uart_getc_nb\<close> seen as a queue operation: return code and out-parameter read as one option.
\<close>

definition ring_get :: "ringbuf \<Rightarrow> (u8 option \<times> ringbuf) option" where
  "ring_get rb = do {
     (rc, p, rb') \<leftarrow> uart_getc_nb rb (Some 0);
     Some (if rc = HAL_OK then p else None, rb') }"

lemma HAL_codes_distinct [simp]:
  "HAL_OK \<noteq> HAL_ERR_EMPTY" "HAL_ERR_EMPTY \<noteq> HAL_OK" "HAL_OK \<noteq> HAL_ERR_TIMEOUT" "HAL_ERR_TIMEOUT \<noteq> HAL_OK"
  "HAL_OK \<noteq> HAL_ERR_BUS" "HAL_ERR_BUS \<noteq> HAL_OK" "HAL_OK \<noteq> HAL_ERR_INVAL" "HAL_ERR_INVAL \<noteq> HAL_OK"
  by (simp_all add: HAL_OK_def HAL_ERR_EMPTY_def HAL_ERR_TIMEOUT_def HAL_ERR_BUS_def HAL_ERR_INVAL_def)

interpretation ring: byte_fifo rx_push ring_get uart_rx_flush rb_wf rb_list 255
proof (unfold_locales, goal_cases)
  case (1 q)
  then show ?case using rb_count_less [of q] by (simp del: rb_count_less)
next
  case (2 q b)
  then show ?case by (metis length_rb_list rx_push_room)
next
  case (3 q b)
  then show ?case by (simp add: rx_push_full)
next
  case (4 q)
  then show ?case by (simp add: ring_get_def uart_getc_nb_empty)
next
  case (5 q b bs)
  then obtain rb' where "uart_getc_nb q (Some 0) = Some (HAL_OK, Some b, rb')" "rb_wf rb'" "rb_list rb' = bs"
    by (metis uart_getc_nb_cons)
  then show ?case by (simp add: ring_get_def)
next
  case (6 q)
  then show ?case by (simp add: uart_rx_flush_wf uart_rx_flush_list)
qed

lemma rx_irq_loop_foldM: "rx_irq_loop bs rb = foldM rx_push bs rb"
  by (induction bs arbitrary: rb) (auto split: bind_splits)

subsection \<open>Properties\<close>

text \<open>
  C38: However many bytes one interrupt delivers, the ring keeps the oldest: of what it held and what
  arrives it stores the first 255 bytes, in order, and drops the rest.
\<close>

theorem ring_keeps_oldest:
  assumes "rb_wf rb"
  shows "\<exists>rb'. rx_irq_loop bs rb = Some rb' \<and> rb_wf rb' \<and> rb_list rb' = take 255 (rb_list rb @ bs)"
  using ring.foldM_accepts [OF assms, of bs] ring.cont_bounded [OF assms] by (simp add: rx_irq_loop_foldM)

lemma ring_keeps_oldest_witness:
  "\<exists>rb'. rx_irq_loop (replicate 100 2) (rb_load (replicate 200 1)) = Some rb'
    \<and> rb_list rb' = replicate 200 1 @ replicate 55 2"
  using ring_keeps_oldest [of "rb_load (replicate 200 1)" "replicate 100 2"] rb_load_list [of "replicate 200 1"] by auto

end
