(* ===== verification/Hal.thy ===== *)
theory Hal
  imports RingBuf
begin

text \<open>
  The hardware abstraction layer the components call: \<open>hal/rp2040_uart.c\<close> (transmit, non-blocking
  receive, the interrupt handlers and initialisation of both UARTs), \<open>hal/rp2040_time.c\<close> and the
  UART and time entries of \<open>hal/rp2040_hal.c\<close>.

  The pico-sdk is not part of the repository. What it reports is a parameter, kept in the state
  record: the \<open>n\<close>-th reading of the microsecond timer is \<open>w_clock w n\<close>; at the \<open>n\<close>-th call from
  the firmware into the HAL the transmit FIFO of a UART has room iff \<open>w_txready w id n\<close>, and the
  receive FIFO of a UART holds the bytes \<open>w_fifo w id n\<close> when its interrupt runs. The interrupts of both
  UARTs are served before the call; \<open>RingConc\<close> shows that serving them in the middle of a
  task-side operation gives no other result. What the firmware does to the SDK is recorded: the
  bytes put on each wire, and the other calls in order.
\<close>

definition HAL_UART0 :: u8 where "HAL_UART0 = 0"
definition HAL_UART1 :: u8 where "HAL_UART1 = 1"

datatype sdk_call =
    StdioInitAll
  | AddRepeatingTimerMs int
  | CriticalSectionInit u8
  | UartInit u8 u32
  | GpioSetFunctionUart u32
  | UartSetFormat8N1 u8
  | UartSetFifoEnabled u8 bool
  | IrqSetExclusiveHandler u8
  | IrqSetEnabled u8 bool
  | UartSetIrqEnables u8 bool bool
  | SleepMs u32
  | WatchdogEnable u32 bool
  | WatchdogUpdate

record world =
  w_step :: nat
  w_reads :: nat
  w_clock :: "nat \<Rightarrow> u64"
  w_txready :: "u8 \<Rightarrow> nat \<Rightarrow> bool"
  w_fifo :: "u8 \<Rightarrow> nat \<Rightarrow> bytes"
  s_rx0 :: ringbuf
  s_rx1 :: ringbuf
  w_tx0 :: bytes
  w_tx1 :: bytes
  w_calls :: "sdk_call list"

definition sdk_do :: "sdk_call \<Rightarrow> world \<Rightarrow> world" where
  "sdk_do c w = w\<lparr>w_calls := w_calls w @ [c]\<rparr>"

subsection \<open>Interrupts\<close>

definition uart0_rx_irq_handler :: "bytes \<Rightarrow> world \<Rightarrow> world option" where
  "uart0_rx_irq_handler fifo w = do { rb \<leftarrow> rx_irq_loop fifo (s_rx0 w); Some (w\<lparr>s_rx0 := rb\<rparr>) }"

definition uart1_rx_irq_handler :: "bytes \<Rightarrow> world \<Rightarrow> world option" where
  "uart1_rx_irq_handler fifo w = do { rb \<leftarrow> rx_irq_loop fifo (s_rx1 w); Some (w\<lparr>s_rx1 := rb\<rparr>) }"

definition serve_irqs :: "world \<Rightarrow> world option" where
  "serve_irqs w = do {
     w1 \<leftarrow> uart0_rx_irq_handler (w_fifo w HAL_UART0 (w_step w)) w;
     w2 \<leftarrow> uart1_rx_irq_handler (w_fifo w HAL_UART1 (w_step w)) w1;
     Some (w2\<lparr>w_step := Suc (w_step w)\<rparr>) }"

subsection \<open>Time and watchdog\<close>

definition hal_time_us :: "world \<Rightarrow> (u64 \<times> world) option" where
  "hal_time_us w = do {
     w' \<leftarrow> serve_irqs w;
     Some (w_clock w (w_reads w), w'\<lparr>w_reads := Suc (w_reads w)\<rparr>) }"

definition hal_delay_ms :: "u32 \<Rightarrow> world \<Rightarrow> world option" where
  "hal_delay_ms ms w =
     (let ms = (if ms > 1000 then 1000 else ms) in do {
        w' \<leftarrow> serve_irqs w;
        Some (sdk_do (SleepMs ms) w') })"

definition hal_watchdog_enable :: "u32 \<Rightarrow> world \<Rightarrow> world" where
  "hal_watchdog_enable timeout_ms w = sdk_do (WatchdogEnable timeout_ms True) w"

definition hal_watchdog_kick :: "world \<Rightarrow> world" where
  "hal_watchdog_kick w = sdk_do WatchdogUpdate w"

subsection \<open>Receive\<close>

definition rx_of :: "u8 \<Rightarrow> world \<Rightarrow> ringbuf" where
  "rx_of uart_id w = (if uart_id = HAL_UART0 then s_rx0 w else s_rx1 w)"

definition set_rx :: "u8 \<Rightarrow> ringbuf \<Rightarrow> world \<Rightarrow> world" where
  "set_rx uart_id rb w = (if uart_id = HAL_UART0 then w\<lparr>s_rx0 := rb\<rparr> else w\<lparr>s_rx1 := rb\<rparr>)"

text \<open>The caller passes the address of a local byte: the value it held, and the value it holds after.\<close>

definition hal_uart_getc :: "u8 \<Rightarrow> u8 \<Rightarrow> world \<Rightarrow> (int \<times> u8 \<times> world) option" where
  "hal_uart_getc uart_id byte w = do {
     w1 \<leftarrow> serve_irqs w;
     (rc, p, rb) \<leftarrow> uart_getc_nb (rx_of uart_id w1) (Some byte);
     b \<leftarrow> p;
     Some (rc, b, set_rx uart_id rb w1) }"

definition hal_uart_rx_available :: "u8 \<Rightarrow> world \<Rightarrow> (u32 \<times> world) option" where
  "hal_uart_rx_available uart_id w = do {
     w1 \<leftarrow> serve_irqs w;
     Some (uart_rx_available (rx_of uart_id w1), w1) }"

definition hal_uart_rx_flush :: "u8 \<Rightarrow> world \<Rightarrow> world option" where
  "hal_uart_rx_flush uart_id w = do {
     w1 \<leftarrow> serve_irqs w;
     Some (set_rx uart_id (uart_rx_flush (rx_of uart_id w1)) w1) }"

subsection \<open>Transmit\<close>

definition uart_is_writable :: "u8 \<Rightarrow> world \<Rightarrow> (bool \<times> world) option" where
  "uart_is_writable uart_id w = do { w' \<leftarrow> serve_irqs w; Some (w_txready w uart_id (w_step w), w') }"

definition uart_putc_raw :: "u8 \<Rightarrow> u8 \<Rightarrow> world \<Rightarrow> world" where
  "uart_putc_raw uart_id c w =
     (if uart_id = HAL_UART0 then w\<lparr>w_tx0 := w_tx0 w @ [c]\<rparr> else w\<lparr>w_tx1 := w_tx1 w @ [c]\<rparr>)"

text \<open>
  The inner loop of \<open>uart_write\<close>: \<open>True\<close> when the FIFO has room, \<open>False\<close> at the deadline,
  \<open>None\<close> if neither ever happens.
\<close>

partial_function (option) uart_wait_writable :: "u8 \<Rightarrow> u64 \<Rightarrow> world \<Rightarrow> (bool \<times> world) option" where
  "uart_wait_writable uart_id deadline w = do {
     (ready, w1) \<leftarrow> uart_is_writable uart_id w;
     if ready then Some (True, w1)
     else do {
       (t, w2) \<leftarrow> hal_time_us w1;
       if t \<ge> deadline then Some (False, w2) else uart_wait_writable uart_id deadline w2 } }"

function uart_write_loop :: "u8 \<Rightarrow> u64 \<Rightarrow> bytes \<Rightarrow> nat \<Rightarrow> nat \<Rightarrow> world \<Rightarrow> (int \<times> world) option" where
  "uart_write_loop uart_id deadline buf len i w =
     (if i < len then do {
        (ready, w1) \<leftarrow> uart_wait_writable uart_id deadline w;
        if \<not> ready then Some (HAL_ERR_TIMEOUT, w1)
        else do {
          c \<leftarrow> rd buf i;
          uart_write_loop uart_id deadline buf len (Suc i) (uart_putc_raw uart_id c w1) } }
      else Some (HAL_OK, w))"
  by pat_completeness auto
termination
  by (relation "measure (\<lambda>(uart_id, deadline, buf, len, i, w). len - i)") auto

declare uart_write_loop.simps [simp del]

definition uart_write :: "u8 \<Rightarrow> bytes option \<Rightarrow> nat \<Rightarrow> u32 \<Rightarrow> world \<Rightarrow> (int \<times> world) option" where
  "uart_write uart_id buf len timeout_us w =
     (case buf of
        None \<Rightarrow> Some (HAL_ERR_INVAL, w)
      | Some b \<Rightarrow>
          (let uart = (if uart_id = HAL_UART0 then HAL_UART0 else HAL_UART1) in do {
             (t, w1) \<leftarrow> hal_time_us w;
             uart_write_loop uart (t + ucast timeout_us) b len 0 w1 }))"

definition hal_uart_write :: "u8 \<Rightarrow> bytes option \<Rightarrow> nat \<Rightarrow> u32 \<Rightarrow> world \<Rightarrow> (int \<times> world) option" where
  "hal_uart_write uart_id buf len timeout_us w = uart_write uart_id buf len timeout_us w"

subsection \<open>Initialisation\<close>

definition UART0_TX_PIN :: u32 where "UART0_TX_PIN = 0"
definition UART0_RX_PIN :: u32 where "UART0_RX_PIN = 1"
definition UART0_BAUD :: u32 where "UART0_BAUD = 115200"
definition UART1_TX_PIN :: u32 where "UART1_TX_PIN = 4"
definition UART1_RX_PIN :: u32 where "UART1_RX_PIN = 5"
definition UART1_BAUD :: u32 where "UART1_BAUD = 9600"

definition uart0_init_hw :: "world \<Rightarrow> int \<times> world" where
  "uart0_init_hw w =
     (let w = sdk_do (CriticalSectionInit HAL_UART0) w;
          w = w\<lparr>s_rx0 := (s_rx0 w)\<lparr>rb_head := 0, rb_tail := 0\<rparr>\<rparr>;
          w = sdk_do (UartInit HAL_UART0 UART0_BAUD) w;
          w = sdk_do (GpioSetFunctionUart UART0_TX_PIN) w;
          w = sdk_do (GpioSetFunctionUart UART0_RX_PIN) w;
          w = sdk_do (UartSetFormat8N1 HAL_UART0) w;
          w = sdk_do (UartSetFifoEnabled HAL_UART0 True) w;
          w = sdk_do (IrqSetExclusiveHandler HAL_UART0) w;
          w = sdk_do (IrqSetEnabled HAL_UART0 True) w;
          w = sdk_do (UartSetIrqEnables HAL_UART0 True False) w
      in (HAL_OK, w))"

definition uart1_init_hw :: "world \<Rightarrow> int \<times> world" where
  "uart1_init_hw w =
     (let w = sdk_do (CriticalSectionInit HAL_UART1) w;
          w = w\<lparr>s_rx1 := (s_rx1 w)\<lparr>rb_head := 0, rb_tail := 0\<rparr>\<rparr>;
          w = sdk_do (UartInit HAL_UART1 UART1_BAUD) w;
          w = sdk_do (GpioSetFunctionUart UART1_TX_PIN) w;
          w = sdk_do (GpioSetFunctionUart UART1_RX_PIN) w;
          w = sdk_do (UartSetFormat8N1 HAL_UART1) w;
          w = sdk_do (UartSetFifoEnabled HAL_UART1 True) w;
          w = sdk_do (IrqSetExclusiveHandler HAL_UART1) w;
          w = sdk_do (IrqSetEnabled HAL_UART1 True) w;
          w = sdk_do (UartSetIrqEnables HAL_UART1 True False) w
      in (HAL_OK, w))"

definition hal_uart0_init :: "world \<Rightarrow> int \<times> world" where
  "hal_uart0_init w = uart0_init_hw w"

definition hal_uart1_init :: "world \<Rightarrow> int \<times> world" where
  "hal_uart1_init w = uart1_init_hw w"

subsection \<open>What every HAL call keeps\<close>

definition world_wf :: "world \<Rightarrow> bool" where
  "world_wf w \<longleftrightarrow> rb_wf (s_rx0 w) \<and> rb_wf (s_rx1 w)"

text \<open>The bytes waiting in a receive ring, and those its interrupt adds at the next call.\<close>

definition rx_list :: "u8 \<Rightarrow> world \<Rightarrow> bytes" where
  "rx_list uart_id w = rb_list (rx_of uart_id w)"

definition rx_fifo_id :: "u8 \<Rightarrow> u8" where
  "rx_fifo_id uart_id = (if uart_id = HAL_UART0 then HAL_UART0 else HAL_UART1)"

definition rx_arriving :: "u8 \<Rightarrow> world \<Rightarrow> bytes" where
  "rx_arriving uart_id w =
     take (255 - length (rx_list uart_id w)) (w_fifo w (rx_fifo_id uart_id) (w_step w))"

text \<open>No byte arrives on a UART from now on.\<close>

definition rx_quiet :: "u8 \<Rightarrow> world \<Rightarrow> bool" where
  "rx_quiet uart_id w \<longleftrightarrow> (\<forall>n \<ge> w_step w. w_fifo w (rx_fifo_id uart_id) n = [])"

text \<open>\<open>later w w'\<close>: the same hardware, further on; nothing sent and no other SDK call made.\<close>

definition same_hw :: "world \<Rightarrow> world \<Rightarrow> bool" where
  "same_hw w w' \<longleftrightarrow> w_clock w' = w_clock w \<and> w_txready w' = w_txready w \<and> w_fifo w' = w_fifo w
     \<and> w_step w \<le> w_step w' \<and> w_reads w \<le> w_reads w'"

definition later :: "world \<Rightarrow> world \<Rightarrow> bool" where
  "later w w' \<longleftrightarrow> same_hw w w' \<and> w_tx0 w' = w_tx0 w \<and> w_tx1 w' = w_tx1 w \<and> w_calls w' = w_calls w"

lemma same_hw_refl [simp]: "same_hw w w"
  by (simp add: same_hw_def)

lemma same_hw_trans [trans]: "same_hw w w1 \<Longrightarrow> same_hw w1 w2 \<Longrightarrow> same_hw w w2"
  by (auto simp: same_hw_def)

lemma later_refl [simp]: "later w w"
  by (simp add: later_def)

lemma later_trans [trans]: "later w w1 \<Longrightarrow> later w1 w2 \<Longrightarrow> later w w2"
  by (auto simp: later_def intro: same_hw_trans)

lemma later_same_hw: "later w w' \<Longrightarrow> same_hw w w'"
  by (simp add: later_def)

lemma HAL_UART_distinct [simp]: "HAL_UART0 \<noteq> HAL_UART1" "HAL_UART1 \<noteq> HAL_UART0"
  by (simp_all add: HAL_UART0_def HAL_UART1_def)

lemma rx_of_set_rx [simp]: "rx_of u (set_rx u rb w) = rb"
  by (simp add: rx_of_def set_rx_def)

lemma set_rx_later [simp]: "later w (set_rx u rb w)"
  by (simp add: later_def same_hw_def set_rx_def)

lemma set_rx_wf: "world_wf w \<Longrightarrow> rb_wf rb \<Longrightarrow> world_wf (set_rx u rb w)"
  by (simp add: world_wf_def set_rx_def)

lemma rx_of_wf: "world_wf w \<Longrightarrow> rb_wf (rx_of u w)"
  by (simp add: world_wf_def rx_of_def)

lemma set_rx_step [simp]: "w_step (set_rx u rb w) = w_step w" "w_reads (set_rx u rb w) = w_reads w"
  by (simp_all add: set_rx_def)

lemma serve_irqs_spec:
  assumes "world_wf w"
  shows "\<exists>w'. serve_irqs w = Some w' \<and> world_wf w' \<and> later w w' \<and> w_step w' = Suc (w_step w)
    \<and> w_reads w' = w_reads w \<and> (\<forall>u. rx_list u w' = rx_list u w @ rx_arriving u w)"
proof -
  have "rb_wf (s_rx0 w)" "rb_wf (s_rx1 w)" using assms by (simp_all add: world_wf_def)
  with ring.foldM_accepts obtain r0 r1 where
    r0: "foldM rx_push (w_fifo w HAL_UART0 (w_step w)) (s_rx0 w) = Some r0" "rb_wf r0"
      "rb_list r0 = rb_list (s_rx0 w) @ take (255 - length (rb_list (s_rx0 w))) (w_fifo w HAL_UART0 (w_step w))" and
    r1: "foldM rx_push (w_fifo w HAL_UART1 (w_step w)) (s_rx1 w) = Some r1" "rb_wf r1"
      "rb_list r1 = rb_list (s_rx1 w) @ take (255 - length (rb_list (s_rx1 w))) (w_fifo w HAL_UART1 (w_step w))"
    by meson
  have "serve_irqs w = Some (w\<lparr>s_rx0 := r0, s_rx1 := r1, w_step := Suc (w_step w)\<rparr>)"
    using r0(1) r1(1)
    by (simp add: serve_irqs_def uart0_rx_irq_handler_def uart1_rx_irq_handler_def rx_irq_loop_foldM)
  then show ?thesis
    using r0 r1 by (auto simp: world_wf_def later_def same_hw_def rx_list_def rx_of_def rx_arriving_def rx_fifo_id_def)
qed

lemma rx_of_w_reads [simp]: "rx_of u (w\<lparr>w_reads := n\<rparr>) = rx_of u w"
  by (simp add: rx_of_def)

lemma hal_time_us_spec:
  assumes "world_wf w"
  shows "\<exists>w'. hal_time_us w = Some (w_clock w (w_reads w), w') \<and> world_wf w' \<and> later w w'
    \<and> w_reads w' = Suc (w_reads w) \<and> (\<forall>u. rx_list u w' = rx_list u w @ rx_arriving u w)"
  using serve_irqs_spec [OF assms]
  by (auto simp: hal_time_us_def world_wf_def later_def same_hw_def rx_list_def)

lemma uart_is_writable_spec:
  assumes "world_wf w"
  shows "\<exists>w'. uart_is_writable u w = Some (w_txready w u (w_step w), w') \<and> world_wf w' \<and> later w w'
    \<and> w_reads w' = w_reads w \<and> (\<forall>v. rx_list v w' = rx_list v w @ rx_arriving v w)"
  using serve_irqs_spec [OF assms] by (auto simp: uart_is_writable_def)

text \<open>One poll of a receive ring, return code and out-parameter read as one option.\<close>

definition hal_poll :: "u8 \<Rightarrow> world \<Rightarrow> (u8 option \<times> world) option" where
  "hal_poll uart_id w = do {
     (rc, b, w') \<leftarrow> hal_uart_getc uart_id 0 w;
     Some (if rc = HAL_OK then Some b else None, w') }"

lemma hal_uart_getc_cases:
  assumes "world_wf w"
  obtains (empty) w' where "hal_uart_getc u b0 w = Some (HAL_ERR_EMPTY, b0, w')" "world_wf w'" "later w w'"
      "w_step w' = Suc (w_step w)" "w_reads w' = w_reads w" "rx_list u w @ rx_arriving u w = []" "rx_list u w' = []"
  | (byte) b w' where "hal_uart_getc u b0 w = Some (HAL_OK, b, w')" "world_wf w'" "later w w'"
      "w_step w' = Suc (w_step w)" "w_reads w' = w_reads w" "rx_list u w @ rx_arriving u w = b # rx_list u w'"
proof -
  obtain w1 where w1: "serve_irqs w = Some w1" "world_wf w1" "later w w1" "w_step w1 = Suc (w_step w)"
      "w_reads w1 = w_reads w" "rx_list u w1 = rx_list u w @ rx_arriving u w"
    using serve_irqs_spec [OF assms] by blast
  note wf = rx_of_wf [OF w1(2), of u]
  show ?thesis
  proof (cases "rx_list u w1")
    case Nil
    with w1 have "hal_uart_getc u b0 w = Some (HAL_ERR_EMPTY, b0, set_rx u (rx_of u w1) w1)"
      by (simp add: hal_uart_getc_def uart_getc_nb_empty [OF wf] rx_list_def)
    with Nil w1 show ?thesis
      by (intro empty [of "set_rx u (rx_of u w1) w1"])
        (auto simp: set_rx_wf wf rx_list_def intro: later_trans)
  next
    case (Cons b bs)
    then obtain rb where rb: "uart_getc_nb (rx_of u w1) (Some b0) = Some (HAL_OK, Some b, rb)" "rb_wf rb" "rb_list rb = bs"
      using uart_getc_nb_cons [OF wf] unfolding rx_list_def by blast
    with w1 have "hal_uart_getc u b0 w = Some (HAL_OK, b, set_rx u rb w1)"
      by (simp add: hal_uart_getc_def)
    with Cons w1 rb show ?thesis
      by (intro byte [of b "set_rx u rb w1"])
        (auto simp: set_rx_wf rx_list_def intro: later_trans)
  qed
qed

lemma hal_uart_getc_poll:
  assumes "world_wf w"
  shows "\<exists>r w'. hal_poll u w = Some (r, w') \<and> world_wf w' \<and> later w w'
    \<and> rx_list u w @ rx_arriving u w = (case r of None \<Rightarrow> [] | Some b \<Rightarrow> [b]) @ rx_list u w'
    \<and> (r = None \<longrightarrow> rx_list u w' = [])"
  by (rule hal_uart_getc_cases [OF assms, of u 0]) (auto simp: hal_poll_def)

text \<open>The poll does not depend on what the out-parameter held, and leaves it alone when there is no byte.\<close>

lemma hal_uart_getc_out:
  assumes "world_wf w"
  shows "\<exists>r w'. hal_poll u w = Some (r, w') \<and> hal_uart_getc u b0 w
    = Some (case r of None \<Rightarrow> (HAL_ERR_EMPTY, b0, w') | Some b \<Rightarrow> (HAL_OK, b, w'))"
proof -
  obtain w1 where w1: "serve_irqs w = Some w1" "world_wf w1"
    using serve_irqs_spec [OF assms] by blast
  show ?thesis
    using w1 rb_wf_unat [OF rx_of_wf [OF w1(2), of u]]
    by (auto simp: hal_poll_def hal_uart_getc_def uart_getc_nb_def Let_def mem_simps)
qed

lemma rx_quiet_arriving: "rx_quiet u w \<Longrightarrow> rx_arriving u w = []"
  by (simp add: rx_quiet_def rx_arriving_def)

lemma later_rx_quiet: "later w w' \<Longrightarrow> rx_quiet u w \<Longrightarrow> rx_quiet u w'"
  by (simp add: rx_quiet_def later_def same_hw_def)

text \<open>Flushing empties one ring and leaves the other as its interrupt filled it.\<close>

lemma hal_uart_rx_flush_spec:
  assumes "world_wf w"
  shows "\<exists>w'. hal_uart_rx_flush u w = Some w' \<and> world_wf w' \<and> later w w' \<and> rx_list u w' = []
    \<and> (\<forall>v. (v = HAL_UART0 \<longleftrightarrow> u \<noteq> HAL_UART0) \<longrightarrow> rx_list v w' = rx_list v w @ rx_arriving v w)"
proof -
  obtain w1 where w1: "serve_irqs w = Some w1" "world_wf w1" "later w w1"
      "\<forall>v. rx_list v w1 = rx_list v w @ rx_arriving v w"
    using serve_irqs_spec [OF assms] by blast
  let ?w = "set_rx u (uart_rx_flush (rx_of u w1)) w1"
  have "rx_list v ?w = rx_list v w1" if "v = HAL_UART0 \<longleftrightarrow> u \<noteq> HAL_UART0" for v
    using that by (auto simp: rx_list_def rx_of_def set_rx_def)
  moreover have "world_wf ?w" by (intro set_rx_wf w1 uart_rx_flush_wf rx_of_wf)
  ultimately show ?thesis
    using w1 by (auto simp: hal_uart_rx_flush_def rx_list_def uart_rx_flush_list intro: later_trans)
qed

interpretation uart0: byte_source "hal_poll HAL_UART0" world_wf "rx_list HAL_UART0" "rx_arriving HAL_UART0" "rx_quiet HAL_UART0" later
  by unfold_locales (auto intro: rx_quiet_arriving later_rx_quiet later_trans hal_uart_getc_poll)

interpretation uart1: byte_source "hal_poll HAL_UART1" world_wf "rx_list HAL_UART1" "rx_arriving HAL_UART1" "rx_quiet HAL_UART1" later
  by unfold_locales (auto intro: rx_quiet_arriving later_rx_quiet later_trans hal_uart_getc_poll)

subsection \<open>Transmission\<close>

text \<open>The microsecond timer is free-running: read often enough, it reaches every deadline.\<close>

definition live_clock :: "(nat \<Rightarrow> u64) \<Rightarrow> bool" where
  "live_clock clk \<longleftrightarrow> (\<forall>d n. \<exists>m \<ge> n. d \<le> clk m)"

text \<open>While the firmware transmits or waits, the receive rings can only grow.\<close>

definition rx_grows :: "world \<Rightarrow> world \<Rightarrow> bool" where
  "rx_grows w w' \<longleftrightarrow> (\<forall>u. \<exists>acc. rx_list u w' = rx_list u w @ acc \<and> (rx_quiet u w \<longrightarrow> acc = []))"

definition tx_of :: "u8 \<Rightarrow> world \<Rightarrow> bytes" where
  "tx_of uart_id w = (if uart_id = HAL_UART0 then w_tx0 w else w_tx1 w)"

text \<open>\<open>sent u bs w w'\<close>: exactly the bytes \<open>bs\<close> have been put on the wire of UART \<open>u\<close>.\<close>

definition sent :: "u8 \<Rightarrow> bytes \<Rightarrow> world \<Rightarrow> world \<Rightarrow> bool" where
  "sent u bs w w' \<longleftrightarrow> world_wf w' \<and> same_hw w w' \<and> w_calls w' = w_calls w \<and> rx_grows w w'
     \<and> tx_of u w' = tx_of u w @ bs
     \<and> (\<forall>v. (v = HAL_UART0 \<longleftrightarrow> u \<noteq> HAL_UART0) \<longrightarrow> tx_of v w' = tx_of v w)"

lemma rx_quiet_same_hw: "same_hw w w' \<Longrightarrow> rx_quiet u w \<Longrightarrow> rx_quiet u w'"
  by (simp add: rx_quiet_def same_hw_def)

lemma rx_growsI: "(\<And>u. rx_list u w' = rx_list u w @ rx_arriving u w) \<Longrightarrow> rx_grows w w'"
  by (auto simp: rx_grows_def rx_quiet_arriving)

lemma rx_grows_refl [simp]: "rx_grows w w"
  by (simp add: rx_grows_def)

lemma rx_grows_trans: "same_hw w w1 \<Longrightarrow> rx_grows w w1 \<Longrightarrow> rx_grows w1 w2 \<Longrightarrow> rx_grows w w2"
  unfolding rx_grows_def by (metis append.assoc append_Nil2 rx_quiet_same_hw)

lemma sent_refl [simp]: "world_wf w \<Longrightarrow> sent u [] w w"
  by (simp add: sent_def)

lemma sent_trans: "sent u xs w w1 \<Longrightarrow> sent u ys w1 w2 \<Longrightarrow> sent u (xs @ ys) w w2"
  unfolding sent_def by (auto intro: same_hw_trans rx_grows_trans)

lemma sent_uart_id: "sent (if u = HAL_UART0 then HAL_UART0 else HAL_UART1) = sent u"
  by (intro ext) (auto simp: sent_def tx_of_def)

lemma later_sent: "later w w' \<Longrightarrow> world_wf w' \<Longrightarrow> rx_grows w w' \<Longrightarrow> sent u [] w w'"
  by (auto simp: sent_def later_def tx_of_def)

lemma uart_putc_raw_sent: "world_wf w \<Longrightarrow> sent u [c] w (uart_putc_raw u c w)"
  by (auto simp: sent_def uart_putc_raw_def tx_of_def world_wf_def same_hw_def rx_grows_def
      rx_list_def rx_of_def)

lemma uart_wait_writable_returns_at:
  assumes "world_wf w" "w_reads w \<le> m" "d \<le> w_clock w m"
  shows "\<exists>r w'. uart_wait_writable u d w = Some (r, w') \<and> sent u [] w w'"
proof -
  from assms show ?thesis
  proof (induction "m - w_reads w" arbitrary: w rule: less_induct)
    case less
    obtain w1 where w1: "uart_is_writable u w = Some (w_txready w u (w_step w), w1)" "world_wf w1"
        "later w w1" "w_reads w1 = w_reads w" "rx_grows w w1"
      using uart_is_writable_spec [OF less.prems(1)] by (meson rx_growsI)
    obtain w2 where w2: "hal_time_us w1 = Some (w_clock w1 (w_reads w1), w2)" "world_wf w2"
        "later w1 w2" "w_reads w2 = Suc (w_reads w1)" "rx_grows w1 w2"
      using hal_time_us_spec [OF w1(2)] by (meson rx_growsI)
    have s1: "sent u [] w w1" by (rule later_sent [OF w1(3,2,5)])
    have s2: "sent u [] w w2"
      using sent_trans [OF s1 later_sent [OF w2(3,2,5)]] by simp
    show ?case
    proof (cases "w_txready w u (w_step w)")
      case True
      with w1 s1 show ?thesis by (subst uart_wait_writable.simps) auto
    next
      case False
      show ?thesis
      proof (cases "d \<le> w_clock w1 (w_reads w1)")
        case True
        with False w1 w2 s2 show ?thesis by (subst uart_wait_writable.simps) auto
      next
        case late: False
        have clk: "w_clock w1 = w_clock w" "w_clock w2 = w_clock w"
          using w1(3) w2(3) by (simp_all add: later_def same_hw_def)
        with late less.prems(3) have "m \<noteq> w_reads w" using w1(4) by auto
        with less.prems(2) w1(4) w2(4) have "m - w_reads w2 < m - w_reads w" "w_reads w2 \<le> m" by auto
        from less.hyps [OF this(1) w2(2) this(2)] less.prems(3) clk obtain r w' where
          "uart_wait_writable u d w2 = Some (r, w')" "sent u [] w2 w'" by auto
        with sent_trans [OF s2, of "[]" w'] False late w1 w2 show ?thesis
          by (subst uart_wait_writable.simps) simp
      qed
    qed
  qed
qed

lemma uart_wait_writable_returns:
  assumes "world_wf w" "live_clock (w_clock w)"
  shows "\<exists>r w'. uart_wait_writable u d w = Some (r, w') \<and> sent u [] w w'"
  using assms uart_wait_writable_returns_at unfolding live_clock_def by blast

lemma sent_clock: "sent u bs w w' \<Longrightarrow> w_clock w' = w_clock w"
  by (simp add: sent_def same_hw_def)

lemma sent_wf: "sent u bs w w' \<Longrightarrow> world_wf w'"
  by (simp add: sent_def)

lemma uart_write_loop_spec:
  assumes "world_wf w" "live_clock (w_clock w)" "len \<le> length buf" "i \<le> len"
  shows "\<exists>rc k w'. uart_write_loop u d buf len i w = Some (rc, w') \<and> i \<le> k \<and> k \<le> len
    \<and> sent u (take (k - i) (drop i buf)) w w'
    \<and> (rc = HAL_OK \<and> k = len \<or> rc = HAL_ERR_TIMEOUT \<and> k < len)"
  using assms
proof (induction "len - i" arbitrary: i w)
  case 0
  then show ?case by (subst uart_write_loop.simps) (auto intro!: exI [of _ i])
next
  case (Suc n)
  then have i: "i < len" "i < length buf" by simp_all
  obtain r w1 where w1: "uart_wait_writable u d w = Some (r, w1)" "sent u [] w w1"
    using uart_wait_writable_returns [OF Suc.prems(1,2)] by blast
  show ?case
  proof (cases r)
    case False
    with w1 i show ?thesis
      by (subst uart_write_loop.simps) (auto intro!: exI [of _ i])
  next
    case True
    let ?w2 = "uart_putc_raw u (buf ! i) w1"
    have s2: "sent u [buf ! i] w ?w2"
      using sent_trans [OF w1(2) uart_putc_raw_sent [OF sent_wf [OF w1(2)]]] by simp
    have "n = len - Suc i" "live_clock (w_clock ?w2)"
      using Suc.hyps(2) Suc.prems(2) sent_clock [OF s2] by simp_all
    from Suc.hyps(1) [OF this(1) sent_wf [OF s2] this(2)] Suc.prems(3) i obtain rc k w' where IH:
      "uart_write_loop u d buf len (Suc i) ?w2 = Some (rc, w')" "Suc i \<le> k" "k \<le> len"
      "sent u (take (k - Suc i) (drop (Suc i) buf)) ?w2 w'"
      "rc = HAL_OK \<and> k = len \<or> rc = HAL_ERR_TIMEOUT \<and> k < len" by auto
    have "[buf ! i] @ take (k - Suc i) (drop (Suc i) buf) = take (k - i) (drop i buf)"
      using i IH(2) by (simp add: Cons_nth_drop_Suc [symmetric] take_Cons' )
    with sent_trans [OF s2 IH(4)] IH True w1(1) i show ?thesis
      by (subst uart_write_loop.simps) (auto simp: mem_simps intro!: exI [of _ k])
  qed
qed

text \<open>
  \<open>uart_write\<close> returns, and what it put on the wire is a prefix of the buffer: all of it exactly
  when it reports \<open>HAL_OK\<close>.
\<close>

lemma hal_uart_write_spec:
  assumes "world_wf w" "live_clock (w_clock w)" "len \<le> length buf"
  shows "\<exists>rc k w'. hal_uart_write u (Some buf) len t w = Some (rc, w') \<and> k \<le> len
    \<and> sent u (take k buf) w w' \<and> (rc = HAL_OK \<and> k = len \<or> rc = HAL_ERR_TIMEOUT \<and> k < len)"
proof -
  let ?v = "if u = HAL_UART0 then HAL_UART0 else HAL_UART1"
  obtain w1 where w1: "hal_time_us w = Some (w_clock w (w_reads w), w1)" "world_wf w1" "later w w1" "rx_grows w w1"
    using hal_time_us_spec [OF assms(1)] by (meson rx_growsI)
  have live: "live_clock (w_clock w1)" using assms(2) w1(3) by (simp add: later_def same_hw_def)
  obtain rc k w' where "uart_write_loop ?v (w_clock w (w_reads w) + ucast t) buf len 0 w1 = Some (rc, w')"
      "k \<le> len" "sent ?v (take k buf) w1 w'" "rc = HAL_OK \<and> k = len \<or> rc = HAL_ERR_TIMEOUT \<and> k < len"
    using uart_write_loop_spec [OF w1(2) live assms(3), where i = 0 and u = ?v
        and d = "w_clock w (w_reads w) + ucast t"] by auto
  moreover from this(3) have "sent u (take k buf) w w'"
    using sent_trans [OF later_sent [OF w1(3,2,4)], of u "take k buf" w'] sent_uart_id [of u] by simp
  ultimately show ?thesis
    using w1(1) by (auto simp: hal_uart_write_def uart_write_def Let_def)
qed

subsection \<open>A machine to evaluate on\<close>

text \<open>A world with given bytes in the two rings, an idle line, a ready transmitter and a running clock.\<close>

definition sim_world :: "bytes \<Rightarrow> bytes \<Rightarrow> world" where
  "sim_world in0 in1 =
     \<lparr>w_step = 0, w_reads = 0, w_clock = of_nat, w_txready = (\<lambda>_ _. True), w_fifo = (\<lambda>_ _. []),
      s_rx0 = rb_load in0, s_rx1 = rb_load in1, w_tx0 = [], w_tx1 = [], w_calls = []\<rparr>"

lemma sim_world_wf [simp]: "length in0 \<le> 255 \<Longrightarrow> length in1 \<le> 255 \<Longrightarrow> world_wf (sim_world in0 in1)"
  by (simp add: world_wf_def sim_world_def rb_load_list)

lemma sim_world_rx [simp]:
  "length in0 \<le> 255 \<Longrightarrow> rx_list HAL_UART0 (sim_world in0 in1) = in0"
  "length in1 \<le> 255 \<Longrightarrow> rx_list HAL_UART1 (sim_world in0 in1) = in1"
  by (simp_all add: rx_list_def rx_of_def sim_world_def rb_load_list)

lemma sim_world_quiet [simp]: "rx_quiet u (sim_world in0 in1)"
  by (simp add: rx_quiet_def sim_world_def)

lemma of_nat_live: "live_clock of_nat"
  unfolding live_clock_def
proof (intro allI)
  fix d :: u64 and n
  have "(of_nat (unat d + 2 ^ 64 * n) :: u64) = of_nat (unat d)"
    by (simp only: word_of_nat_eq_iff take_bit_eq_mod) simp
  then have "(of_nat (unat d + 2 ^ 64 * n) :: u64) = d" by simp
  moreover have "n \<le> unat d + 2 ^ 64 * n" by simp
  ultimately show "\<exists>m\<ge>n. d \<le> of_nat m" by (metis order_refl)
qed

lemma sim_world_live [simp]: "live_clock (w_clock (sim_world in0 in1))"
  by (simp add: sim_world_def of_nat_live)

end
