(* ===== verification/I2c.thy ===== *)
theory I2c
  imports Hal
begin

text \<open>
  The I2C driver \<open>hal/rp2040_i2c.c\<close> and its facade in \<open>hal/rp2040_hal.c\<close>. The pico-sdk calls are
  the fields of \<open>i2c_sdk\<close>, a parameter of every definition: \<open>'d\<close> is the state of the bus and of
  the devices on it, a write returns the SDK's result code, a read also the bytes it stored from
  the start of the caller's buffer. The values of the two \<open>PICO_ERROR_*\<close> codes the driver tests
  are parameters too.
\<close>

definition HAL_I2C1 :: u8 where "HAL_I2C1 = 1"

record 'd i2c_sdk =
  i2c_init :: "u32 \<Rightarrow> 'd \<Rightarrow> u32 \<times> 'd"
  gpio_set_function_i2c :: "u32 \<Rightarrow> 'd \<Rightarrow> 'd"
  gpio_pull_up :: "u32 \<Rightarrow> 'd \<Rightarrow> 'd"
  i2c_write_timeout_us :: "u8 \<Rightarrow> bytes \<Rightarrow> bool \<Rightarrow> u32 \<Rightarrow> 'd \<Rightarrow> int \<times> 'd"
  i2c_read_timeout_us :: "u8 \<Rightarrow> nat \<Rightarrow> bool \<Rightarrow> u32 \<Rightarrow> 'd \<Rightarrow> (int \<times> bytes) \<times> 'd"
  PICO_ERROR_GENERIC :: int
  PICO_ERROR_TIMEOUT :: int

definition i2c1_init_hw :: "'d i2c_sdk \<Rightarrow> 'd \<Rightarrow> int \<times> 'd" where
  "i2c1_init_hw sdk d =
     (let (actual, d1) = i2c_init sdk 100000 d in
      if actual = 0 then (HAL_ERR_BUS, d1)
      else (HAL_OK,
        gpio_pull_up sdk 7 (gpio_pull_up sdk 6
          (gpio_set_function_i2c sdk 7 (gpio_set_function_i2c sdk 6 d1)))))"

text \<open>The SDK stores at most \<open>len\<close> bytes; the buffer must have room for \<open>len\<close>.\<close>

definition store_bytes :: "bytes \<Rightarrow> nat \<Rightarrow> bytes \<Rightarrow> bytes option" where
  "store_bytes buf len data =
     (if len \<le> length buf then Some (take len data @ drop (length (take len data)) buf) else None)"

definition i2c1_read_reg ::
  "'d i2c_sdk \<Rightarrow> u8 \<Rightarrow> u8 \<Rightarrow> bytes option \<Rightarrow> nat \<Rightarrow> u32 \<Rightarrow> 'd \<Rightarrow> (int \<times> bytes option \<times> 'd) option" where
  "i2c1_read_reg sdk addr reg buf len timeout_us d =
     (case buf of
        None \<Rightarrow> Some (HAL_ERR_INVAL, None, d)
      | Some b \<Rightarrow>
          if len = 0 then Some (HAL_ERR_INVAL, Some b, d)
          else
            let (rc, d1) = i2c_write_timeout_us sdk addr [reg] True timeout_us d in
            if rc = PICO_ERROR_GENERIC sdk \<or> rc = PICO_ERROR_TIMEOUT sdk
            then Some (if rc = PICO_ERROR_TIMEOUT sdk then HAL_ERR_TIMEOUT else HAL_ERR_BUS, Some b, d1)
            else
              let ((rc, data), d2) = i2c_read_timeout_us sdk addr len False timeout_us d1 in do {
                b' \<leftarrow> store_bytes b len data;
                if rc = PICO_ERROR_GENERIC sdk \<or> rc = PICO_ERROR_TIMEOUT sdk
                then Some (if rc = PICO_ERROR_TIMEOUT sdk then HAL_ERR_TIMEOUT else HAL_ERR_BUS, Some b', d2)
                else if (word_of_int rc :: u32) \<noteq> of_nat len then Some (HAL_ERR_BUS, Some b', d2)
                else Some (HAL_OK, Some b', d2) })"

definition i2c1_write ::
  "'d i2c_sdk \<Rightarrow> u8 \<Rightarrow> bytes option \<Rightarrow> nat \<Rightarrow> u32 \<Rightarrow> 'd \<Rightarrow> (int \<times> 'd) option" where
  "i2c1_write sdk addr buf len timeout_us d =
     (case buf of
        None \<Rightarrow> Some (HAL_ERR_INVAL, d)
      | Some b \<Rightarrow>
          if len = 0 then Some (HAL_ERR_INVAL, d)
          else if length b < len then None
          else
            let (rc, d1) = i2c_write_timeout_us sdk addr (take len b) False timeout_us d in
            if rc = PICO_ERROR_GENERIC sdk \<or> rc = PICO_ERROR_TIMEOUT sdk
            then Some (if rc = PICO_ERROR_TIMEOUT sdk then HAL_ERR_TIMEOUT else HAL_ERR_BUS, d1)
            else Some (HAL_OK, d1))"

definition hal_i2c_read_reg ::
  "'d i2c_sdk \<Rightarrow> u8 \<Rightarrow> u8 \<Rightarrow> u8 \<Rightarrow> bytes option \<Rightarrow> nat \<Rightarrow> u32 \<Rightarrow> 'd \<Rightarrow> (int \<times> bytes option \<times> 'd) option" where
  "hal_i2c_read_reg sdk i2c_id addr reg buf len timeout_us d =
     (if i2c_id \<noteq> HAL_I2C1 then Some (HAL_ERR_INVAL, buf, d)
      else i2c1_read_reg sdk addr reg buf len timeout_us d)"

definition hal_i2c_write ::
  "'d i2c_sdk \<Rightarrow> u8 \<Rightarrow> u8 \<Rightarrow> bytes option \<Rightarrow> nat \<Rightarrow> u32 \<Rightarrow> 'd \<Rightarrow> (int \<times> 'd) option" where
  "hal_i2c_write sdk i2c_id addr buf len timeout_us d =
     (if i2c_id \<noteq> HAL_I2C1 then Some (HAL_ERR_INVAL, d)
      else i2c1_write sdk addr buf len timeout_us d)"

definition hal_i2c1_init :: "'d i2c_sdk \<Rightarrow> 'd \<Rightarrow> int \<times> 'd" where
  "hal_i2c1_init sdk d = i2c1_init_hw sdk d"

text \<open>
  A register read into a buffer with room for it is always defined; the buffer keeps its length,
  and the return code is one of the four the API documents.
\<close>

lemma hal_i2c_read_reg_total:
  assumes "len \<le> length b"
  obtains rc b' d' where "hal_i2c_read_reg sdk i2c_id addr reg (Some b) len t d = Some (rc, Some b', d')"
    "length b' = length b" "rc \<in> {HAL_OK, HAL_ERR_TIMEOUT, HAL_ERR_BUS, HAL_ERR_INVAL}"
proof -
  have store: "\<exists>b'. store_bytes b len data = Some b' \<and> length b' = length b" for data
    using assms by (simp add: store_bytes_def)
  have "\<exists>rc b' d'. hal_i2c_read_reg sdk i2c_id addr reg (Some b) len t d = Some (rc, Some b', d')
      \<and> length b' = length b \<and> rc \<in> {HAL_OK, HAL_ERR_TIMEOUT, HAL_ERR_BUS, HAL_ERR_INVAL}"
  proof (cases "i2c_write_timeout_us sdk addr [reg] True t d")
    case (Pair rc d1)
    obtain rc2 data d2 where "i2c_read_timeout_us sdk addr len False t d1 = ((rc2, data), d2)"
      by (metis prod.exhaust)
    with Pair store [of data] show ?thesis
      by (auto simp: hal_i2c_read_reg_def i2c1_read_reg_def Let_def)
  qed
  then show ?thesis using that by blast
qed

end
