(* ===== verification/LoraFormat.thy ===== *)
theory LoraFormat
  imports Prelude
begin

text \<open>
  The string helpers of \<open>Components/LoRaDriver/LoRaDriver.cpp\<close>: decimal conversion, the copy loops
  that assemble AT commands in a local array, and the command strings themselves. A local array that
  is filled from its start is the list of the elements stored so far, together with its size: storing
  past the size, or reading an element that was never stored, is undefined.
\<close>

definition LORA_AT_BUF_SIZE :: nat where
  "LORA_AT_BUF_SIZE = 128"

text \<open>\<open>arr[idx++] = c\<close>, where \<open>idx\<close> is the number of elements stored.\<close>

definition push :: "nat \<Rightarrow> bytes \<Rightarrow> u8 \<Rightarrow> bytes option" where
  "push cap arr c = (if length arr < cap then Some (arr @ [c]) else None)"

subsection \<open>\<open>u32toa\<close>\<close>

function toa_digits :: "u32 \<Rightarrow> bytes \<Rightarrow> bytes option" where
  "toa_digits val tmp =
     (if val > 0 \<and> length tmp < 11 - 1 then do {
        tmp' \<leftarrow> push 11 tmp (ucast (48 + val mod 10));
        toa_digits (val div 10) tmp' }
      else Some tmp)"
  by pat_completeness auto
termination
  by (relation "measure (\<lambda>(val, tmp). unat val)") (auto simp: unat_div word_less_nat_alt)

fun toa_reverse :: "nat \<Rightarrow> bytes \<Rightarrow> nat \<Rightarrow> bytes \<Rightarrow> bytes option" where
  "toa_reverse buf_len tmp j out =
     (case j of
        0 \<Rightarrow> Some out
      | Suc k \<Rightarrow>
          if length out < buf_len - 1 then do {
            c \<leftarrow> rd tmp k;
            out' \<leftarrow> push buf_len out c;
            toa_reverse buf_len tmp k out' }
          else Some out)"

declare toa_digits.simps [simp del] toa_reverse.simps [simp del]

text \<open>The contents of \<open>buf\<close>; its size is \<open>buf_len\<close>, as in every call.\<close>

definition u32toa :: "u32 \<Rightarrow> nat \<Rightarrow> bytes option" where
  "u32toa val buf_len =
     (if buf_len < 2 then push buf_len [] 0
      else if val = 0 then do { b \<leftarrow> push buf_len [] 48; push buf_len b 0 }
      else do {
        tmp \<leftarrow> toa_digits val [];
        out \<leftarrow> toa_reverse buf_len tmp (length tmp) [];
        push buf_len out 0 })"

subsection \<open>Copy loops\<close>

text \<open>\<open>while (*s && idx < limit) { arr[idx++] = *s++; }\<close>\<close>

fun copy_str :: "nat \<Rightarrow> nat \<Rightarrow> bytes \<Rightarrow> bytes \<Rightarrow> bytes option" where
  "copy_str cap limit [] arr = None"
| "copy_str cap limit (c # s) arr =
     (if c \<noteq> 0 \<and> length arr < limit then do { arr' \<leftarrow> push cap arr c; copy_str cap limit s arr' }
      else Some arr)"

text \<open>\<open>for (d = 0; d < len && idx < limit; d++) { arr[idx++] = data[d]; }\<close>\<close>

function copy_data :: "nat \<Rightarrow> nat \<Rightarrow> bytes \<Rightarrow> nat \<Rightarrow> nat \<Rightarrow> bytes \<Rightarrow> bytes option" where
  "copy_data cap limit data len d arr =
     (if d < len \<and> length arr < limit then do {
        c \<leftarrow> rd data d;
        arr' \<leftarrow> push cap arr c;
        copy_data cap limit data len (Suc d) arr' }
      else Some arr)"
  by pat_completeness auto
termination
  by (relation "measure (\<lambda>(cap, limit, data, len, d, arr). len - d)") auto

declare copy_data.simps [simp del]

subsection \<open>Command strings\<close>

text \<open>The command assembled in \<open>initModule\<close>, NUL included.\<close>

definition init_band_cmd :: "bytes option" where
  "init_band_cmd = do {
     freq_str \<leftarrow> u32toa 868000000 12;
     cmd \<leftarrow> copy_str LORA_AT_BUF_SIZE (LORA_AT_BUF_SIZE - 2) (cstr_lit ''AT+BAND='') [];
     cmd \<leftarrow> copy_str LORA_AT_BUF_SIZE (LORA_AT_BUF_SIZE - 1) freq_str cmd;
     push LORA_AT_BUF_SIZE cmd 0 }"

text \<open>The frame assembled in \<open>dataIn_handler\<close>, NUL included.\<close>

definition send_cmd :: "bytes \<Rightarrow> bytes option" where
  "send_cmd data =
     (let payload_len = length data in do {
        cmd \<leftarrow> copy_str LORA_AT_BUF_SIZE (LORA_AT_BUF_SIZE - 1) (cstr_lit ''AT+SEND=0,'') [];
        len_str \<leftarrow> u32toa (of_nat payload_len) 6;
        cmd \<leftarrow> copy_str LORA_AT_BUF_SIZE (LORA_AT_BUF_SIZE - 1) len_str cmd;
        cmd \<leftarrow> (if length cmd < LORA_AT_BUF_SIZE - 1 then push LORA_AT_BUF_SIZE cmd (ch CHR '','') else Some cmd);
        cmd \<leftarrow> copy_data LORA_AT_BUF_SIZE (LORA_AT_BUF_SIZE - 1) data payload_len 0 cmd;
        push LORA_AT_BUF_SIZE cmd 0 })"

definition freq_cmd :: "u32 \<Rightarrow> bytes option" where
  "freq_cmd freqKHz = do {
     cmd \<leftarrow> copy_str LORA_AT_BUF_SIZE (LORA_AT_BUF_SIZE - 1) (cstr_lit ''AT+BAND='') [];
     val \<leftarrow> u32toa (freqKHz * 1000) 12;
     cmd \<leftarrow> copy_str LORA_AT_BUF_SIZE (LORA_AT_BUF_SIZE - 1) val cmd;
     push LORA_AT_BUF_SIZE cmd 0 }"

definition sf_cmd :: "u8 \<Rightarrow> bytes option" where
  "sf_cmd sf = do {
     cmd \<leftarrow> copy_str LORA_AT_BUF_SIZE (LORA_AT_BUF_SIZE - 1) (cstr_lit ''AT+PARAMETER='') [];
     cmd \<leftarrow> push LORA_AT_BUF_SIZE cmd (word_of_int (48 + uint sf));
     cmd \<leftarrow> copy_str LORA_AT_BUF_SIZE (LORA_AT_BUF_SIZE - 1) (cstr_lit '',7,1,12'') cmd;
     push LORA_AT_BUF_SIZE cmd 0 }"

definition power_cmd :: "u8 \<Rightarrow> bytes option" where
  "power_cmd powerDbm = do {
     cmd \<leftarrow> copy_str LORA_AT_BUF_SIZE (LORA_AT_BUF_SIZE - 1) (cstr_lit ''AT+CRFOP='') [];
     val \<leftarrow> u32toa (ucast powerDbm) 4;
     cmd \<leftarrow> copy_str LORA_AT_BUF_SIZE (LORA_AT_BUF_SIZE - 1) val cmd;
     push LORA_AT_BUF_SIZE cmd 0 }"

subsection \<open>Decimal text\<close>

function nat_text :: "nat \<Rightarrow> bytes" where
  "nat_text n = (if n < 10 then [of_nat (48 + n)] else nat_text (n div 10) @ [of_nat (48 + n mod 10)])"
  by pat_completeness auto
termination
  by (relation "measure id") auto

declare nat_text.simps [simp del]

lemma digit_of_nat: "k < 10 \<Longrightarrow> is_digit (of_nat (48 + k)) \<and> digit_val (of_nat (48 + k)) = int k"
proof -
  assume "k < 10"
  moreover have "\<forall>k \<in> set [0..<10]. is_digit (of_nat (48 + k)) \<and> digit_val (of_nat (48 + k)) = int k"
    by (simp add: upt_conv_Cons is_digit_def digit_val_def)
  ultimately show ?thesis by simp
qed

lemma dec_snoc: "dec (xs @ [c]) = dec xs * 10 + digit_val c"
  by (simp add: dec_def dec_from_append)

lemma nat_text_digits: "digits (nat_text n) \<and> dec (nat_text n) = int n"
proof (induction n rule: nat_text.induct)
  case (1 n)
  show ?case
  proof (cases "n < 10")
    case True
    then show ?thesis using digit_of_nat [of n] by (subst (1 2) nat_text.simps) (simp add: dec_def)
  next
    case False
    have "int (n div 10) * 10 + int (n mod 10) = int n"
      by (metis div_mult_mod_eq of_nat_add of_nat_mult of_nat_numeral)
    with False 1 digit_of_nat [of "n mod 10"] show ?thesis
      by (subst (1 2) nat_text.simps) (simp add: dec_snoc)
  qed
qed

lemma nat_text_length: "0 < k \<Longrightarrow> n < 10 ^ k \<Longrightarrow> 1 \<le> length (nat_text n) \<and> length (nat_text n) \<le> k"
proof (induction n arbitrary: k rule: nat_text.induct)
  case (1 n)
  show ?case
  proof (cases "n < 10")
    case True
    then show ?thesis using 1(2) by (subst (1 2) nat_text.simps) simp
  next
    case False
    then obtain j where j: "k = Suc j" "0 < j" using 1(2,3) by (cases k; cases "k - 1") auto
    then have "n div 10 < 10 ^ j" using 1(3) by (simp add: less_mult_imp_div_less)
    with 1(1) [OF False j(2)] False j show ?thesis by (subst (1 2) nat_text.simps) simp
  qed
qed

lemma nat_text_ne [simp]: "nat_text n \<noteq> []"
  by (subst nat_text.simps) simp

lemma nat_text_lead: "0 < n \<Longrightarrow> hd (nat_text n) \<noteq> 48"
proof (induction n rule: nat_text.induct)
  case (1 n)
  show ?case
  proof (cases "n < 10")
    case True
    have "(of_nat (48 + n) :: u8) \<noteq> of_nat 48"
      using True 1(2) digit_of_nat [of n] digit_of_nat [of 0] by auto
    with True show ?thesis by (subst nat_text.simps) simp
  next
    case False
    with 1 show ?thesis by (subst nat_text.simps) (simp add: hd_append)
  qed
qed

lemma digit_char: "ucast (48 + val mod 10 :: u32) = (of_nat (48 + unat val mod 10) :: u8)"
proof -
  have "\<forall>m \<in> set [0..<10]. ucast (48 + of_nat m :: u32) = (of_nat (48 + m) :: u8)"
    by (simp add: upt_conv_Cons)
  note all = this
  have "unat (val mod 10) = unat val mod 10" by (simp add: unat_mod)
  moreover have "of_nat (unat (val mod 10)) = val mod 10" by simp
  ultimately have "val mod 10 = of_nat (unat val mod 10)" by (simp only:)
  with all show ?thesis by simp
qed

lemma toa_digits_text:
  assumes "0 < val" "unat val < 10 ^ k" "length tmp + k \<le> 10"
  shows "toa_digits val tmp = Some (tmp @ rev (nat_text (unat val)))"
  using assms
proof (induction k arbitrary: val tmp)
  case 0
  then show ?case by (simp add: word_gt_0 unat_eq_0)
next
  case (Suc k)
  let ?c = "of_nat (48 + unat val mod 10) :: u8"
  have step: "toa_digits val tmp = toa_digits (val div 10) (tmp @ [?c])"
    using Suc.prems(1,3) by (subst toa_digits.simps) (simp add: push_def digit_char)
  have d: "unat (val div 10) = unat val div 10" by (simp add: unat_div)
  show ?case
  proof (cases "unat val < 10")
    case True
    then have "val div 10 = 0" using d by (simp add: unat_eq_0 [symmetric])
    then have "toa_digits (val div 10) (tmp @ [?c]) = Some (tmp @ [?c])" by (subst toa_digits.simps) simp
    with step True show ?thesis by (subst nat_text.simps) simp
  next
    case False
    then have "0 < val div 10" using d by (simp add: word_gt_0 unat_eq_0 [symmetric])
    moreover have "unat (val div 10) < 10 ^ k" using Suc.prems(2) d by (simp add: less_mult_imp_div_less)
    ultimately have "toa_digits (val div 10) (tmp @ [?c]) = Some ((tmp @ [?c]) @ rev (nat_text (unat val div 10)))"
      using Suc.IH [of "val div 10" "tmp @ [?c]"] Suc.prems(3) d by simp
    with step False show ?thesis by (subst nat_text.simps) simp
  qed
qed

lemma toa_reverse_all:
  assumes "length out + j < buf_len" "j \<le> length tmp"
  shows "toa_reverse buf_len tmp j out = Some (out @ rev (take j tmp))"
  using assms
proof (induction j arbitrary: out)
  case 0
  then show ?case by (subst toa_reverse.simps) simp
next
  case (Suc k)
  then show ?case
    by (subst toa_reverse.simps) (simp add: push_def mem_simps take_Suc_conv_app_nth)
qed

text \<open>With a buffer large enough for the digits and the NUL, the result is the decimal text.\<close>

lemma u32toa_text:
  assumes "length (nat_text (unat val)) < buf_len"
  shows "u32toa val buf_len = Some (nat_text (unat val) @ [0])"
proof -
  have "0 < length (nat_text (unat val))" by simp
  with assms have len: "\<not> buf_len < 2" by linarith
  show ?thesis
  proof (cases "val = 0")
    case True
    moreover have "nat_text 0 = [48]" by (subst nat_text.simps) simp
    ultimately show ?thesis using len by (simp add: u32toa_def push_def)
  next
    case False
    have "unat val < 10 ^ 10" using unsigned_less [of val, where ?'a = nat] by simp
    then have "toa_digits val [] = Some (rev (nat_text (unat val)))"
      using toa_digits_text [of val 10 "[]"] False by (simp add: word_gt_0)
    with len False assms show ?thesis
      by (simp add: u32toa_def toa_reverse_all push_def)
  qed
qed

lemma copy_str_all:
  assumes "0 \<notin> set s" "length arr + length s \<le> limit" "limit \<le> cap"
  shows "copy_str cap limit (s @ 0 # r) arr = Some (arr @ s)"
  using assms by (induction s arbitrary: arr) (auto simp: push_def)

lemma copy_data_all:
  assumes "length arr + (length data - d) \<le> limit" "limit \<le> cap" "d \<le> length data"
  shows "copy_data cap limit data (length data) d arr = Some (arr @ drop d data)"
  using assms
proof (induction "length data - d" arbitrary: d arr)
  case 0
  then show ?case by (subst copy_data.simps) simp
next
  case (Suc k)
  then have "copy_data cap limit data (length data) (Suc d) (arr @ [data ! d]) = Some ((arr @ [data ! d]) @ drop (Suc d) data)"
    by (intro Suc.hyps(1)) auto
  with Suc show ?case
    by (subst copy_data.simps) (auto simp: push_def mem_simps Cons_nth_drop_Suc)
qed

subsection \<open>The assembled commands\<close>

lemma nat_text_no_nul [simp]: "0 \<notin> set (nat_text n)"
  using nat_text_digits [of n] by simp

lemma nat_text_le: "n < 10 ^ k \<Longrightarrow> 0 < k \<Longrightarrow> length (nat_text n) \<le> k"
  using nat_text_length [of k n] by simp

lemma nat_text_u32: "length (nat_text (unat (v :: u32))) \<le> 10"
  using unsigned_less [of v, where ?'a = nat] by (intro nat_text_le) simp_all

lemma copy_lit:
  "0 \<notin> set (ascii s) \<Longrightarrow> length arr + length s \<le> limit \<Longrightarrow> limit \<le> cap \<Longrightarrow>
    copy_str cap limit (cstr_lit s) arr = Some (arr @ ascii s)"
  using copy_str_all [of "ascii s" arr limit cap "[]"] by (simp add: cstr_lit_def)

lemma copy_num:
  "length arr + length (nat_text n) \<le> limit \<Longrightarrow> limit \<le> cap \<Longrightarrow>
    copy_str cap limit (nat_text n @ [0]) arr = Some (arr @ nat_text n)"
  using copy_str_all [of "nat_text n" arr limit cap "[]"] by simp

lemma init_band_cmd_text: "init_band_cmd = Some (ascii ''AT+BAND=868000000'' @ [0])"
  by code_simp

lemma send_cmd_text:
  assumes "length data \<le> 80"
  shows "send_cmd data = Some (ascii ''AT+SEND=0,'' @ nat_text (length data) @ 44 # data @ [0])"
proof -
  have u: "unat (of_nat (length data) :: u32) = length data" using assms by (simp add: unat_of_nat)
  have n: "length (nat_text (length data)) \<le> 2" using assms by (intro nat_text_le) simp_all
  have pre: "copy_str 128 127 (cstr_lit ''AT+SEND=0,'') [] = Some (ascii ''AT+SEND=0,'')"
    using copy_lit [of "''AT+SEND=0,''" "[]" 127 128] by simp
  have num: "copy_str 128 127 (nat_text (length data) @ [0]) (ascii ''AT+SEND=0,'') = Some (ascii ''AT+SEND=0,'' @ nat_text (length data))"
    using n by (intro copy_num) simp_all
  have toa: "u32toa (of_nat (length data)) 6 = Some (nat_text (length data) @ [0])"
    using u32toa_text [of "of_nat (length data)" 6] u n by simp
  have body: "copy_data 128 127 data (length data) 0 (ascii ''AT+SEND=0,'' @ nat_text (length data) @ [44])
      = Some (ascii ''AT+SEND=0,'' @ nat_text (length data) @ 44 # data)"
    using copy_data_all [of "ascii ''AT+SEND=0,'' @ nat_text (length data) @ [44]" data 0 127 128] n assms by simp
  show ?thesis
    using n assms pre num toa body by (simp add: send_cmd_def LORA_AT_BUF_SIZE_def push_def Let_def)
qed

lemma freq_cmd_text: "freq_cmd f = Some (ascii ''AT+BAND='' @ nat_text (unat (f * 1000)) @ [0])"
proof -
  note n = nat_text_u32 [of "f * 1000"]
  have "copy_str 128 127 (nat_text (unat (f * 1000)) @ [0]) (ascii ''AT+BAND='') = Some (ascii ''AT+BAND='' @ nat_text (unat (f * 1000)))"
    using n by (intro copy_num) simp_all
  moreover have "copy_str 128 127 (cstr_lit ''AT+BAND='') [] = Some (ascii ''AT+BAND='')"
    using copy_lit [of "''AT+BAND=''" "[]" 127 128] by simp
  moreover have "u32toa (f * 1000) 12 = Some (nat_text (unat (f * 1000)) @ [0])"
    using n by (intro u32toa_text) simp
  ultimately show ?thesis using n by (simp add: freq_cmd_def LORA_AT_BUF_SIZE_def push_def)
qed

lemma sf_cmd_text: "sf_cmd sf = Some (ascii ''AT+PARAMETER='' @ (48 + sf) # ascii '',7,1,12'' @ [0])"
proof -
  have c: "word_of_int (48 + uint sf) = 48 + sf" by simp
  have "copy_str 128 127 (cstr_lit ''AT+PARAMETER='') [] = Some (ascii ''AT+PARAMETER='')"
    using copy_lit [of "''AT+PARAMETER=''" "[]" 127 128] by simp
  moreover have "copy_str 128 127 (cstr_lit '',7,1,12'') (ascii ''AT+PARAMETER='' @ [48 + sf])
      = Some (ascii ''AT+PARAMETER='' @ [48 + sf] @ ascii '',7,1,12'')"
    using copy_lit [of "'',7,1,12''" "ascii ''AT+PARAMETER='' @ [48 + sf]" 127 128] by simp
  ultimately show ?thesis by (simp add: sf_cmd_def LORA_AT_BUF_SIZE_def push_def c)
qed

lemma power_cmd_text:
  assumes "p \<le> 22"
  shows "power_cmd p = Some (ascii ''AT+CRFOP='' @ nat_text (unat p) @ [0])"
proof -
  have u: "unat (ucast p :: u32) = unat p"
    using unat_u8_less [of p] by (simp add: unsigned_ucast_eq take_bit_eq_mod)
  have "unat p < 10 ^ 2" using assms by (simp add: word_le_nat_alt)
  then have n: "length (nat_text (unat p)) \<le> 2" by (intro nat_text_le) simp_all
  have "copy_str 128 127 (nat_text (unat p) @ [0]) (ascii ''AT+CRFOP='') = Some (ascii ''AT+CRFOP='' @ nat_text (unat p))"
    using n by (intro copy_num) simp_all
  moreover have "copy_str 128 127 (cstr_lit ''AT+CRFOP='') [] = Some (ascii ''AT+CRFOP='')"
    using copy_lit [of "''AT+CRFOP=''" "[]" 127 128] by simp
  moreover have "u32toa (ucast p) 4 = Some (nat_text (unat p) @ [0])"
    using u32toa_text [of "ucast p" 4] n by (simp add: u)
  ultimately show ?thesis using n by (simp add: power_cmd_def LORA_AT_BUF_SIZE_def push_def)
qed

subsection \<open>Properties\<close>

text \<open>
  \<open>u32toa\<close> writes the decimal digits of its argument, most significant first and without
  leading zeros, then a NUL, whenever the buffer has room for them; reading the digits back gives
  the number.
\<close>

theorem u32toa_decimal:
  assumes "unat val < 10 ^ (buf_len - 1)" "2 \<le> buf_len"
  shows "\<exists>s. u32toa val buf_len = Some (s @ [0]) \<and> digits s \<and> dec s = uint val
    \<and> 1 \<le> length s \<and> length s < buf_len \<and> (val \<noteq> 0 \<longrightarrow> hd s \<noteq> 48)"
proof -
  have l: "1 \<le> length (nat_text (unat val)) \<and> length (nat_text (unat val)) \<le> buf_len - 1"
    using assms by (intro nat_text_length) simp_all
  then have "length (nat_text (unat val)) < buf_len" using assms(2) by linarith
  moreover have "val \<noteq> 0 \<longrightarrow> hd (nat_text (unat val)) \<noteq> 48"
    using nat_text_lead [of "unat val"] by (cases "unat val = 0") (simp_all add: unat_eq_0)
  moreover have "dec (nat_text (unat val)) = uint val"
    using nat_text_digits [of "unat val"] by (simp only: uint_nat)
  ultimately show ?thesis
    using u32toa_text [of val buf_len] l nat_text_digits [of "unat val"] by blast
qed

lemma u32toa_decimal_witness: "\<exists>s. u32toa 4294967295 12 = Some (s @ [0]) \<and> dec s = 4294967295"
  using u32toa_decimal [of 4294967295 12] by auto

text \<open>
  \<open>dataIn_handler\<close> assembles exactly \<open>AT+SEND=0,<length>,<payload>\<close> for every payload it accepts
  (at most 80 bytes, of any value): the local array of 128 bytes is large enough and nothing is cut.
\<close>

theorem send_cmd_frame:
  assumes "length data \<le> 80"
  shows "\<exists>n. send_cmd data = Some (ascii ''AT+SEND=0,'' @ n @ 44 # data @ [0])
    \<and> digits n \<and> dec n = int (length data) \<and> length (ascii ''AT+SEND=0,'' @ n @ 44 # data @ [0]) \<le> 94"
proof -
  have "length (nat_text (length data)) \<le> 2" using assms by (intro nat_text_le) simp_all
  with send_cmd_text [OF assms] nat_text_digits [of "length data"] assms show ?thesis
    by (intro exI [of _ "nat_text (length data)"]) simp
qed

lemma send_cmd_frame_witness: "\<exists>n. send_cmd [72, 0, 44] = Some (ascii ''AT+SEND=0,'' @ n @ 44 # [72, 0, 44] @ [0]) \<and> dec n = 3"
  using send_cmd_frame [of "[72, 0, 44]"] by auto

text \<open>
  The strings of the configuration commands. \<open>LORA_SET_FREQ\<close> sends \<open>1000 * freqKHz\<close> reduced
  modulo \<open>2^32\<close>: in Hz only up to 4294967 kHz. \<open>LORA_SET_SF\<close> sends the byte \<open>48 + sf\<close>, which is
  the decimal digit of \<open>sf\<close> for 7 to 9 and no digit at all for the accepted factors 10, 11 and 12.
\<close>

theorem config_cmd_texts:
  "(\<exists>n. freq_cmd f = Some (ascii ''AT+BAND='' @ n @ [0]) \<and> digits n \<and> dec n = uint f * 1000 mod 4294967296)
    \<and> sf_cmd sf = Some (ascii ''AT+PARAMETER='' @ (48 + sf) # ascii '',7,1,12'' @ [0])
    \<and> (sf \<in> {7, 8, 9} \<longrightarrow> is_digit (48 + sf) \<and> digit_val (48 + sf) = uint sf)
    \<and> (sf \<in> {10, 11, 12} \<longrightarrow> \<not> is_digit (48 + sf))
    \<and> (p \<le> 22 \<longrightarrow> (\<exists>n. power_cmd p = Some (ascii ''AT+CRFOP='' @ n @ [0]) \<and> digits n \<and> dec n = uint p))"
proof -
  have "int (unat (f * 1000)) = uint f * 1000 mod 4294967296"
    by (simp add: uint_word_ariths)
  then have "\<exists>n. freq_cmd f = Some (ascii ''AT+BAND='' @ n @ [0]) \<and> digits n \<and> dec n = uint f * 1000 mod 4294967296"
    using freq_cmd_text [of f] nat_text_digits [of "unat (f * 1000)"] by (intro exI [of _ "nat_text (unat (f * 1000))"]) simp
  moreover have "p \<le> 22 \<longrightarrow> (\<exists>n. power_cmd p = Some (ascii ''AT+CRFOP='' @ n @ [0]) \<and> digits n \<and> dec n = uint p)"
    using power_cmd_text [of p] nat_text_digits [of "unat p"] by (auto intro!: exI [of _ "nat_text (unat p)"])
  moreover have "sf \<in> {7, 8, 9} \<longrightarrow> is_digit (48 + sf) \<and> digit_val (48 + sf) = uint sf"
    "sf \<in> {10, 11, 12} \<longrightarrow> \<not> is_digit (48 + sf)"
    by (auto simp: is_digit_def digit_val_def)
  ultimately show ?thesis using sf_cmd_text [of sf] by blast
qed

lemma config_cmd_texts_witness:
  "sf_cmd 12 = Some (ascii ''AT+PARAMETER='' @ 60 # ascii '',7,1,12'' @ [0]) \<and> \<not> is_digit 60
    \<and> (\<exists>n. power_cmd 14 = Some (ascii ''AT+CRFOP='' @ n @ [0]) \<and> dec n = 14)"
  using config_cmd_texts [of 868000 12 14] by auto

end
