(* ===== verification/LoraParse.thy ===== *)
theory LoraParse
  imports Prelude
begin

text \<open>
  \<open>parseRcv\<close> of \<open>Components/LoRaDriver/LoRaDriver.cpp\<close>: the parser of the module's
  \<open>+RCV=<addr>,<len>,<data>,<rssi>,<snr>\<close> line. The pointer \<open>p\<close> is an index into the line. The
  countdown of each loop's limit is kept while the loop runs; its final wrap-around is never read.
\<close>

text \<open>\<open>while (*p != '\0' && *p != ',' && skip_limit-- > 0) { p++; }\<close>\<close>

function rcv_skip :: "bytes \<Rightarrow> nat \<Rightarrow> nat \<Rightarrow> nat option" where
  "rcv_skip line p skip_limit = do {
     c \<leftarrow> rd line p;
     if c \<noteq> 0 \<and> c \<noteq> ch CHR '','' \<and> skip_limit > 0 then rcv_skip line (Suc p) (skip_limit - 1)
     else Some p }"
  by pat_completeness auto
termination
  by (relation "measure (\<lambda>(line, p, skip_limit). skip_limit)") auto

text \<open>\<open>while (*p >= '0' && *p <= '9' && digit_limit-- > 0) { val = val * 10 + (*p - '0'); p++; }\<close>\<close>

function rcv_digits :: "bytes \<Rightarrow> nat \<Rightarrow> nat \<Rightarrow> int \<Rightarrow> (nat \<times> int) option" where
  "rcv_digits line p digit_limit val = do {
     c \<leftarrow> rd line p;
     if is_digit c \<and> digit_limit > 0 then do {
       v10 \<leftarrow> i32 (val * 10);
       val' \<leftarrow> i32 (v10 + digit_val c);
       rcv_digits line (Suc p) (digit_limit - 1) val' }
     else Some (p, val) }"
  by pat_completeness auto
termination
  by (relation "measure (\<lambda>(line, p, digit_limit, val). digit_limit)") auto

declare rcv_skip.simps [simp del] rcv_digits.simps [simp del]

text \<open>The optional minus sign in front of RSSI and SNR.\<close>

definition rcv_sign :: "bytes \<Rightarrow> nat \<Rightarrow> (bool \<times> nat) option" where
  "rcv_sign line p = do { c \<leftarrow> rd line p; Some (if c = ch CHR ''-'' then (True, p + 1) else (False, p)) }"

text \<open>The optional decimal point and one digit of the SNR.\<close>

definition rcv_snr_frac :: "bytes \<Rightarrow> nat \<Rightarrow> int option" where
  "rcv_snr_frac line p = do {
     c \<leftarrow> rd line p;
     if c = ch CHR ''.'' then do {
       d \<leftarrow> rd line (p + 1);
       Some (if is_digit d then digit_val d else 0) }
     else Some 0 }"

text \<open>The result is the return value and what is stored in \<open>rssi\<close> and \<open>snr\<close> (the caller's 0 on failure).\<close>

definition rcv_values :: "bytes \<Rightarrow> nat \<Rightarrow> (bool \<times> int \<times> int) option" where
  "rcv_values line p = do {
     (rssi_neg, p) \<leftarrow> rcv_sign line p;
     (p, rssi_val) \<leftarrow> rcv_digits line p 6 0;
     rssi_val \<leftarrow> (if rssi_neg then i32 (- rssi_val) else Some rssi_val);
     c \<leftarrow> rd line p;
     if c \<noteq> ch CHR '','' then Some (False, 0, 0)
     else do {
       (snr_neg, p) \<leftarrow> rcv_sign line (p + 1);
       (p, snr_int) \<leftarrow> rcv_digits line p 4 0;
       snr_frac \<leftarrow> rcv_snr_frac line p;
       s10 \<leftarrow> i32 (snr_int * 10);
       snr_val \<leftarrow> i32 (s10 + snr_frac);
       snr_val \<leftarrow> (if snr_neg then i32 (- snr_val) else Some snr_val);
       Some (True, to_i16 rssi_val, to_i16 snr_val) } }"

definition parseRcv :: "bytes \<Rightarrow> (bool \<times> int \<times> int) option" where
  "parseRcv line = do {
     p \<leftarrow> rcv_skip line 5 8;
     c \<leftarrow> rd line p;
     if c \<noteq> ch CHR '','' then Some (False, 0, 0)
     else do {
       p \<leftarrow> rcv_skip line (p + 1) 4;
       c \<leftarrow> rd line p;
       if c \<noteq> ch CHR '','' then Some (False, 0, 0)
       else do {
         p \<leftarrow> rcv_skip line (p + 1) 100;
         c \<leftarrow> rd line p;
         if c \<noteq> ch CHR '','' then Some (False, 0, 0)
         else rcv_values line (p + 1) } } }"

subsection \<open>The loops\<close>

lemma rcv_skip_field:
  assumes "44 \<notin> set s" "0 \<notin> set s" "length s \<le> n"
  shows "rcv_skip (pre @ s @ 44 # rest) (length pre) n = Some (length pre + length s)"
  using assms
proof (induction s arbitrary: pre n)
  case Nil
  then show ?case by (subst rcv_skip.simps) (simp add: mem_simps)
next
  case (Cons x s)
  from Cons.IH [of "n - 1" "pre @ [x]"] Cons.prems show ?case
    by (subst rcv_skip.simps) (simp add: mem_simps)
qed

lemma rcv_digits_value:
  assumes "digits ds" "length ds \<le> n" "\<not> is_digit c" "0 \<le> v" "dec_from v ds < 2147483648"
  shows "rcv_digits (pre @ ds @ c # rest) (length pre) n v = Some (length pre + length ds, dec_from v ds)"
  using assms
proof (induction ds arbitrary: pre n v)
  case Nil
  then show ?case by (subst rcv_digits.simps) (simp add: mem_simps)
next
  case (Cons x ds)
  have d: "0 \<le> digit_val x" "digit_val x \<le> 9" using Cons.prems(1) digit_val_range [of x] by auto
  then have "v * 10 + digit_val x < 2147483648"
    using dec_from_ge [of ds "v * 10 + digit_val x"] Cons.prems by simp
  with Cons.IH [of "n - 1" "v * 10 + digit_val x" "pre @ [x]"] Cons.prems d show ?case
    by (subst rcv_digits.simps) (simp add: mem_simps ub_simps)
qed

text \<open>No loop runs past the terminating NUL.\<close>

lemma rd_before_nul: "p \<le> length L \<Longrightarrow> \<exists>c. rd (L @ 0 # r) p = Some c \<and> (c \<noteq> 0 \<longrightarrow> p < length L)"
  by (auto simp: rd_def nth_append)

lemma rcv_skip_bound: "p \<le> length L \<Longrightarrow> \<exists>q. rcv_skip (L @ 0 # r) p n = Some q \<and> p \<le> q \<and> q \<le> length L"
proof (induction n arbitrary: p)
  case 0
  then show ?case using rd_before_nul [of p L r] by (subst rcv_skip.simps) auto
next
  case (Suc n)
  obtain c where c: "rd (L @ 0 # r) p = Some c" "c \<noteq> 0 \<longrightarrow> p < length L"
    using rd_before_nul [OF Suc.prems] by blast
  show ?case
  proof (cases "c \<noteq> 0 \<and> c \<noteq> 44")
    case True
    then obtain q where "rcv_skip (L @ 0 # r) (Suc p) n = Some q" "Suc p \<le> q" "q \<le> length L"
      using c Suc.IH [of "Suc p"] by auto
    with True c show ?thesis by (subst rcv_skip.simps) simp
  next
    case False
    with c Suc.prems show ?thesis by (subst rcv_skip.simps) auto
  qed
qed

lemma rcv_digits_bound:
  assumes "p \<le> length L" "0 \<le> v" "v < 10 ^ k" "k + n \<le> 6"
  shows "\<exists>q x. rcv_digits (L @ 0 # r) p n v = Some (q, x) \<and> q \<le> length L \<and> 0 \<le> x \<and> x < 1000000"
  using assms
proof (induction n arbitrary: p v k)
  case 0
  have "(10::int) ^ k \<le> 10 ^ 6" using 0(4) by (intro power_increasing) auto
  with 0 show ?case using rd_before_nul [of p L r] by (subst rcv_digits.simps) auto
next
  case (Suc n)
  obtain c where c: "rd (L @ 0 # r) p = Some c" "c \<noteq> 0 \<longrightarrow> p < length L"
    using rd_before_nul [OF Suc.prems(1)] by blast
  have p: "(10::int) ^ k \<le> 10 ^ 5" using Suc.prems(4) by (intro power_increasing) auto
  show ?case
  proof (cases "is_digit c")
    case True
    then have d: "0 \<le> digit_val c" "digit_val c \<le> 9" "c \<noteq> 0" using digit_val_range [of c] by auto
    have "v * 10 + digit_val c < 10 ^ Suc k" using d Suc.prems(3) by simp
    with d Suc.prems c(2) obtain q x where "rcv_digits (L @ 0 # r) (Suc p) n (v * 10 + digit_val c) = Some (q, x)"
        "q \<le> length L" "0 \<le> x" "x < 1000000"
      using Suc.IH [of "Suc p" "v * 10 + digit_val c" "Suc k"] by auto
    with True c d p Suc.prems show ?thesis by (subst rcv_digits.simps) (simp add: ub_simps)
  next
    case False
    with c p Suc.prems show ?thesis by (subst rcv_digits.simps) auto
  qed
qed

lemma rcv_sign_bound: "p \<le> length L \<Longrightarrow> \<exists>neg q. rcv_sign (L @ 0 # r) p = Some (neg, q) \<and> q \<le> length L"
  using rd_before_nul [of p L r] by (auto simp: rcv_sign_def)

lemma rcv_snr_frac_bound: "p \<le> length L \<Longrightarrow> \<exists>x. rcv_snr_frac (L @ 0 # r) p = Some x \<and> 0 \<le> x \<and> x \<le> 9"
proof -
  assume p: "p \<le> length L"
  obtain c where c: "rd (L @ 0 # r) p = Some c" "c \<noteq> 0 \<longrightarrow> p < length L"
    using rd_before_nul [OF p] by blast
  show ?thesis
  proof (cases "c = 46")
    case True
    then obtain d where "rd (L @ 0 # r) (Suc p) = Some d" using c rd_before_nul [of "Suc p" L r] by auto
    with True c(1) digit_val_range [of d] show ?thesis by (auto simp: rcv_snr_frac_def)
  next
    case False
    with c(1) show ?thesis by (simp add: rcv_snr_frac_def)
  qed
qed

lemma rcv_values_defined:
  assumes "p \<le> length L"
  shows "rcv_values (L @ 0 # r) p \<noteq> None"
proof -
  obtain neg p1 where s1: "rcv_sign (L @ 0 # r) p = Some (neg, p1)" "p1 \<le> length L" using rcv_sign_bound [OF assms] by blast
  obtain p2 x where d1: "rcv_digits (L @ 0 # r) p1 6 0 = Some (p2, x)" "p2 \<le> length L" "0 \<le> x" "x < 1000000"
    using rcv_digits_bound [OF s1(2), of 0 0 6 r] by auto
  obtain c where c: "rd (L @ 0 # r) p2 = Some c" "c \<noteq> 0 \<longrightarrow> p2 < length L" using rd_before_nul [OF d1(2)] by blast
  have neg: "(if neg then i32 (- x) else Some x) = Some (if neg then - x else x)" using d1 by (simp add: ub_simps)
  show ?thesis
  proof (cases "c = 44")
    case False
    with s1 d1 c neg show ?thesis by (simp add: rcv_values_def)
  next
    case True
    with c have "p2 + 1 \<le> length L" by auto
    then obtain neg2 p3 where s2: "rcv_sign (L @ 0 # r) (p2 + 1) = Some (neg2, p3)" "p3 \<le> length L"
      using rcv_sign_bound by blast
    obtain p4 y where d2: "rcv_digits (L @ 0 # r) p3 4 0 = Some (p4, y)" "p4 \<le> length L" "0 \<le> y" "y < 1000000"
      using rcv_digits_bound [OF s2(2), of 0 0 4 r] by auto
    obtain f where f: "rcv_snr_frac (L @ 0 # r) p4 = Some f" "0 \<le> f" "f \<le> 9" using rcv_snr_frac_bound [OF d2(2)] by blast
    from True s1 d1 c neg s2 d2 f show ?thesis by (cases neg2) (simp_all add: rcv_values_def ub_simps del: not_None_eq)
  qed
qed

text \<open>The parser is defined on every line that starts with five characters.\<close>

lemma parseRcv_defined:
  assumes "5 \<le> length L"
  shows "parseRcv (L @ 0 # r) \<noteq> None"
proof -
  obtain p1 where p1: "rcv_skip (L @ 0 # r) 5 8 = Some p1" "p1 \<le> length L" using rcv_skip_bound [OF assms] by blast
  obtain c1 where c1: "rd (L @ 0 # r) p1 = Some c1" "c1 \<noteq> 0 \<longrightarrow> p1 < length L" using rd_before_nul [OF p1(2)] by blast
  show ?thesis
  proof (cases "c1 = 44")
    case False
    with p1 c1 show ?thesis by (simp add: parseRcv_def)
  next
    case t1: True
    with c1 obtain p2 where p2: "rcv_skip (L @ 0 # r) (p1 + 1) 4 = Some p2" "p2 \<le> length L"
      using rcv_skip_bound [of "p1 + 1" L] by auto
    obtain c2 where c2: "rd (L @ 0 # r) p2 = Some c2" "c2 \<noteq> 0 \<longrightarrow> p2 < length L" using rd_before_nul [OF p2(2)] by blast
    show ?thesis
    proof (cases "c2 = 44")
      case False
      with t1 p1 c1 p2 c2 show ?thesis by (simp add: parseRcv_def)
    next
      case t2: True
      with c2 obtain p3 where p3: "rcv_skip (L @ 0 # r) (p2 + 1) 100 = Some p3" "p3 \<le> length L"
        using rcv_skip_bound [of "p2 + 1" L] by auto
      obtain c3 where c3: "rd (L @ 0 # r) p3 = Some c3" "c3 \<noteq> 0 \<longrightarrow> p3 < length L" using rd_before_nul [OF p3(2)] by blast
      show ?thesis
      proof (cases "c3 = 44")
        case False
        with t1 t2 p1 c1 p2 c2 p3 c3 show ?thesis by (simp add: parseRcv_def)
      next
        case True
        with c3 have "p3 + 1 \<le> length L" by auto
        then obtain res where "rcv_values (L @ 0 # r) (p3 + 1) = Some res" using rcv_values_defined [of "p3 + 1" L r] by auto
        with True t1 t2 p1 c1 p2 c2 p3 c3 show ?thesis by (simp add: parseRcv_def)
      qed
    qed
  qed
qed

subsection \<open>Functional behaviour\<close>

definition signed_text :: "bool \<Rightarrow> bytes \<Rightarrow> bytes" where
  "signed_text neg ds = (if neg then [45] else []) @ ds"

definition sgn_of :: "bool \<Rightarrow> int" where
  "sgn_of neg = (if neg then - 1 else 1)"

text \<open>The line the module sends for a received packet; the SNR may carry one decimal.\<close>

definition rcv_line :: "bytes \<Rightarrow> bytes \<Rightarrow> bytes \<Rightarrow> bool \<Rightarrow> bytes \<Rightarrow> bool \<Rightarrow> bytes \<Rightarrow> u8 option \<Rightarrow> bytes" where
  "rcv_line addr len data rneg rssi sneg snr frac =
     ascii ''+RCV='' @ addr @ 44 # len @ 44 # data @ 44 # signed_text rneg rssi @ 44 # signed_text sneg snr
       @ (case frac of None \<Rightarrow> [] | Some d \<Rightarrow> [46, d])"

definition plain_field :: "bytes \<Rightarrow> bool" where
  "plain_field s \<longleftrightarrow> 44 \<notin> set s \<and> 0 \<notin> set s"

lemma rcv_sign_text:
  assumes "digits ds" "\<not> is_digit c" "c \<noteq> 45"
  shows "rcv_sign (pre @ signed_text neg ds @ c # rest) (length pre)
    = Some (neg, length pre + (if neg then 1 else 0))"
proof (cases neg)
  case True
  then show ?thesis by (simp add: rcv_sign_def signed_text_def mem_simps)
next
  case False
  obtain x xs where x: "ds @ c # rest = x # xs" "x \<noteq> 45"
    using assms by (cases ds) auto
  with False show ?thesis by (simp add: rcv_sign_def signed_text_def mem_simps)
qed

lemma dec_bounds_6: "digits ds \<Longrightarrow> length ds \<le> 6 \<Longrightarrow> 0 \<le> dec ds \<and> dec ds < 1000000"
  using dec_bounds_le [of ds 6] by simp

lemma rcv_number:
  assumes "digits ds" "length ds \<le> n" "n \<le> 6" "\<not> is_digit c" "c \<noteq> 45"
  shows "rcv_sign (pre @ signed_text neg ds @ c # rest) (length pre) = Some (neg, length pre + (if neg then 1 else 0))"
    and "rcv_digits (pre @ signed_text neg ds @ c # rest) (length pre + (if neg then 1 else 0)) n 0
      = Some (length (pre @ signed_text neg ds), dec ds)"
    and "rd (pre @ signed_text neg ds @ c # rest) (length (pre @ signed_text neg ds)) = Some c"
proof -
  have b: "0 \<le> dec ds \<and> dec ds < 1000000" by (rule dec_bounds_6) (use assms in simp_all)
  show "rcv_sign (pre @ signed_text neg ds @ c # rest) (length pre) = Some (neg, length pre + (if neg then 1 else 0))"
    by (rule rcv_sign_text [OF assms(1,4,5)])
  show "rcv_digits (pre @ signed_text neg ds @ c # rest) (length pre + (if neg then 1 else 0)) n 0
      = Some (length (pre @ signed_text neg ds), dec ds)"
    using rcv_digits_value [OF assms(1,2,4), of 0 "pre @ (if neg then [45] else [])" rest] b
    by (cases neg) (simp_all add: signed_text_def dec_def)
  show "rd (pre @ signed_text neg ds @ c # rest) (length (pre @ signed_text neg ds)) = Some c"
    using rd_append [of "pre @ signed_text neg ds" c rest] by simp
qed

lemma rcv_values_text:
  assumes "digits rssi" "length rssi \<le> 6" "digits snr" "length snr \<le> 4"
    and "case frac of None \<Rightarrow> True | Some d \<Rightarrow> is_digit d"
  shows "rcv_values (pre @ signed_text rneg rssi @ 44 # signed_text sneg snr
        @ (case frac of None \<Rightarrow> [] | Some d \<Rightarrow> [46, d]) @ 0 # rest) (length pre)
    = Some (True, to_i16 (sgn_of rneg * dec rssi),
        to_i16 (sgn_of sneg * (dec snr * 10 + (case frac of None \<Rightarrow> 0 | Some d \<Rightarrow> digit_val d))))"
proof -
  let ?F = "case frac of None \<Rightarrow> [] | Some d \<Rightarrow> [46, d]"
  let ?line = "pre @ signed_text rneg rssi @ 44 # signed_text sneg snr @ ?F @ 0 # rest"
  let ?f = "case frac of None \<Rightarrow> 0 | Some d \<Rightarrow> digit_val d"
  let ?pre2 = "pre @ signed_text rneg rssi @ [44]"
  obtain c t where c: "?F @ 0 # rest = c # t" "\<not> is_digit c" "c \<noteq> 45" by (cases frac) auto
  have line2: "?line = ?pre2 @ signed_text sneg snr @ c # t" by (simp add: c(1))
  note n1 = rcv_number [where pre = pre and neg = rneg and ds = rssi and n = 6 and c = 44
      and rest = "signed_text sneg snr @ ?F @ 0 # rest", OF assms(1,2)]
  note n2 = rcv_number [where pre = ?pre2 and neg = sneg and ds = snr and n = 4 and c = c and rest = t,
      OF assms(3,4) _ c(2,3), folded line2]
  have l2: "length (pre @ signed_text rneg rssi) + 1 = length ?pre2" by simp
  have f: "rcv_snr_frac ?line (length (?pre2 @ signed_text sneg snr)) = Some ?f" "0 \<le> ?f" "?f \<le> 9"
  proof -
    show "0 \<le> ?f" "?f \<le> 9" using assms(5) digit_val_range by (cases frac; force)+
    show "rcv_snr_frac ?line (length (?pre2 @ signed_text sneg snr)) = Some ?f"
    proof (cases frac)
      case None
      then have "c = 0" using c(1) by simp
      with n2(3) None show ?thesis by (simp add: rcv_snr_frac_def)
    next
      case (Some d)
      then have e: "c = 46" "t = d # 0 # rest" using c(1) by simp_all
      have "rd ?line (length (?pre2 @ signed_text sneg snr) + 1) = Some d"
        unfolding line2 using rd_append_Suc(1) [of "?pre2 @ signed_text sneg snr" c d "0 # rest"] e by simp
      with n2(3) Some e assms(5) show ?thesis by (simp add: rcv_snr_frac_def)
    qed
  qed
  have neg: "(if rneg then i32 (- dec rssi) else Some (dec rssi)) = Some (sgn_of rneg * dec rssi)"
    using dec_bounds_6 [OF assms(1,2)] by (simp add: ub_simps sgn_of_def)
  have neg2: "(if sneg then i32 (- (dec snr * 10 + ?f)) else Some (dec snr * 10 + ?f)) = Some (sgn_of sneg * (dec snr * 10 + ?f))"
    using dec_bounds_6 [OF assms(3)] assms(4) f by (simp add: ub_simps sgn_of_def)
  have s: "i32 (dec snr * 10) = Some (dec snr * 10)" "i32 (dec snr * 10 + ?f) = Some (dec snr * 10 + ?f)"
    using dec_bounds_6 [OF assms(3)] assms(4) f by (simp_all add: ub_simps)
  show ?thesis
    unfolding rcv_values_def using n1(1-3) n2(1-3) f(1) neg neg2 s l2 by simp
qed

text \<open>Skipping the three fields in front of the values.\<close>

lemma parseRcv_fields:
  assumes "plain_field addr" "length addr \<le> 8" "plain_field len" "length len \<le> 4" "plain_field data" "length data \<le> 100"
  shows "parseRcv (ascii ''+RCV='' @ addr @ 44 # len @ 44 # data @ 44 # t)
    = rcv_values (ascii ''+RCV='' @ addr @ 44 # len @ 44 # data @ 44 # t)
        (length (ascii ''+RCV='' @ addr @ 44 # len @ 44 # data @ [44]))"
proof -
  let ?p1 = "ascii ''+RCV=''" and ?p2 = "ascii ''+RCV='' @ addr @ [44]" and ?p3 = "ascii ''+RCV='' @ addr @ 44 # len @ [44]"
  let ?line = "ascii ''+RCV='' @ addr @ 44 # len @ 44 # data @ 44 # t"
  have r: "?line = ?p1 @ addr @ 44 # len @ 44 # data @ 44 # t" "?line = ?p2 @ len @ 44 # data @ 44 # t"
    "?line = ?p3 @ data @ 44 # t" by simp_all
  have s1: "rcv_skip ?line 5 8 = Some (5 + length addr)"
    using rcv_skip_field [of addr 8 ?p1 "len @ 44 # data @ 44 # t"] assms by (simp add: plain_field_def eval_nat_numeral)
  have s2: "rcv_skip ?line (5 + length addr + 1) 4 = Some (5 + length addr + 1 + length len)"
    using rcv_skip_field [of len 4 ?p2 "data @ 44 # t"] assms by (simp add: plain_field_def eval_nat_numeral)
  have s3: "rcv_skip ?line (5 + length addr + 1 + length len + 1) 100 = Some (5 + length addr + 1 + length len + 1 + length data)"
    using rcv_skip_field [of data 100 ?p3 t] assms by (simp add: plain_field_def eval_nat_numeral)
  have c1: "rd ?line (5 + length addr) = Some 44"
    using rd_append [of "?p1 @ addr" 44 "len @ 44 # data @ 44 # t"] by (simp add: eval_nat_numeral)
  have c2: "rd ?line (5 + length addr + 1 + length len) = Some 44"
    using rd_append [of "?p2 @ len" 44 "data @ 44 # t"] by (simp add: eval_nat_numeral)
  have c3: "rd ?line (5 + length addr + 1 + length len + 1 + length data) = Some 44"
    using rd_append [of "?p3 @ data" 44 t] by (simp add: eval_nat_numeral add.assoc)
  have l: "length (ascii ''+RCV='' @ addr @ 44 # len @ 44 # data @ [44]) = 5 + length addr + 1 + length len + 1 + length data + 1"
    by simp
  show ?thesis
    unfolding parseRcv_def s1 bind.bind_lunit c1 unfolding l by (simp only: s2 bind.bind_lunit c2 s3 c3) simp
qed

lemma parseRcv_text:
  assumes "plain_field addr" "length addr \<le> 8" "plain_field len" "length len \<le> 4" "plain_field data" "length data \<le> 100"
    and "digits rssi" "length rssi \<le> 6" "digits snr" "length snr \<le> 4" "case frac of None \<Rightarrow> True | Some d \<Rightarrow> is_digit d"
  shows "parseRcv (rcv_line addr len data rneg rssi sneg snr frac @ 0 # rest)
    = Some (True, to_i16 (sgn_of rneg * dec rssi),
        to_i16 (sgn_of sneg * (dec snr * 10 + (case frac of None \<Rightarrow> 0 | Some d \<Rightarrow> digit_val d))))"
proof -
  let ?t = "signed_text rneg rssi @ 44 # signed_text sneg snr @ (case frac of None \<Rightarrow> [] | Some d \<Rightarrow> [46, d]) @ 0 # rest"
  let ?pre = "ascii ''+RCV='' @ addr @ 44 # len @ 44 # data @ [44]"
  have "rcv_line addr len data rneg rssi sneg snr frac @ 0 # rest = ascii ''+RCV='' @ addr @ 44 # len @ 44 # data @ 44 # ?t"
    by (simp add: rcv_line_def)
  moreover have "\<dots> = ?pre @ ?t" by simp
  ultimately show ?thesis
    using parseRcv_fields [OF assms(1-6), of ?t] rcv_values_text [OF assms(7-11), of ?pre rneg sneg rest] by metis
qed

lemma to_i16_small: "- 32768 \<le> x \<Longrightarrow> x < 32768 \<Longrightarrow> to_i16 x = x"
  by (simp add: to_i16_def signed_of_int signed_take_bit_int_eq_self)

subsection \<open>The parser looks at nothing behind what it needs\<close>

text \<open>A defined result stays the same in a longer array; the rules follow the shape of the code.\<close>

definition stable :: "(bytes \<Rightarrow> 'a option) \<Rightarrow> bool" where
  "stable f \<longleftrightarrow> (\<forall>L r v. f L = Some v \<longrightarrow> f (L @ r) = Some v)"

lemma stable_rd: "stable (\<lambda>L. rd L i)"
  by (auto simp: stable_def rd_def nth_append split: if_splits)

lemma stable_const: "stable (\<lambda>L. x)"
  by (simp add: stable_def)

lemma stable_bind: "stable f \<Longrightarrow> (\<And>x. stable (\<lambda>L. g x L)) \<Longrightarrow> stable (\<lambda>L. f L \<bind> (\<lambda>x. g x L))"
  unfolding stable_def by (fastforce simp: Option.bind_eq_Some_conv)

lemma stable_if: "stable f \<Longrightarrow> stable g \<Longrightarrow> stable (\<lambda>L. if b then f L else g L)"
  by (simp add: stable_def)

lemma stable_prod: "(\<And>a b. stable (\<lambda>L. g a b L)) \<Longrightarrow> stable (\<lambda>L. case p of (a, b) \<Rightarrow> g a b L)"
  by (cases p) simp

lemmas stable_intros = stable_rd stable_const stable_if stable_prod stable_bind

lemma stable_skip: "stable (\<lambda>L. rcv_skip L p n)"
proof (induction n arbitrary: p)
  case 0
  then show ?case by (subst rcv_skip.simps) (simp add: stable_intros)
next
  case (Suc n)
  then show ?case by (subst rcv_skip.simps) (simp add: stable_intros)
qed

lemma stable_digits: "stable (\<lambda>L. rcv_digits L p n v)"
proof (induction n arbitrary: p v)
  case 0
  then show ?case by (subst rcv_digits.simps) (simp add: stable_intros)
next
  case (Suc n)
  then show ?case by (subst rcv_digits.simps) (simp add: stable_intros)
qed

lemma stable_parse: "stable parseRcv"
  unfolding parseRcv_def rcv_values_def rcv_sign_def rcv_snr_frac_def
  by (intro stable_intros stable_skip stable_digits)

lemma parseRcv_rest:
  assumes "5 \<le> length L"
  shows "parseRcv (L @ 0 # r) = parseRcv (L @ [0])"
proof -
  obtain v where v: "parseRcv (L @ [0]) = Some v" using parseRcv_defined [OF assms, of "[]"] by auto
  with stable_parse have "parseRcv ((L @ [0]) @ r) = Some v" unfolding stable_def by blast
  with v show ?thesis by simp
qed

subsection \<open>Properties\<close>

text \<open>
  \<open>parseRcv\<close> is total and memory-safe on every NUL-terminated line of at least the five
  characters its caller has compared: no loop reads past the NUL and no sum overflows.
\<close>

theorem parseRcv_safe:
  assumes "5 \<le> length L"
  shows "\<exists>ok rssi snr. parseRcv (L @ 0 # rest) = Some (ok, rssi, snr)"
  using parseRcv_defined [OF assms, of rest] by auto

lemma parseRcv_safe_witness: "\<exists>ok rssi snr. parseRcv (ascii ''+RCV=9,9,'' @ 0 # []) = Some (ok, rssi, snr)"
  using parseRcv_safe [of "ascii ''+RCV=9,9,''" "[]"] by simp

text \<open>
  C34: The line of a received packet whose payload has no comma gives its RSSI in dBm and its SNR
  times ten, signs and the optional decimal included.
\<close>

theorem parseRcv_exact:
  assumes "plain_field addr" "length addr \<le> 8" "plain_field len" "length len \<le> 4" "plain_field data" "length data \<le> 100"
    and "digits rssi" "length rssi \<le> 4" "digits snr" "length snr \<le> 3" "case frac of None \<Rightarrow> True | Some d \<Rightarrow> is_digit d"
  shows "parseRcv (rcv_line addr len data rneg rssi sneg snr frac @ 0 # rest)
    = Some (True, (if rneg then - 1 else 1) * dec rssi,
        (if sneg then - 1 else 1) * (dec snr * 10 + (case frac of None \<Rightarrow> 0 | Some d \<Rightarrow> digit_val d)))"
proof -
  let ?f = "case frac of None \<Rightarrow> 0 | Some d \<Rightarrow> digit_val d"
  have f: "0 \<le> ?f" "?f \<le> 9" using assms(11) digit_val_range by (cases frac; force)+
  have r: "0 \<le> dec rssi" "dec rssi < 10000" and s: "0 \<le> dec snr" "dec snr < 1000"
    using dec_bounds_le [OF assms(7,8)] dec_bounds_le [OF assms(9,10)] by simp_all
  have "to_i16 (sgn_of rneg * dec rssi) = (if rneg then - 1 else 1) * dec rssi"
    using r by (simp add: sgn_of_def to_i16_small)
  moreover have "to_i16 (sgn_of sneg * (dec snr * 10 + ?f)) = (if sneg then - 1 else 1) * (dec snr * 10 + ?f)"
    using s f by (simp add: sgn_of_def to_i16_small)
  ultimately show ?thesis
    using parseRcv_text [OF assms(1-7) _ assms(9) _ assms(11), of rneg sneg rest] assms(8,10) by simp
qed

lemma parseRcv_exact_witness:
  "parseRcv (ascii ''+RCV=50,5,HELLO,-99,-7.5'' @ 0 # []) = Some (True, - 99, - 75)"
  using parseRcv_exact [of "ascii ''50''" "ascii ''5''" "ascii ''HELLO''" "ascii ''99''" "ascii ''7''" "Some 53" True True "[]"]
  by (simp add: plain_field_def is_digit_def dec_def digit_val_def rcv_line_def signed_text_def)



end
