(* ===== verification/Lora.thy ===== *)
theory Lora
  imports Hal LoraFormat LoraParse
begin

text \<open>
  \<open>Components/LoRaDriver\<close>: the component's fields, the AT command exchange with the module on
  UART0, initialisation, transmission, polling for received packets and the command handlers. What
  the component sends through its F' ports is appended to \<open>lora_out\<close>. \<open>m_atBufLen\<close> is a \<open>nat\<close>, which
  the invariant keeps below 128. The wait for a response is a loop on the hardware timer, so every
  operation that contains it has the value \<open>None\<close> if the timer never reaches the deadline.
\<close>

datatype lora_state = UNINIT | READY | ERROR

definition lora_state_code :: "lora_state \<Rightarrow> u8" where
  "lora_state_code s = (case s of UNINIT \<Rightarrow> 0 | READY \<Rightarrow> 1 | ERROR \<Rightarrow> 2)"

datatype lora_output =
    TlmLastRxRssi int
  | TlmLastRxSnr int
  | TlmTxPacketCount u32
  | TlmTxErrorCount u32
  | TlmRxPacketCount u32
  | TlmModuleState u8
  | LogInitFailed u8
  | LogTxError u8
  | LogModuleReady
  | LogPacketReceived int int
  | LogAtBufOverrun
  | LogPayloadTooLarge u32
  | LoraCmdResponse u32 u32 cmd_response

record lora =
  m_state :: lora_state
  m_atBuf :: bytes
  m_atBufLen :: nat
  m_txCount :: u32
  m_txErrors :: u32
  m_rxCount :: u32
  lora_out :: "lora_output list"

definition LORA_PAYLOAD_MAX :: nat where "LORA_PAYLOAD_MAX = 80"
definition LORA_INIT_RETRIES :: nat where "LORA_INIT_RETRIES = 3"
definition LORA_AT_TIMEOUT_US :: u32 where "LORA_AT_TIMEOUT_US = 200000"
definition AT_CRLF :: bytes where "AT_CRLF = [13, 10, 0]"

definition lora_init :: lora where
  "lora_init = \<lparr>m_state = UNINIT, m_atBuf = replicate LORA_AT_BUF_SIZE 0, m_atBufLen = 0, m_txCount = 0,
     m_txErrors = 0, m_rxCount = 0, lora_out = []\<rparr>"

definition lora_emit :: "lora_output \<Rightarrow> lora \<Rightarrow> lora" where
  "lora_emit x l = l\<lparr>lora_out := lora_out l @ [x]\<rparr>"

subsection \<open>\<open>readATLine\<close> and \<open>sendAT\<close>\<close>

partial_function (option) read_at_loop :: "u64 \<Rightarrow> lora \<Rightarrow> world \<Rightarrow> (nat \<times> lora \<times> world) option" where
  "read_at_loop deadline l w = do {
     (t, w1) \<leftarrow> hal_time_us w;
     if t < deadline then do {
       (rc, byte, w2) \<leftarrow> hal_uart_getc HAL_UART0 0 w1;
       if rc = HAL_OK then
         if byte = 10 then do {
           buf \<leftarrow> wr (m_atBuf l) (m_atBufLen l) 0;
           Some (m_atBufLen l, l\<lparr>m_atBuf := buf\<rparr>, w2) }
         else if byte \<noteq> 13 then
           if m_atBufLen l < LORA_AT_BUF_SIZE - 1 then do {
             buf \<leftarrow> wr (m_atBuf l) (m_atBufLen l) byte;
             read_at_loop deadline (l\<lparr>m_atBuf := buf, m_atBufLen := m_atBufLen l + 1\<rparr>) w2 }
           else Some (0, (lora_emit LogAtBufOverrun l)\<lparr>m_atBufLen := 0\<rparr>, w2)
         else read_at_loop deadline l w2
       else read_at_loop deadline l w2 }
     else Some (0, l, w1) }"

definition readATLine :: "u32 \<Rightarrow> lora \<Rightarrow> world \<Rightarrow> (nat \<times> lora \<times> world) option" where
  "readATLine timeout_us l w = do {
     (t, w1) \<leftarrow> hal_time_us w;
     read_at_loop (t + ucast timeout_us) (l\<lparr>m_atBufLen := 0\<rparr>) w1 }"

function at_cmd_length :: "bytes \<Rightarrow> nat \<Rightarrow> nat option" where
  "at_cmd_length cmd cmd_len = do {
     c \<leftarrow> rd cmd cmd_len;
     if c \<noteq> 0 \<and> cmd_len < LORA_AT_BUF_SIZE - 2 then at_cmd_length cmd (Suc cmd_len) else Some cmd_len }"
  by pat_completeness auto
termination
  by (relation "measure (\<lambda>(cmd, cmd_len). LORA_AT_BUF_SIZE - cmd_len)") auto

declare at_cmd_length.simps [simp del]

definition sendAT :: "bytes \<Rightarrow> u32 \<Rightarrow> lora \<Rightarrow> world \<Rightarrow> (bool \<times> lora \<times> world) option" where
  "sendAT cmd timeout_us l w = do {
     cmd_len \<leftarrow> at_cmd_length cmd 0;
     (rc, w) \<leftarrow> hal_uart_write HAL_UART0 (Some cmd) cmd_len 5000 w;
     if rc \<noteq> HAL_OK then Some (False, l, w)
     else do {
       (rc, w) \<leftarrow> hal_uart_write HAL_UART0 (Some AT_CRLF) 2 5000 w;
       if rc \<noteq> HAL_OK then Some (False, l, w)
       else do {
         (resp_len, l, w) \<leftarrow> readATLine timeout_us l w;
         if resp_len = 0 then Some (False, l, w)
         else do {
           c0 \<leftarrow> rd (m_atBuf l) 0;
           c1 \<leftarrow> rd (m_atBuf l) 1;
           Some (c0 = ch CHR ''+'' \<and> (c1 = ch CHR ''O'' \<or> c1 = ch CHR ''R''), l, w) } } } }"

subsection \<open>\<open>initModule\<close> and \<open>preamble\<close>\<close>

function init_alive :: "nat \<Rightarrow> lora \<Rightarrow> world \<Rightarrow> (bool \<times> lora \<times> world) option" where
  "init_alive attempt l w =
     (if attempt < LORA_INIT_RETRIES then do {
        (ok, l1, w1) \<leftarrow> sendAT (cstr_lit ''AT'') LORA_AT_TIMEOUT_US l w;
        if ok then Some (True, l1, w1)
        else do {
          w2 \<leftarrow> hal_delay_ms 200 w1;
          init_alive (Suc attempt) l1 w2 } }
      else Some (False, l, w))"
  by pat_completeness auto
termination
  by (relation "measure (\<lambda>(attempt, l, w). LORA_INIT_RETRIES - attempt)") auto

declare init_alive.simps [simp del]

text \<open>\<open>if (!sendAT(cmd, timeout)) { return false; }\<close> followed by the rest of the function.\<close>

definition at_step ::
  "bytes \<Rightarrow> u32 \<Rightarrow> (lora \<Rightarrow> world \<Rightarrow> (bool \<times> lora \<times> world) option) \<Rightarrow> lora \<Rightarrow> world \<Rightarrow> (bool \<times> lora \<times> world) option" where
  "at_step cmd timeout_us rest l w = do {
     (ok, l1, w1) \<leftarrow> sendAT cmd timeout_us l w;
     if \<not> ok then Some (False, l1, w1) else rest l1 w1 }"

definition init_params :: "lora \<Rightarrow> world \<Rightarrow> (bool \<times> lora \<times> world) option" where
  "init_params =
     at_step (cstr_lit ''AT+PARAMETER=9,7,1,12'') LORA_AT_TIMEOUT_US
      (at_step (cstr_lit ''AT+ADDRESS=1'') LORA_AT_TIMEOUT_US
        (at_step (cstr_lit ''AT+NETWORKID=6'') LORA_AT_TIMEOUT_US
          (at_step (cstr_lit ''AT+CRFOP=14'') LORA_AT_TIMEOUT_US
            (\<lambda>l w. Some (True, l, w)))))"

definition initModule :: "lora \<Rightarrow> world \<Rightarrow> (bool \<times> lora \<times> world) option" where
  "initModule l w = do {
     (alive, l, w) \<leftarrow> init_alive 0 l w;
     if \<not> alive then Some (False, l, w)
     else at_step (cstr_lit ''AT+RESET'') 2000000 (\<lambda>l w. do {
       w \<leftarrow> hal_delay_ms 500 w;
       cmd \<leftarrow> init_band_cmd;
       at_step cmd LORA_AT_TIMEOUT_US init_params l w }) l w }"

definition preamble :: "lora \<Rightarrow> world \<Rightarrow> (lora \<times> world) option" where
  "preamble l w = do {
     (ok, l, w) \<leftarrow> initModule l w;
     if \<not> ok then
       let l = l\<lparr>m_state := ERROR\<rparr>; l = lora_emit (LogInitFailed (of_nat LORA_INIT_RETRIES)) l
       in Some (lora_emit (TlmModuleState (lora_state_code (m_state l))) l, w)
     else
       let l = l\<lparr>m_state := READY\<rparr>; l = lora_emit LogModuleReady l
       in Some (lora_emit (TlmModuleState (lora_state_code (m_state l))) l, w) }"

subsection \<open>\<open>pollRx\<close> and \<open>schedIn_handler\<close>\<close>

definition is_rcv :: "bytes \<Rightarrow> nat \<Rightarrow> bool option" where
  "is_rcv buf len =
     (if len \<ge> 5 then do {
        c0 \<leftarrow> rd buf 0; c1 \<leftarrow> rd buf 1; c2 \<leftarrow> rd buf 2; c3 \<leftarrow> rd buf 3; c4 \<leftarrow> rd buf 4;
        Some (c0 = ch CHR ''+'' \<and> c1 = ch CHR ''R'' \<and> c2 = ch CHR ''C'' \<and> c3 = ch CHR ''V'' \<and> c4 = ch CHR ''='') }
      else Some False)"

definition rx_packet :: "int \<Rightarrow> int \<Rightarrow> lora \<Rightarrow> lora" where
  "rx_packet rssi snr l =
     (let l = l\<lparr>m_rxCount := m_rxCount l + 1\<rparr> in
      lora_emit (LogPacketReceived rssi snr) (lora_emit (TlmRxPacketCount (m_rxCount l))
        (lora_emit (TlmLastRxSnr snr) (lora_emit (TlmLastRxRssi rssi) l))))"

text \<open>The body of the drain loop for one byte.\<close>

definition lora_byte :: "u8 \<Rightarrow> lora \<Rightarrow> lora option" where
  "lora_byte byte l =
     (if byte = 10 then do {
        buf \<leftarrow> wr (m_atBuf l) (m_atBufLen l) 0;
        let l = l\<lparr>m_atBuf := buf\<rparr>;
        rcv \<leftarrow> is_rcv buf (m_atBufLen l);
        l1 \<leftarrow> (if rcv then do {
                 (ok, rssi, snr) \<leftarrow> parseRcv buf;
                 Some (if ok then rx_packet rssi snr l else l) }
               else Some l);
        Some (l1\<lparr>m_atBufLen := 0\<rparr>) }
      else if byte \<noteq> 13 then
        if m_atBufLen l < LORA_AT_BUF_SIZE - 1 then do {
          buf \<leftarrow> wr (m_atBuf l) (m_atBufLen l) byte;
          Some (l\<lparr>m_atBuf := buf, m_atBufLen := m_atBufLen l + 1\<rparr>) }
        else Some ((lora_emit LogAtBufOverrun l)\<lparr>m_atBufLen := 0\<rparr>)
      else Some l)"

function pollRx :: "nat \<Rightarrow> nat \<Rightarrow> u8 \<Rightarrow> lora \<Rightarrow> world \<Rightarrow> (lora \<times> world) option" where
  "pollRx drain_limit drain_count byte l w =
     (if drain_count < drain_limit then do {
        (rc, byte', w1) \<leftarrow> hal_uart_getc HAL_UART0 byte w;
        if rc = HAL_OK then do {
          l1 \<leftarrow> lora_byte byte' l;
          pollRx drain_limit (Suc drain_count) byte' l1 w1 }
        else Some (l, w1) }
      else Some (l, w))"
  by pat_completeness auto
termination
  by (relation "measure (\<lambda>(drain_limit, drain_count, byte, l, w). drain_limit - drain_count)") auto

declare pollRx.simps [simp del]

definition lora_schedIn_handler :: "lora \<Rightarrow> world \<Rightarrow> (lora \<times> world) option" where
  "lora_schedIn_handler l w = (if m_state l \<noteq> READY then Some (l, w) else pollRx 256 0 0 l w)"

subsection \<open>\<open>dataIn_handler\<close>\<close>

definition tx_failed :: "lora \<Rightarrow> lora" where
  "tx_failed l = (let l = l\<lparr>m_txErrors := m_txErrors l + 1\<rparr> in lora_emit (TlmTxErrorCount (m_txErrors l)) l)"

text \<open>The test on the response; \<open>err_code\<close> is \<open>m_atBuf[5] - '0'\<close> when the response is long enough.\<close>

definition tx_response :: "nat \<Rightarrow> lora \<Rightarrow> lora option" where
  "tx_response resp_len l = do {
     failed \<leftarrow> (if resp_len = 0 then Some True
                else do { c0 \<leftarrow> rd (m_atBuf l) 0; c1 \<leftarrow> rd (m_atBuf l) 1; Some (c0 = ch CHR ''+'' \<and> c1 = ch CHR ''E'') });
     if failed then do {
       err_code \<leftarrow> (if resp_len \<ge> 6 then do { c5 \<leftarrow> rd (m_atBuf l) 5; Some (c5 - ch CHR ''0'') } else Some 0);
       Some (tx_failed (lora_emit (LogTxError err_code) l)) }
     else
       let l = l\<lparr>m_txCount := m_txCount l + 1\<rparr> in Some (lora_emit (TlmTxPacketCount (m_txCount l)) l) }"

text \<open>The payload is the array \<open>fwBuffer.getData()\<close> of \<open>fwBuffer.getSize()\<close> bytes.\<close>

definition dataIn_handler :: "bytes \<Rightarrow> lora \<Rightarrow> world \<Rightarrow> (lora \<times> world) option" where
  "dataIn_handler payload l w =
     (if m_state l \<noteq> READY then Some (l, w)
      else if length payload > LORA_PAYLOAD_MAX
      then Some (lora_emit (LogPayloadTooLarge (of_nat (length payload))) l, w)
      else do {
        cmd \<leftarrow> send_cmd payload;
        (rc, w) \<leftarrow> hal_uart_write HAL_UART0 (Some cmd) (length cmd - 1) 10000 w;
        if rc \<noteq> HAL_OK then Some (tx_failed l, w)
        else do {
          (rc, w) \<leftarrow> hal_uart_write HAL_UART0 (Some AT_CRLF) 2 5000 w;
          if rc \<noteq> HAL_OK then Some (tx_failed l, w)
          else do {
            (resp_len, l, w) \<leftarrow> readATLine 1000000 l w;
            l \<leftarrow> tx_response resp_len l;
            Some (l, w) } } })"

subsection \<open>Command handlers\<close>

definition cmd_respond :: "u32 \<Rightarrow> u32 \<Rightarrow> bool \<Rightarrow> lora \<Rightarrow> lora" where
  "cmd_respond opCode cmdSeq ok l = lora_emit (LoraCmdResponse opCode cmdSeq (if ok then CmdOK else EXECUTION_ERROR)) l"

definition LORA_SEND_AT_cmdHandler :: "u32 \<Rightarrow> u32 \<Rightarrow> bytes \<Rightarrow> lora \<Rightarrow> world \<Rightarrow> (lora \<times> world) option" where
  "LORA_SEND_AT_cmdHandler opCode cmdSeq cmd l w = do {
     (ok, l, w) \<leftarrow> sendAT cmd LORA_AT_TIMEOUT_US l w;
     Some (cmd_respond opCode cmdSeq ok l, w) }"

definition LORA_SET_FREQ_cmdHandler :: "u32 \<Rightarrow> u32 \<Rightarrow> u32 \<Rightarrow> lora \<Rightarrow> world \<Rightarrow> (lora \<times> world) option" where
  "LORA_SET_FREQ_cmdHandler opCode cmdSeq freqKHz l w = do {
     cmd \<leftarrow> freq_cmd freqKHz;
     (ok, l, w) \<leftarrow> sendAT cmd LORA_AT_TIMEOUT_US l w;
     Some (cmd_respond opCode cmdSeq ok l, w) }"

definition LORA_SET_SF_cmdHandler :: "u32 \<Rightarrow> u32 \<Rightarrow> u8 \<Rightarrow> lora \<Rightarrow> world \<Rightarrow> (lora \<times> world) option" where
  "LORA_SET_SF_cmdHandler opCode cmdSeq sf l w =
     (if sf < 7 \<or> sf > 12 then Some (lora_emit (LoraCmdResponse opCode cmdSeq VALIDATION_ERROR) l, w)
      else do {
        cmd \<leftarrow> sf_cmd sf;
        (ok, l, w) \<leftarrow> sendAT cmd LORA_AT_TIMEOUT_US l w;
        Some (cmd_respond opCode cmdSeq ok l, w) })"

definition LORA_SET_POWER_cmdHandler :: "u32 \<Rightarrow> u32 \<Rightarrow> u8 \<Rightarrow> lora \<Rightarrow> world \<Rightarrow> (lora \<times> world) option" where
  "LORA_SET_POWER_cmdHandler opCode cmdSeq powerDbm l w =
     (if powerDbm > 22 then Some (lora_emit (LoraCmdResponse opCode cmdSeq VALIDATION_ERROR) l, w)
      else do {
        cmd \<leftarrow> power_cmd powerDbm;
        (ok, l, w) \<leftarrow> sendAT cmd LORA_AT_TIMEOUT_US l w;
        Some (cmd_respond opCode cmdSeq ok l, w) })"

definition LORA_RESET_cmdHandler :: "u32 \<Rightarrow> u32 \<Rightarrow> lora \<Rightarrow> world \<Rightarrow> (lora \<times> world) option" where
  "LORA_RESET_cmdHandler opCode cmdSeq l w = do {
     (ok, l, w) \<leftarrow> initModule l w;
     let l = (if ok then lora_emit LogModuleReady (l\<lparr>m_state := READY\<rparr>)
              else lora_emit (LogInitFailed (of_nat LORA_INIT_RETRIES)) (l\<lparr>m_state := ERROR\<rparr>));
     let l = lora_emit (TlmModuleState (lora_state_code (m_state l))) l;
     Some (cmd_respond opCode cmdSeq ok l, w) }"

end
