(* ===== verification/LineStream.thy ===== *)
theory LineStream
  imports Prelude
begin

text \<open>
  Both serial components read lines: characters are collected in a buffer, carriage returns skipped,
  a line feed hands the line over, and a line that outgrows the buffer is thrown away. This theory
  says what a stream of bytes means to such a reader, states the contract of one (\<open>line_reader\<close>),
  and proves once that a reader fed from a byte source does what its stream means
  (\<open>line_receiver\<close>). \<open>GpsStream\<close> and \<open>LoraRun\<close> interpret both locales on the code's models.
\<close>

subsection \<open>The items of a stream\<close>

text \<open>
  Given the characters already waiting: complete lines, without carriage returns and empty lines,
  overruns, and the characters left waiting at the end. A character that finds the buffer full
  discards it and itself.
\<close>

datatype stream_item = Line bytes | Overrun

fun assemble :: "nat \<Rightarrow> bytes \<Rightarrow> bytes \<Rightarrow> stream_item list \<times> bytes" where
  "assemble n buf [] = ([], buf)"
| "assemble n buf (b # bs) =
     (if b = 10 then apfst ((@) (if buf = [] then [] else [Line buf])) (assemble n [] bs)
      else if b = 13 then assemble n buf bs
      else if length buf < n then assemble n (buf @ [b]) bs
      else apfst ((#) Overrun) (assemble n [] bs))"

lemma assemble_append:
  "assemble n buf (xs @ ys) = (let (is, rest) = assemble n buf xs in apfst ((@) is) (assemble n rest ys))"
  by (induction xs arbitrary: buf) (auto simp: Let_def apfst_def map_prod_def split: prod.splits)

fun item_effect :: "(bytes \<Rightarrow> 's \<Rightarrow> 's) \<Rightarrow> ('s \<Rightarrow> 's) \<Rightarrow> stream_item \<Rightarrow> 's \<Rightarrow> 's" where
  "item_effect line overrun (Line L) s = line L s"
| "item_effect line overrun Overrun s = overrun s"

definition items_safe :: "(bytes \<Rightarrow> bool) \<Rightarrow> stream_item list \<Rightarrow> bool" where
  "items_safe safe is \<longleftrightarrow> (\<forall>L. Line L \<in> set is \<longrightarrow> safe L)"

lemma items_safe_simps [simp]:
  "items_safe safe []" "items_safe safe (xs @ ys) \<longleftrightarrow> items_safe safe xs \<and> items_safe safe ys"
  "items_safe safe (Line L # xs) \<longleftrightarrow> safe L \<and> items_safe safe xs" "items_safe safe (Overrun # xs) \<longleftrightarrow> items_safe safe xs"
  by (auto simp: items_safe_def)

lemma items_safe_True [simp]: "items_safe (\<lambda>_. True) xs"
  by (simp add: items_safe_def)

subsection \<open>The contract of a line reader\<close>

text \<open>
  \<open>pending s\<close> are the characters waiting, \<open>core s\<close> the part of the state that the outside sees, which
  \<open>line L\<close> and \<open>overrun\<close> change; a line feed after a line that is not \<open>safe\<close> may be undefined.
\<close>

locale line_reader =
  fixes step :: "u8 \<Rightarrow> 's \<Rightarrow> 's option"
    and inv :: "'s \<Rightarrow> bool"
    and pending :: "'s \<Rightarrow> bytes"
    and limit :: nat
    and safe :: "bytes \<Rightarrow> bool"
    and line :: "bytes \<Rightarrow> 's \<Rightarrow> 's"
    and overrun :: "'s \<Rightarrow> 's"
    and core :: "'s \<Rightarrow> 'c"
  assumes pending_limit: "inv s \<Longrightarrow> length (pending s) \<le> limit"
    and step_lf: "inv s \<Longrightarrow> pending s \<noteq> [] \<Longrightarrow> safe (pending s) \<Longrightarrow>
      \<exists>s'. step 10 s = Some s' \<and> inv s' \<and> pending s' = [] \<and> core s' = core (line (pending s) s)"
    and step_lf_empty: "inv s \<Longrightarrow> pending s = [] \<Longrightarrow>
      \<exists>s'. step 10 s = Some s' \<and> inv s' \<and> pending s' = [] \<and> core s' = core s"
    and step_cr: "inv s \<Longrightarrow> step 13 s = Some s"
    and step_room: "inv s \<Longrightarrow> c \<noteq> 10 \<Longrightarrow> c \<noteq> 13 \<Longrightarrow> length (pending s) < limit \<Longrightarrow>
      \<exists>s'. step c s = Some s' \<and> inv s' \<and> pending s' = pending s @ [c] \<and> core s' = core s"
    and step_full: "inv s \<Longrightarrow> c \<noteq> 10 \<Longrightarrow> c \<noteq> 13 \<Longrightarrow> length (pending s) = limit \<Longrightarrow>
      \<exists>s'. step c s = Some s' \<and> inv s' \<and> pending s' = [] \<and> core s' = core (overrun s)"
    and line_core: "core s = core t \<Longrightarrow> core (line L s) = core (line L t)"
    and overrun_core: "core s = core t \<Longrightarrow> core (overrun s) = core (overrun t)"
begin

lemma items_core: "core s = core t \<Longrightarrow> core (fold (item_effect line overrun) is s) = core (fold (item_effect line overrun) is t)"
proof (induction "is" arbitrary: s t)
  case (Cons i "is")
  have "core (item_effect line overrun i s) = core (item_effect line overrun i t)"
    by (cases i) (simp_all add: line_core [OF Cons.prems] overrun_core [OF Cons.prems])
  from Cons.IH [OF this] show ?case by simp
qed simp

text \<open>One byte: the items it completes take effect, and the rest is waiting.\<close>

lemma step_item:
  assumes "inv s" "items_safe safe (fst (assemble limit (pending s) [b]))"
  shows "\<exists>s'. step b s = Some s' \<and> inv s' \<and> pending s' = snd (assemble limit (pending s) [b])
    \<and> core s' = core (fold (item_effect line overrun) (fst (assemble limit (pending s) [b])) s)"
proof -
  consider "b = 10" "pending s \<noteq> []" | "b = 10" "pending s = []" | "b = 13"
    | "b \<noteq> 10" "b \<noteq> 13" "length (pending s) < limit" | "b \<noteq> 10" "b \<noteq> 13" "length (pending s) = limit"
    using pending_limit [OF assms(1)] le_neq_implies_less by blast
  then show ?thesis
  proof cases
    case 1
    then show ?thesis using step_lf [OF assms(1)] assms(2) by simp
  next
    case 2
    then show ?thesis using step_lf_empty [OF assms(1)] by simp
  next
    case 3
    then show ?thesis using step_cr assms(1) by simp
  next
    case 4
    then show ?thesis using step_room [OF assms(1)] by simp
  next
    case 5
    then show ?thesis using step_full [OF assms(1)] by simp
  qed
qed

lemma stream:
  assumes "inv s" "items_safe safe (fst (assemble limit (pending s) bs))"
  shows "\<exists>s'. foldM step bs s = Some s' \<and> inv s' \<and> pending s' = snd (assemble limit (pending s) bs)
    \<and> core s' = core (fold (item_effect line overrun) (fst (assemble limit (pending s) bs)) s)"
  using assms
proof (induction bs arbitrary: s)
  case Nil
  then show ?case by simp
next
  case (Cons b bs)
  obtain is1 p1 where a1: "assemble limit (pending s) [b] = (is1, p1)" by force
  obtain is2 p2 where a2: "assemble limit p1 bs = (is2, p2)" by force
  have a: "assemble limit (pending s) (b # bs) = (is1 @ is2, p2)"
    using assemble_append [of limit "pending s" "[b]" bs] a1 a2 by simp
  then have safe2: "items_safe safe is1" "items_safe safe is2" using Cons.prems(2) by simp_all
  then obtain s1 where s1: "step b s = Some s1" "inv s1" "pending s1 = p1"
      "core s1 = core (fold (item_effect line overrun) is1 s)"
    using step_item [OF Cons.prems(1), of b] a1 by auto
  from Cons.IH [OF s1(2)] s1(3) a2 safe2(2) obtain s' where
    "foldM step bs s1 = Some s'" "inv s'" "pending s' = p2" "core s' = core (fold (item_effect line overrun) is2 s1)"
    by auto
  with s1 a items_core [OF s1(4), of is2] show ?case by simp
qed

end

subsection \<open>A line reader fed from a byte source\<close>

locale line_receiver = byte_source getc winv src_pending arriving quiet later
  + line_reader step inv pending limit safe line overrun core
  for getc :: "'w \<Rightarrow> (u8 option \<times> 'w) option"
    and winv src_pending arriving quiet later
    and step :: "u8 \<Rightarrow> 's \<Rightarrow> 's option"
    and inv pending limit safe line overrun
    and core :: "'s \<Rightarrow> 'c"
begin

lemma tick:
  assumes "winv w" "inv s"
  shows "\<exists>bs acc w'. src_pending w @ acc = bs @ src_pending w' \<and> length bs \<le> n
    \<and> (length bs < n \<longrightarrow> src_pending w' = []) \<and> (quiet w \<longrightarrow> acc = []) \<and> winv w' \<and> later w w'
    \<and> (let (is, rest) = assemble limit (pending s) bs in
        items_safe safe is \<longrightarrow> (\<exists>s'. drain getc step n s w = Some (s', w') \<and> inv s' \<and> pending s' = rest
          \<and> core s' = core (fold (item_effect line overrun) is s)))"
proof -
  obtain bs acc w' where d:
    "drain getc step n s w = map_option (\<lambda>s'. (s', w')) (foldM step bs s)"
    "winv w'" "later w w'" "length bs \<le> n" "src_pending w @ acc = bs @ src_pending w'"
    "length bs < n \<longrightarrow> src_pending w' = []" "quiet w \<longrightarrow> acc = []"
    using drain_feeds [where ?'s = 's, OF assms(1), of n] by blast
  have "let (is, rest) = assemble limit (pending s) bs in
      items_safe safe is \<longrightarrow> (\<exists>s'. drain getc step n s w = Some (s', w') \<and> inv s' \<and> pending s' = rest
        \<and> core s' = core (fold (item_effect line overrun) is s))"
    using stream [OF assms(2), of bs] d(1) by (auto split: prod.splits)
  with d(2-7) show ?thesis by blast
qed

text \<open>When nothing more arrives and all that is waiting fits the drain, it is all read.\<close>

lemma tick_quiet:
  assumes "winv w" "inv s" "quiet w" "length (src_pending w) < n"
    and "assemble limit (pending s) (src_pending w) = (is, rest)" "items_safe safe is"
  shows "\<exists>s' w'. drain getc step n s w = Some (s', w') \<and> winv w' \<and> later w w' \<and> src_pending w' = []
    \<and> inv s' \<and> pending s' = rest \<and> core s' = core (fold (item_effect line overrun) is s)"
proof -
  obtain bs acc w' where t: "src_pending w @ acc = bs @ src_pending w'" "length bs < n \<longrightarrow> src_pending w' = []"
      "quiet w \<longrightarrow> acc = []" "winv w'" "later w w'"
    "let (is, rest) = assemble limit (pending s) bs in
        items_safe safe is \<longrightarrow> (\<exists>s'. drain getc step n s w = Some (s', w') \<and> inv s' \<and> pending s' = rest
          \<and> core s' = core (fold (item_effect line overrun) is s))"
    using tick [OF assms(1,2), of n] by blast
  have e: "src_pending w = bs @ src_pending w'" using t(1,3) assms(3) by simp
  then have "length bs < n" using assms(4) by simp
  then have "bs = src_pending w" "src_pending w' = []" using e t(2) by simp_all
  with t(4-6) assms(5,6) show ?thesis by auto
qed

end

end
