(* ===== verification/LoraRun.thy ===== *)
theory LoraRun
  imports Lora LineStream
begin

text \<open>
  What the LoRa component's operations do: the AT command exchange terminates and returns the first
  line the module sends, the bytes on the wire are exactly the intended commands, and the buffers
  are never overrun. The properties of the component follow at the end.
\<close>

definition lora_wf :: "lora \<Rightarrow> bool" where
  "lora_wf l \<longleftrightarrow> length (m_atBuf l) = 128 \<and> m_atBufLen l \<le> 127"

lemma lora_init_wf: "lora_wf lora_init"
  by (simp add: lora_wf_def lora_init_def LORA_AT_BUF_SIZE_def)

text \<open>An AT exchange changes the line buffer and may report overruns, nothing else.\<close>

definition at_keeps :: "lora \<Rightarrow> lora \<Rightarrow> bool" where
  "at_keeps l l' \<longleftrightarrow> lora_wf l' \<and> m_state l' = m_state l \<and> m_txCount l' = m_txCount l
     \<and> m_txErrors l' = m_txErrors l \<and> m_rxCount l' = m_rxCount l
     \<and> (\<exists>k. lora_out l' = lora_out l @ replicate k LogAtBufOverrun)"

lemma at_keeps_refl: "lora_wf l \<Longrightarrow> at_keeps l l"
  by (simp add: at_keeps_def)

lemma at_keeps_trans: "at_keeps l l1 \<Longrightarrow> at_keeps l1 l2 \<Longrightarrow> at_keeps l l2"
  by (auto simp: at_keeps_def) (metis replicate_add)

lemma at_keeps_wf: "at_keeps l l' \<Longrightarrow> lora_wf l'"
  by (simp add: at_keeps_def)

text \<open>
  \<open>wired u bs w w'\<close>: the bytes \<open>bs\<close>, and no others, went out on UART \<open>u\<close>, and the firmware made no
  other SDK calls than sleeping, so the watchdog was not kicked.
\<close>

definition wired :: "u8 \<Rightarrow> bytes \<Rightarrow> world \<Rightarrow> world \<Rightarrow> bool" where
  "wired u bs w w' \<longleftrightarrow> world_wf w' \<and> same_hw w w' \<and> tx_of u w' = tx_of u w @ bs
     \<and> (\<forall>v. (v = HAL_UART0 \<longleftrightarrow> u \<noteq> HAL_UART0) \<longrightarrow> tx_of v w' = tx_of v w)
     \<and> (\<exists>ms. w_calls w' = w_calls w @ map SleepMs ms)"

lemma sent_wired: "sent u bs w w' \<Longrightarrow> wired u bs w w'"
  by (simp add: sent_def wired_def)

lemma later_wired: "later w w' \<Longrightarrow> world_wf w' \<Longrightarrow> wired u [] w w'"
  by (auto simp: later_def wired_def tx_of_def)

lemma wired_trans: "wired u xs w w1 \<Longrightarrow> wired u ys w1 w2 \<Longrightarrow> wired u (xs @ ys) w w2"
  unfolding wired_def by (auto intro: same_hw_trans simp flip: map_append)

lemma wired_wf: "wired u bs w w' \<Longrightarrow> world_wf w'"
  by (simp add: wired_def)

lemma wired_live: "wired u bs w w' \<Longrightarrow> live_clock (w_clock w) \<Longrightarrow> live_clock (w_clock w')"
  by (simp add: wired_def same_hw_def)

subsection \<open>Reading a response\<close>

text \<open>
  \<open>read_result l w n l' w'\<close>: the outcome of the read loop started in \<open>l\<close>. The bytes taken from the
  ring are a prefix of those that were or came in; a positive result is the length of the first line
  among them, without its carriage returns, now in the buffer.
\<close>

definition read_result :: "lora \<Rightarrow> world \<Rightarrow> nat \<Rightarrow> lora \<Rightarrow> world \<Rightarrow> bool" where
  "read_result l w n l' w' \<longleftrightarrow> world_wf w' \<and> later w w' \<and> at_keeps l l' \<and> n \<le> 127
     \<and> (\<exists>bs acc. rx_list HAL_UART0 w @ acc = bs @ rx_list HAL_UART0 w' \<and> (rx_quiet HAL_UART0 w \<longrightarrow> acc = [])
       \<and> (0 < n \<longrightarrow> m_atBufLen l' = n \<and> m_atBuf l' ! n = 0
         \<and> (\<exists>body. bs = body @ [10] \<and> 10 \<notin> set body
           \<and> take n (m_atBuf l') = take (m_atBufLen l) (m_atBuf l) @ filter (\<lambda>c. c \<noteq> 13) body)))"

lemma read_result_none:
  assumes "world_wf w'" "later w w'" "at_keeps l l'"
    and "rx_list HAL_UART0 w @ acc = bs @ rx_list HAL_UART0 w'" "rx_quiet HAL_UART0 w \<longrightarrow> acc = []"
  shows "read_result l w 0 l' w'"
  using assms by (auto simp: read_result_def)

text \<open>Taking bytes that are no line feed, then going on.\<close>

lemma read_result_step:
  assumes "later w w1" "at_keeps l l1" "rx_list HAL_UART0 w @ acc = bs @ rx_list HAL_UART0 w1"
    and "rx_quiet HAL_UART0 w \<longrightarrow> acc = []" "10 \<notin> set bs"
    and "take (m_atBufLen l1) (m_atBuf l1) = take (m_atBufLen l) (m_atBuf l) @ filter (\<lambda>c. c \<noteq> 13) bs"
    and "read_result l1 w1 n l' w'"
  shows "read_result l w n l' w'"
proof -
  from assms(7) obtain bs1 acc1 where r: "world_wf w'" "later w1 w'" "at_keeps l1 l'" "n \<le> 127"
    "rx_list HAL_UART0 w1 @ acc1 = bs1 @ rx_list HAL_UART0 w'" "rx_quiet HAL_UART0 w1 \<longrightarrow> acc1 = []"
    "0 < n \<longrightarrow> m_atBufLen l' = n \<and> m_atBuf l' ! n = 0 \<and> (\<exists>body. bs1 = body @ [10] \<and> 10 \<notin> set body
      \<and> take n (m_atBuf l') = take (m_atBufLen l1) (m_atBuf l1) @ filter (\<lambda>c. c \<noteq> 13) body)"
    unfolding read_result_def by blast
  have rx: "rx_list HAL_UART0 w @ acc @ acc1 = (bs @ bs1) @ rx_list HAL_UART0 w'"
    using assms(3) r(5) by (metis append.assoc)
  have q: "rx_quiet HAL_UART0 w \<longrightarrow> acc @ acc1 = []"
    using assms(4) r(6) later_rx_quiet [OF assms(1)] by auto
  have line: "\<exists>body'. bs @ bs1 = body' @ [10] \<and> 10 \<notin> set body'
      \<and> take n (m_atBuf l') = take (m_atBufLen l) (m_atBuf l) @ filter (\<lambda>c. c \<noteq> 13) body'" if n: "0 < n"
  proof -
    obtain body where "bs1 = body @ [10]" "10 \<notin> set body"
      "take n (m_atBuf l') = take (m_atBufLen l1) (m_atBuf l1) @ filter (\<lambda>c. c \<noteq> 13) body" using r(7) n by blast
    with assms(5,6) show ?thesis by (intro exI [of _ "bs @ body"]) simp
  qed
  have post: "0 < n \<longrightarrow> m_atBufLen l' = n \<and> m_atBuf l' ! n = 0 \<and> (\<exists>body. bs @ bs1 = body @ [10] \<and> 10 \<notin> set body
      \<and> take n (m_atBuf l') = take (m_atBufLen l) (m_atBuf l) @ filter (\<lambda>c. c \<noteq> 13) body)"
    using line r(7) by blast
  have lt: "later w w'" and k: "at_keeps l l'"
    using later_trans [OF assms(1) r(2)] at_keeps_trans [OF assms(2) r(3)] by simp_all
  show ?thesis
    unfolding read_result_def
    by (intro conjI exI [of _ "bs @ bs1"] exI [of _ "acc @ acc1"]) (fact r(1) lt k r(4) rx q post)+
qed

lemma at_keeps_store:
  assumes "lora_wf l" "m_atBufLen l < 127"
  shows "at_keeps l (l\<lparr>m_atBuf := (m_atBuf l)[m_atBufLen l := c], m_atBufLen := m_atBufLen l + 1\<rparr>)"
  using assms by (simp add: at_keeps_def lora_wf_def)

lemma read_at_loop_returns_at:
  assumes "world_wf w" "lora_wf l" "w_reads w \<le> m" "d \<le> w_clock w m"
  shows "\<exists>n l' w'. read_at_loop d l w = Some (n, l', w') \<and> read_result l w n l' w'"
proof -
  from assms show ?thesis
  proof (induction "m - w_reads w" arbitrary: w l rule: less_induct)
    case less
    obtain w1 where w1: "hal_time_us w = Some (w_clock w (w_reads w), w1)" "world_wf w1" "later w w1"
        "w_reads w1 = Suc (w_reads w)" "rx_list HAL_UART0 w1 = rx_list HAL_UART0 w @ rx_arriving HAL_UART0 w"
      using hal_time_us_spec [OF less.prems(1)] by blast
    have q0: "rx_quiet HAL_UART0 w \<longrightarrow> rx_arriving HAL_UART0 w = []" by (simp add: rx_quiet_arriving)
    show ?case
    proof (cases "w_clock w (w_reads w) < d")
      case False
      have "read_result l w 0 l w1"
        using w1 at_keeps_refl [OF less.prems(2)] q0
        by (intro read_result_none [where bs = "[]" and acc = "rx_arriving HAL_UART0 w"]) auto
      with w1(1) False show ?thesis by (subst read_at_loop.simps) auto
    next
      case True
      have "m \<noteq> w_reads w" using True less.prems(4) by auto
      then have reads1: "w_reads w1 \<le> m" "m - w_reads w1 < m - w_reads w" using less.prems(3) w1(4) by auto
      show ?thesis
      proof -
        consider (empty) w2 where "hal_uart_getc HAL_UART0 0 w1 = Some (HAL_ERR_EMPTY, 0, w2)" "world_wf w2" "later w1 w2"
            "w_step w2 = Suc (w_step w1)" "w_reads w2 = w_reads w1" "rx_list HAL_UART0 w1 @ rx_arriving HAL_UART0 w1 = []"
            "rx_list HAL_UART0 w2 = []"
          | (byte) b w2 where "hal_uart_getc HAL_UART0 0 w1 = Some (HAL_OK, b, w2)" "world_wf w2" "later w1 w2"
            "w_step w2 = Suc (w_step w1)" "w_reads w2 = w_reads w1"
            "rx_list HAL_UART0 w1 @ rx_arriving HAL_UART0 w1 = b # rx_list HAL_UART0 w2"
          by (rule hal_uart_getc_cases [OF w1(2), of HAL_UART0 0]) blast+
        then show ?thesis
        proof cases
        case empty
        have "w_clock w2 = w_clock w" using w1(3) empty(3) by (simp add: later_def same_hw_def)
        then obtain n l' w' where r: "read_at_loop d l w2 = Some (n, l', w')" "read_result l w2 n l' w'"
          using less.hyps [OF _ empty(2) less.prems(2)] reads1 empty(5) less.prems(4) by auto
        have rx: "rx_list HAL_UART0 w @ [] = [] @ rx_list HAL_UART0 w2" using empty(6,7) w1(5) by simp
        have "read_result l w n l' w'"
          by (rule read_result_step [OF later_trans [OF w1(3) empty(3)] at_keeps_refl [OF less.prems(2)] rx _ _ _ r(2)])
            simp_all
        with r(1) True w1(1) empty(1) show ?thesis by (subst read_at_loop.simps) auto
      next
        case byte
        let ?acc = "rx_arriving HAL_UART0 w @ rx_arriving HAL_UART0 w1"
        have rx: "rx_list HAL_UART0 w @ ?acc = [b] @ rx_list HAL_UART0 w2" using byte(6) w1(5) by simp
        have q: "rx_quiet HAL_UART0 w \<longrightarrow> ?acc = []"
          using q0 later_rx_quiet [OF w1(3)] rx_quiet_arriving by simp
        note lt = later_trans [OF w1(3) byte(3)]
        have clk: "w_clock w2 = w_clock w" using lt by (simp add: later_def same_hw_def)
        have hyp: "\<exists>n l' w'. read_at_loop d l1 w2 = Some (n, l', w') \<and> read_result l1 w2 n l' w'" if "lora_wf l1" for l1
          using less.hyps [OF _ byte(2) that] reads1 byte(5) less.prems(4) clk by auto
        have len: "m_atBufLen l < length (m_atBuf l)" "length (m_atBuf l) = 128" "m_atBufLen l \<le> 127"
          using less.prems(2) by (simp_all add: lora_wf_def)
        consider (lf) "b = 10" | (cr) "b = 13" | (full) "b \<noteq> 10" "b \<noteq> 13" "m_atBufLen l = 127"
          | (room) "b \<noteq> 10" "b \<noteq> 13" "m_atBufLen l < 127" using len(3) by linarith
        then show ?thesis
        proof cases
          case lf
          let ?l = "l\<lparr>m_atBuf := (m_atBuf l)[m_atBufLen l := 0]\<rparr>"
          have k: "at_keeps l ?l"
            using less.prems(2) by (simp add: at_keeps_def lora_wf_def)
          have "read_result l w (m_atBufLen l) ?l w2"
            unfolding read_result_def using byte(2) lt k len rx q lf
            by (intro conjI exI [of _ "[b]"] exI [of _ ?acc]) auto
          with lf True w1(1) byte(1) len show ?thesis
            by (subst read_at_loop.simps) (auto simp: mem_simps)
        next
          case cr
          obtain n l' w' where r: "read_at_loop d l w2 = Some (n, l', w')" "read_result l w2 n l' w'"
            using hyp [OF less.prems(2)] by blast
          have "read_result l w n l' w'"
            by (rule read_result_step [OF lt at_keeps_refl [OF less.prems(2)] rx q _ _ r(2)]) (simp_all add: cr)
          with r(1) cr True w1(1) byte(1) show ?thesis by (subst read_at_loop.simps) auto
        next
          case full
          let ?l = "(lora_emit LogAtBufOverrun l)\<lparr>m_atBufLen := 0\<rparr>"
          have "at_keeps l ?l"
            using less.prems(2) by (auto simp: at_keeps_def lora_wf_def lora_emit_def intro: exI [of _ "1::nat"])
          then have "read_result l w 0 ?l w2" using byte(2) lt rx q by (intro read_result_none)
          with full True w1(1) byte(1) show ?thesis
            by (subst read_at_loop.simps) (auto simp: LORA_AT_BUF_SIZE_def)
        next
          case room
          let ?l = "l\<lparr>m_atBuf := (m_atBuf l)[m_atBufLen l := b], m_atBufLen := m_atBufLen l + 1\<rparr>"
          have k: "at_keeps l ?l" by (rule at_keeps_store [OF less.prems(2) room(3)])
          obtain n l' w' where r: "read_at_loop d ?l w2 = Some (n, l', w')" "read_result ?l w2 n l' w'"
            using hyp [OF at_keeps_wf [OF k]] by blast
          have "read_result l w n l' w'"
            by (rule read_result_step [OF lt k rx q _ _ r(2)])
              (use room len in \<open>simp_all add: take_Suc_conv_app_nth\<close>)
          with r(1) room True w1(1) byte(1) len show ?thesis
            by (subst read_at_loop.simps) (auto simp: LORA_AT_BUF_SIZE_def mem_simps)
        qed
        qed
      qed
    qed
  qed
qed

lemma read_at_loop_returns:
  assumes "world_wf w" "live_clock (w_clock w)" "lora_wf l"
  shows "\<exists>n l' w'. read_at_loop d l w = Some (n, l', w') \<and> read_result l w n l' w'"
  using assms read_at_loop_returns_at unfolding live_clock_def by blast

lemma at_keeps_len [simp]: "at_keeps (l\<lparr>m_atBufLen := n\<rparr>) l' = at_keeps l l'"
  by (simp add: at_keeps_def)

text \<open>\<open>readATLine\<close> starts from an empty buffer and always returns.\<close>

lemma readATLine_returns:
  assumes "world_wf w" "live_clock (w_clock w)" "lora_wf l"
  shows "\<exists>n l' w'. readATLine t l w = Some (n, l', w') \<and> read_result (l\<lparr>m_atBufLen := 0\<rparr>) w n l' w'"
proof -
  let ?l = "l\<lparr>m_atBufLen := 0\<rparr>"
  have wf: "lora_wf ?l" using assms(3) by (simp add: lora_wf_def)
  obtain w1 where w1: "hal_time_us w = Some (w_clock w (w_reads w), w1)" "world_wf w1" "later w w1"
      "rx_list HAL_UART0 w1 = rx_list HAL_UART0 w @ rx_arriving HAL_UART0 w"
    using hal_time_us_spec [OF assms(1)] by blast
  have "live_clock (w_clock w1)" using assms(2) w1(3) by (simp add: later_def same_hw_def)
  from read_at_loop_returns [OF w1(2) this wf] obtain n l' w' where
    r: "read_at_loop (w_clock w (w_reads w) + ucast t) ?l w1 = Some (n, l', w')" "read_result ?l w1 n l' w'" by blast
  have rx: "rx_list HAL_UART0 w @ rx_arriving HAL_UART0 w = [] @ rx_list HAL_UART0 w1" using w1(4) by simp
  have "read_result ?l w n l' w'"
    by (rule read_result_step [OF w1(3) at_keeps_refl [OF wf] rx _ _ _ r(2)]) (simp_all add: rx_quiet_arriving)
  with r(1) w1(1) show ?thesis by (simp add: readATLine_def)
qed

lemma read_result_facts:
  assumes "read_result l w n l' w'"
  shows "wired HAL_UART0 [] w w'" "at_keeps l l'" "0 < n \<Longrightarrow> n \<le> 127 \<and> m_atBufLen l' = n" "lora_wf l'"
  using assms by (auto simp: read_result_def intro: later_wired at_keeps_wf)

text \<open>A line that is already in the ring is returned, if the deadline does not pass while it is read.\<close>

lemma read_at_loop_gets:
  assumes "world_wf w" "lora_wf l" "rx_list HAL_UART0 w = body @ 10 # rest" "10 \<notin> set body"
    and "\<forall>i \<le> length body. w_clock w (w_reads w + i) < d"
    and "m_atBufLen l + length (filter (\<lambda>c. c \<noteq> 13) body) \<le> 127"
  shows "\<exists>l' w'. read_at_loop d l w = Some (m_atBufLen l + length (filter (\<lambda>c. c \<noteq> 13) body), l', w')"
  using assms
proof (induction body arbitrary: l w rest)
  case Nil
  obtain w1 where w1: "hal_time_us w = Some (w_clock w (w_reads w), w1)" "world_wf w1" "later w w1"
      "rx_list HAL_UART0 w1 = rx_list HAL_UART0 w @ rx_arriving HAL_UART0 w"
    using hal_time_us_spec [OF Nil.prems(1)] by blast
  have early: "w_clock w (w_reads w) < d" using Nil.prems(5) by simp
  have "rx_list HAL_UART0 w1 \<noteq> []" using w1(4) Nil.prems(3) by simp
  then obtain w2 where g: "hal_uart_getc HAL_UART0 0 w1 = Some (HAL_OK, 10, w2)"
    using Nil.prems(3) w1(4) by (cases rule: hal_uart_getc_cases [OF w1(2), of HAL_UART0 0]) auto
  have "m_atBufLen l < length (m_atBuf l)" using Nil.prems(2) by (simp add: lora_wf_def)
  with early w1(1) g show ?case by (subst read_at_loop.simps) (simp add: mem_simps)
next
  case (Cons b body)
  obtain w1 where w1: "hal_time_us w = Some (w_clock w (w_reads w), w1)" "world_wf w1" "later w w1"
      "w_reads w1 = Suc (w_reads w)" "rx_list HAL_UART0 w1 = rx_list HAL_UART0 w @ rx_arriving HAL_UART0 w"
    using hal_time_us_spec [OF Cons.prems(1)] by blast
  have early: "w_clock w (w_reads w) < d" using Cons.prems(5) by (metis add.right_neutral zero_le)
  let ?rest = "rest @ rx_arriving HAL_UART0 w @ rx_arriving HAL_UART0 w1"
  obtain w2 where g: "hal_uart_getc HAL_UART0 0 w1 = Some (HAL_OK, b, w2)" "world_wf w2" "later w1 w2"
      "w_reads w2 = w_reads w1" "rx_list HAL_UART0 w2 = body @ 10 # ?rest"
    using Cons.prems(3) w1(5) by (cases rule: hal_uart_getc_cases [OF w1(2), of HAL_UART0 0]) auto
  have clk: "w_clock w2 = w_clock w" using later_trans [OF w1(3) g(3)] by (simp add: later_def same_hw_def)
  have dl: "\<forall>i \<le> length body. w_clock w2 (w_reads w2 + i) < d"
    using Cons.prems(5) clk w1(4) g(4) by (metis Suc_le_mono add_Suc add_Suc_right length_Cons)
  have nl: "10 \<notin> set body" "b \<noteq> 10" using Cons.prems(4) by auto
  show ?case
  proof (cases "b = 13")
    case True
    with Cons.IH [OF g(2) Cons.prems(2) g(5) nl(1) dl] Cons.prems(6) early w1(1) g(1) show ?thesis
      by (subst read_at_loop.simps) simp
  next
    case False
    let ?l = "l\<lparr>m_atBuf := (m_atBuf l)[m_atBufLen l := b], m_atBufLen := m_atBufLen l + 1\<rparr>"
    have len: "m_atBufLen l < 127" "m_atBufLen l < length (m_atBuf l)" using Cons.prems(2,6) False by (simp_all add: lora_wf_def)
    have "lora_wf ?l" using Cons.prems(2) len by (simp add: lora_wf_def)
    with Cons.IH [OF g(2) this g(5) nl(1) dl] Cons.prems(6) False early w1(1) g(1) len nl(2) show ?thesis
      by (subst read_at_loop.simps) (simp add: LORA_AT_BUF_SIZE_def mem_simps)
  qed
qed

lemma readATLine_gets:
  assumes "world_wf w" "lora_wf l" "rx_list HAL_UART0 w = body @ 10 # rest" "10 \<notin> set body"
    and "\<forall>i \<le> length body. w_clock w (Suc (w_reads w) + i) < w_clock w (w_reads w) + ucast t"
    and "length (filter (\<lambda>c. c \<noteq> 13) body) \<le> 127"
  shows "\<exists>l' w'. readATLine t l w = Some (length (filter (\<lambda>c. c \<noteq> 13) body), l', w')"
proof -
  obtain w1 where w1: "hal_time_us w = Some (w_clock w (w_reads w), w1)" "world_wf w1" "later w w1"
      "w_reads w1 = Suc (w_reads w)" "rx_list HAL_UART0 w1 = rx_list HAL_UART0 w @ rx_arriving HAL_UART0 w"
    using hal_time_us_spec [OF assms(1)] by blast
  have clk: "w_clock w1 = w_clock w" using w1(3) by (simp add: later_def same_hw_def)
  have "lora_wf (l\<lparr>m_atBufLen := 0\<rparr>)" using assms(2) by (simp add: lora_wf_def)
  moreover have "rx_list HAL_UART0 w1 = body @ 10 # (rest @ rx_arriving HAL_UART0 w)" using w1(5) assms(3) by simp
  ultimately show ?thesis
    using read_at_loop_gets [OF w1(2), of "l\<lparr>m_atBufLen := 0\<rparr>" body _ "w_clock w (w_reads w) + ucast t"]
      assms(4-6) w1(1,4) clk by (auto simp: readATLine_def)
qed

text \<open>Its text is then in the buffer, and the ring continues after its line feed.\<close>

lemma readATLine_line:
  assumes "world_wf w" "live_clock (w_clock w)" "lora_wf l" "rx_list HAL_UART0 w = body @ 10 # rest" "10 \<notin> set body"
    and "\<forall>i \<le> length body. w_clock w (Suc (w_reads w) + i) < w_clock w (w_reads w) + ucast t"
    and "filter (\<lambda>c. c \<noteq> 13) body \<noteq> []" "length (filter (\<lambda>c. c \<noteq> 13) body) \<le> 127"
  shows "\<exists>l' w' acc. readATLine t l w = Some (length (filter (\<lambda>c. c \<noteq> 13) body), l', w')
    \<and> m_atBufLen l' = length (filter (\<lambda>c. c \<noteq> 13) body)
    \<and> take (m_atBufLen l') (m_atBuf l') = filter (\<lambda>c. c \<noteq> 13) body
    \<and> rx_list HAL_UART0 w' = rest @ acc \<and> (rx_quiet HAL_UART0 w \<longrightarrow> acc = [])"
proof -
  let ?n = "length (filter (\<lambda>c. c \<noteq> 13) body)"
  obtain l' w' where r: "readATLine t l w = Some (?n, l', w')"
    using readATLine_gets [OF assms(1,3,4,5,6,8)] by blast
  have "read_result (l\<lparr>m_atBufLen := 0\<rparr>) w ?n l' w'"
    using readATLine_returns [OF assms(1-3), of t] r by auto
  then obtain bs acc where b: "rx_list HAL_UART0 w @ acc = bs @ rx_list HAL_UART0 w'" "rx_quiet HAL_UART0 w \<longrightarrow> acc = []"
    and post: "0 < ?n \<longrightarrow> m_atBufLen l' = ?n \<and> m_atBuf l' ! ?n = 0 \<and> (\<exists>body. bs = body @ [10] \<and> 10 \<notin> set body
      \<and> take ?n (m_atBuf l') = take (m_atBufLen (l\<lparr>m_atBufLen := 0\<rparr>)) (m_atBuf (l\<lparr>m_atBufLen := 0\<rparr>)) @ filter (\<lambda>c. c \<noteq> 13) body)"
    unfolding read_result_def by blast
  have "0 < ?n" using assms(7) by simp
  with post obtain body' where c: "m_atBufLen l' = ?n" "bs = body' @ [10]" "10 \<notin> set body'"
    "take ?n (m_atBuf l') = filter (\<lambda>c. c \<noteq> 13) body'"
    by auto
  have "body @ 10 # (rest @ acc) = body' @ 10 # rx_list HAL_UART0 w'"
    using b(1) c(2) assms(4) by simp
  then have "body = body'" "rest @ acc = rx_list HAL_UART0 w'"
    using first_split_unique [of body 10 "rest @ acc" body' "rx_list HAL_UART0 w'"] assms(5) c(3) by simp_all
  with r b(2) c(1,4) show ?thesis by (intro exI [of _ l'] exI [of _ w'] exI [of _ acc]) simp
qed

subsection \<open>Sending a command\<close>

lemma at_cmd_length_str:
  assumes "0 \<notin> set s" "length pre + length s \<le> 126"
  shows "at_cmd_length (pre @ s @ 0 # r) (length pre) = Some (length pre + length s)"
  using assms
proof (induction s arbitrary: pre)
  case Nil
  then show ?case by (subst at_cmd_length.simps) (simp add: mem_simps)
next
  case (Cons x s)
  from Cons.IH [of "pre @ [x]"] Cons.prems show ?case
    by (subst at_cmd_length.simps) (simp add: mem_simps LORA_AT_BUF_SIZE_def)
qed

text \<open>Two writes in a row: all of both, or a prefix.\<close>

lemma write_then_crlf:
  assumes "world_wf w" "live_clock (w_clock w)" "n \<le> length buf"
  obtains (first) rc w1 k where "hal_uart_write HAL_UART0 (Some buf) n t w = Some (rc, w1)" "rc \<noteq> HAL_OK"
      "wired HAL_UART0 (take k (take n buf @ [13, 10])) w w1"
  | (second) w1 rc w2 k where "hal_uart_write HAL_UART0 (Some buf) n t w = Some (HAL_OK, w1)"
      "hal_uart_write HAL_UART0 (Some AT_CRLF) 2 t' w1 = Some (rc, w2)" "rc \<noteq> HAL_OK"
      "wired HAL_UART0 (take k (take n buf @ [13, 10])) w w2"
  | (both) w1 w2 where "hal_uart_write HAL_UART0 (Some buf) n t w = Some (HAL_OK, w1)"
      "hal_uart_write HAL_UART0 (Some AT_CRLF) 2 t' w1 = Some (HAL_OK, w2)"
      "wired HAL_UART0 (take n buf @ [13, 10]) w w2"
proof -
  obtain rc k w1 where a: "hal_uart_write HAL_UART0 (Some buf) n t w = Some (rc, w1)" "k \<le> n"
      "sent HAL_UART0 (take k buf) w w1" "rc = HAL_OK \<and> k = n \<or> rc = HAL_ERR_TIMEOUT \<and> k < n"
    using hal_uart_write_spec [OF assms, of HAL_UART0 t] by blast
  note s1 = sent_wired [OF a(3)]
  show ?thesis
  proof (cases "rc = HAL_OK")
    case False
    have "take k buf = take k (take n buf @ [13, 10])" using a(2) assms(3) by (simp add: min_def)
    with False s1 a(1) show ?thesis by (intro first [of rc w1 k]) auto
  next
    case True
    then have k: "k = n" using a(4) by auto
    obtain rc2 j w2 where b: "hal_uart_write HAL_UART0 (Some AT_CRLF) 2 t' w1 = Some (rc2, w2)" "j \<le> 2"
        "sent HAL_UART0 (take j AT_CRLF) w1 w2" "rc2 = HAL_OK \<and> j = 2 \<or> rc2 = HAL_ERR_TIMEOUT \<and> j < 2"
      using hal_uart_write_spec [OF sent_wf [OF a(3)], of 2 AT_CRLF HAL_UART0 t'] assms(2) sent_clock [OF a(3)]
      by (auto simp: AT_CRLF_def)
    have t: "take j AT_CRLF = take j [13, 10]" using b(2) by (auto simp: AT_CRLF_def take_Cons')
    have s2: "wired HAL_UART0 (take n buf @ take j [13, 10]) w w2"
      using wired_trans [OF s1 sent_wired [OF b(3)]] by (simp only: k t)
    show ?thesis
    proof (cases "rc2 = HAL_OK")
      case False
      have "take n buf @ take j [13, 10] = take (n + j) (take n buf @ [13, 10])" using assms(3) by simp
      with False s2 a(1) True b(1) show ?thesis by (intro second [of w1 rc2 w2 "n + j"]) auto
    next
      case ok: True
      then have "j = 2" using b(4) by auto
      with s2 ok True a(1) b(1) show ?thesis by (intro both [of w1 w2]) auto
    qed
  qed
qed

definition at_frame :: "bytes \<Rightarrow> bytes" where
  "at_frame s = s @ [13, 10]"

lemma sendAT_returns:
  assumes "world_wf w" "live_clock (w_clock w)" "lora_wf l" "0 \<notin> set s" "length s \<le> 126"
  shows "\<exists>ok l' w' k. sendAT (s @ [0]) t l w = Some (ok, l', w') \<and> at_keeps l l'
    \<and> wired HAL_UART0 (take k (at_frame s)) w w'
    \<and> (ok \<longrightarrow> at_frame s = take k (at_frame s) \<and> 0 < m_atBufLen l' \<and> m_atBuf l' ! 0 = 43)"
proof -
  have len: "at_cmd_length (s @ [0]) 0 = Some (length s)"
    using at_cmd_length_str [of s "[]" "[]"] assms by simp
  have le: "length s \<le> length (s @ [0])" by simp
  have tk: "take (length s) (s @ [0]) = s" by simp
  show ?thesis
  proof (rule write_then_crlf [OF assms(1,2) le, where t = 5000 and t' = 5000], goal_cases)
    case (1 rc w1 k)
    with len at_keeps_refl [OF assms(3)] show ?case by (auto simp: sendAT_def at_frame_def)
  next
    case (2 w1 rc w2 k)
    with len at_keeps_refl [OF assms(3)] show ?case by (auto simp: sendAT_def at_frame_def)
  next
    case (3 w1 w2)
    obtain n l' w' where r: "readATLine t l w2 = Some (n, l', w')" "read_result (l\<lparr>m_atBufLen := 0\<rparr>) w2 n l' w'"
      using readATLine_returns [OF wired_wf [OF 3(3)] wired_live [OF 3(3) assms(2)] assms(3)] by blast
    note f = read_result_facts [OF r(2)]
    have w: "wired HAL_UART0 (take (length (at_frame s)) (at_frame s)) w w'"
      using wired_trans [OF 3(3) f(1)] by (simp add: at_frame_def)
    have keeps: "at_keeps l l'" using f(2) by simp
    have buf: "length (m_atBuf l') = 128" using f(4) by (simp add: lora_wf_def)
    show ?case
    proof (cases "n = 0")
      case True
      then have run: "sendAT (s @ [0]) t l w = Some (False, l', w')"
        using len 3 r(1) by (simp add: sendAT_def)
      show ?thesis
        by (intro exI [of _ False] exI [of _ l'] exI [of _ w'] exI [of _ "length (at_frame s)"] conjI run keeps w) simp
    next
      case False
      let ?ok = "m_atBuf l' ! 0 = 43 \<and> (m_atBuf l' ! 1 = 79 \<or> m_atBuf l' ! 1 = 82)"
      have run: "sendAT (s @ [0]) t l w = Some (?ok, l', w')"
        using len 3 r(1) buf False by (simp add: sendAT_def mem_simps)
      have post: "?ok \<longrightarrow> at_frame s = take (length (at_frame s)) (at_frame s) \<and> 0 < m_atBufLen l' \<and> m_atBuf l' ! 0 = 43"
        using False f(3) by simp
      show ?thesis
        by (intro exI [of _ ?ok] exI [of _ l'] exI [of _ w'] exI [of _ "length (at_frame s)"] conjI run keeps w post)
    qed
  qed
qed

subsection \<open>The initialisation script\<close>

text \<open>
  \<open>at_runs f script\<close>: \<open>f\<close> always returns, keeps the component's state, and if it succeeds it has put
  exactly the bytes \<open>script\<close> on the wire.
\<close>

definition at_runs :: "(lora \<Rightarrow> world \<Rightarrow> (bool \<times> lora \<times> world) option) \<Rightarrow> bytes \<Rightarrow> bool" where
  "at_runs f script \<longleftrightarrow> (\<forall>l w. world_wf w \<longrightarrow> live_clock (w_clock w) \<longrightarrow> lora_wf l \<longrightarrow>
     (\<exists>ok l' w' bs. f l w = Some (ok, l', w') \<and> at_keeps l l' \<and> wired HAL_UART0 bs w w' \<and> (ok \<longrightarrow> bs = script)))"

lemma at_runsD:
  assumes "at_runs f script" "world_wf w" "live_clock (w_clock w)" "lora_wf l"
  obtains ok l' w' bs where "f l w = Some (ok, l', w')" "at_keeps l l'" "wired HAL_UART0 bs w w'" "ok \<longrightarrow> bs = script"
  using assms unfolding at_runs_def by blast

lemma at_runs_done: "at_runs (\<lambda>l w. Some (True, l, w)) []"
  by (auto simp: at_runs_def wired_def intro: at_keeps_refl)

lemma at_step_runs:
  assumes "at_runs rest script" "0 \<notin> set s" "length s \<le> 126"
  shows "at_runs (at_step (s @ [0]) t rest) (at_frame s @ script)"
  unfolding at_runs_def
proof (intro allI impI)
  fix l w
  assume w: "world_wf w" "live_clock (w_clock w)" and l: "lora_wf l"
  obtain ok l1 w1 k where a: "sendAT (s @ [0]) t l w = Some (ok, l1, w1)" "at_keeps l l1"
      "wired HAL_UART0 (take k (at_frame s)) w w1" "ok \<longrightarrow> at_frame s = take k (at_frame s)"
    using sendAT_returns [OF w l assms(2,3), of t] by blast
  show "\<exists>ok l' w' bs. at_step (s @ [0]) t rest l w = Some (ok, l', w') \<and> at_keeps l l' \<and> wired HAL_UART0 bs w w'
      \<and> (ok \<longrightarrow> bs = at_frame s @ script)"
  proof (cases ok)
    case False
    with a show ?thesis by (auto simp: at_step_def)
  next
    case True
    obtain ok2 l2 w2 bs where b: "rest l1 w1 = Some (ok2, l2, w2)" "at_keeps l1 l2" "wired HAL_UART0 bs w1 w2"
        "ok2 \<longrightarrow> bs = script"
      by (rule at_runsD [OF assms(1) wired_wf [OF a(3)] wired_live [OF a(3) w(2)] at_keeps_wf [OF a(2)]])
    have "at_step (s @ [0]) t rest l w = Some (ok2, l2, w2)" using a(1) b(1) True by (simp add: at_step_def)
    moreover have "wired HAL_UART0 (at_frame s @ bs) w w2" using wired_trans [OF a(3) b(3)] a(4) True by simp
    ultimately show ?thesis using at_keeps_trans [OF a(2) b(2)] b(4) by blast
  qed
qed

lemma hal_delay_ms_wired:
  assumes "world_wf w"
  obtains w' where "hal_delay_ms ms w = Some w'" "wired u [] w w'"
proof -
  obtain w1 where w1: "serve_irqs w = Some w1" "world_wf w1" "later w w1" using serve_irqs_spec [OF assms] by blast
  let ?w = "sdk_do (SleepMs (if ms > 1000 then 1000 else ms)) w1"
  have "hal_delay_ms ms w = Some ?w" using w1(1) by (simp add: hal_delay_ms_def)
  moreover have "wired u [] w ?w"
  proof -
    have "world_wf ?w = world_wf w1" "same_hw w ?w = same_hw w w1" "tx_of v ?w = tx_of v w1" for v
      by (simp_all add: sdk_do_def world_wf_def same_hw_def tx_of_def)
    moreover have "w_calls ?w = w_calls w @ map SleepMs [if ms > 1000 then 1000 else ms]"
      using w1(3) by (simp add: sdk_do_def later_def)
    then have "\<exists>ms. w_calls ?w = w_calls w @ map SleepMs ms" by blast
    ultimately show ?thesis using later_wired [OF w1(3,2), of u] by (simp add: wired_def del: map_append list.map if_split)
  qed
  ultimately show ?thesis by (rule that)
qed

lemma init_alive_returns:
  assumes "world_wf w" "live_clock (w_clock w)" "lora_wf l" "a \<le> 3"
  shows "\<exists>ok l' w' bs. init_alive a l w = Some (ok, l', w') \<and> at_keeps l l' \<and> wired HAL_UART0 bs w w'
    \<and> length bs \<le> 4 * (3 - a) \<and> (ok \<longrightarrow> (\<exists>pre. bs = pre @ at_frame (ascii ''AT'')))"
  using assms
proof (induction "3 - a" arbitrary: a l w)
  case 0
  then show ?case
    by (subst init_alive.simps) (auto simp: LORA_INIT_RETRIES_def wired_def intro: at_keeps_refl)
next
  case (Suc n)
  then have a: "a < LORA_INIT_RETRIES" by (simp add: LORA_INIT_RETRIES_def)
  have lit: "cstr_lit ''AT'' = ascii ''AT'' @ [0]" by (simp add: cstr_lit_def)
  obtain ok l1 w1 k where s: "sendAT (cstr_lit ''AT'') LORA_AT_TIMEOUT_US l w = Some (ok, l1, w1)" "at_keeps l l1"
      "wired HAL_UART0 (take k (at_frame (ascii ''AT''))) w w1"
      "ok \<longrightarrow> at_frame (ascii ''AT'') = take k (at_frame (ascii ''AT''))"
    using sendAT_returns [OF Suc.prems(1-3), of "ascii ''AT''" LORA_AT_TIMEOUT_US] unfolding lit by auto
  have len: "length (take k (at_frame (ascii ''AT''))) \<le> 4" by (simp add: at_frame_def)
  show ?case
  proof (cases ok)
    case True
    have "init_alive a l w = Some (True, l1, w1)" using a s(1) True by (subst init_alive.simps) simp
    moreover have "length (take k (at_frame (ascii ''AT''))) \<le> 4 * (3 - a)" using len Suc.hyps(2) by linarith
    moreover have "take k (at_frame (ascii ''AT'')) = [] @ at_frame (ascii ''AT'')" using s(4) True by simp
    ultimately show ?thesis using s(2,3) by blast
  next
    case False
    obtain w2 where d: "hal_delay_ms 200 w1 = Some w2" "wired HAL_UART0 [] w1 w2"
      using hal_delay_ms_wired [OF wired_wf [OF s(3)]] by blast
    have s2: "wired HAL_UART0 (take k (at_frame (ascii ''AT''))) w w2" using wired_trans [OF s(3) d(2)] by simp
    have "n = 3 - Suc a" "Suc a \<le> 3" using Suc.hyps(2) by simp_all
    from Suc.hyps(1) [OF this(1) wired_wf [OF s2] wired_live [OF s2 Suc.prems(2)] at_keeps_wf [OF s(2)] this(2)]
    obtain ok2 l2 w3 bs where i: "init_alive (Suc a) l1 w2 = Some (ok2, l2, w3)" "at_keeps l1 l2"
      "wired HAL_UART0 bs w2 w3" "length bs \<le> 4 * (3 - Suc a)" "ok2 \<longrightarrow> (\<exists>pre. bs = pre @ at_frame (ascii ''AT''))"
      by blast
    have "init_alive a l w = Some (ok2, l2, w3)" using a s(1) False d(1) i(1) by (subst init_alive.simps) simp
    moreover have "length (take k (at_frame (ascii ''AT'')) @ bs) \<le> 4 * (3 - a)"
      using len i(4) Suc.hyps(2) by simp
    moreover have "ok2 \<longrightarrow> (\<exists>pre. take k (at_frame (ascii ''AT'')) @ bs = pre @ at_frame (ascii ''AT''))"
      using i(5) by (metis append.assoc)
    ultimately show ?thesis using at_keeps_trans [OF s(2) i(2)] wired_trans [OF s2 i(3)] by blast
  qed
qed

definition init_script :: bytes where
  "init_script = at_frame (ascii ''AT'') @ at_frame (ascii ''AT+RESET'') @ at_frame (ascii ''AT+BAND=868000000'')
     @ at_frame (ascii ''AT+PARAMETER=9,7,1,12'') @ at_frame (ascii ''AT+ADDRESS=1'')
     @ at_frame (ascii ''AT+NETWORKID=6'') @ at_frame (ascii ''AT+CRFOP=14'')"

lemma init_params_runs:
  "at_runs init_params (at_frame (ascii ''AT+PARAMETER=9,7,1,12'') @ at_frame (ascii ''AT+ADDRESS=1'')
     @ at_frame (ascii ''AT+NETWORKID=6'') @ at_frame (ascii ''AT+CRFOP=14''))"
proof -
  have "at_runs (at_step (cstr_lit ''AT+CRFOP=14'') LORA_AT_TIMEOUT_US (\<lambda>l w. Some (True, l, w))) (at_frame (ascii ''AT+CRFOP=14'') @ [])"
    unfolding cstr_lit_def by (rule at_step_runs [OF at_runs_done]) simp_all
  then have "at_runs (at_step (cstr_lit ''AT+NETWORKID=6'') LORA_AT_TIMEOUT_US
      (at_step (cstr_lit ''AT+CRFOP=14'') LORA_AT_TIMEOUT_US (\<lambda>l w. Some (True, l, w))))
      (at_frame (ascii ''AT+NETWORKID=6'') @ at_frame (ascii ''AT+CRFOP=14''))"
    unfolding cstr_lit_def append_Nil2 by (rule at_step_runs) simp_all
  then have "at_runs (at_step (cstr_lit ''AT+ADDRESS=1'') LORA_AT_TIMEOUT_US (at_step (cstr_lit ''AT+NETWORKID=6'') LORA_AT_TIMEOUT_US
      (at_step (cstr_lit ''AT+CRFOP=14'') LORA_AT_TIMEOUT_US (\<lambda>l w. Some (True, l, w)))))
      (at_frame (ascii ''AT+ADDRESS=1'') @ at_frame (ascii ''AT+NETWORKID=6'') @ at_frame (ascii ''AT+CRFOP=14''))"
    unfolding cstr_lit_def by (rule at_step_runs) simp_all
  then show ?thesis
    unfolding cstr_lit_def init_params_def by (rule at_step_runs) simp_all
qed

lemma init_tail_runs:
  "at_runs (\<lambda>l w. do { w \<leftarrow> hal_delay_ms 500 w; cmd \<leftarrow> init_band_cmd; at_step cmd LORA_AT_TIMEOUT_US init_params l w })
    (at_frame (ascii ''AT+BAND=868000000'') @ at_frame (ascii ''AT+PARAMETER=9,7,1,12'') @ at_frame (ascii ''AT+ADDRESS=1'')
     @ at_frame (ascii ''AT+NETWORKID=6'') @ at_frame (ascii ''AT+CRFOP=14''))" (is "at_runs ?f ?script")
  unfolding at_runs_def
proof (intro allI impI)
  fix l w
  assume w: "world_wf w" "live_clock (w_clock w)" and l: "lora_wf l"
  obtain w1 where d: "hal_delay_ms 500 w = Some w1" "wired HAL_UART0 [] w w1" by (rule hal_delay_ms_wired [OF w(1)])
  have "at_runs (at_step (ascii ''AT+BAND=868000000'' @ [0]) LORA_AT_TIMEOUT_US init_params) ?script"
    by (rule at_step_runs [OF init_params_runs]) simp_all
  from at_runsD [OF this wired_wf [OF d(2)] wired_live [OF d(2) w(2)] l] obtain ok l' w' bs where
    r: "at_step (ascii ''AT+BAND=868000000'' @ [0]) LORA_AT_TIMEOUT_US init_params l w1 = Some (ok, l', w')" "at_keeps l l'"
      "wired HAL_UART0 bs w1 w'" "ok \<longrightarrow> bs = ?script" by blast
  have "?f l w = Some (ok, l', w')" by (simp only: d(1) init_band_cmd_text bind.bind_lunit r(1))
  with r(2,4) wired_trans [OF d(2) r(3)] show "\<exists>ok l' w' bs. ?f l w = Some (ok, l', w') \<and> at_keeps l l' \<and> wired HAL_UART0 bs w w'
      \<and> (ok \<longrightarrow> bs = ?script)" unfolding append_Nil by blast
qed

lemma initModule_returns:
  assumes "world_wf w" "live_clock (w_clock w)" "lora_wf l"
  shows "\<exists>ok l' w' bs. initModule l w = Some (ok, l', w') \<and> at_keeps l l' \<and> wired HAL_UART0 bs w w'
    \<and> (ok \<longrightarrow> (\<exists>pre. bs = pre @ init_script \<and> length pre \<le> 8))"
proof -
  obtain ok l1 w1 bs where i: "init_alive 0 l w = Some (ok, l1, w1)" "at_keeps l l1" "wired HAL_UART0 bs w w1"
      "length bs \<le> 4 * (3 - 0)" "ok \<longrightarrow> (\<exists>pre. bs = pre @ at_frame (ascii ''AT''))"
    using init_alive_returns [OF assms, of 0] by blast
  show ?thesis
  proof (cases ok)
    case False
    with i(1-3) show ?thesis by (auto simp: initModule_def)
  next
    case True
    then obtain pre where pre: "bs = pre @ at_frame (ascii ''AT'')" using i(5) by blast
    have "0 \<notin> set (ascii ''AT+RESET'')" "length (ascii ''AT+RESET'') \<le> 126" by simp_all
    note run = at_runsD [OF at_step_runs [OF init_tail_runs this, of 2000000] wired_wf [OF i(3)] wired_live [OF i(3) assms(2)] at_keeps_wf [OF i(2)]]
    obtain ok2 l2 w2 cs where r: "at_step (ascii ''AT+RESET'' @ [0]) 2000000 (\<lambda>l w. do { w \<leftarrow> hal_delay_ms 500 w;
          cmd \<leftarrow> init_band_cmd; at_step cmd LORA_AT_TIMEOUT_US init_params l w }) l1 w1 = Some (ok2, l2, w2)"
        "at_keeps l1 l2" "wired HAL_UART0 cs w1 w2"
        "ok2 \<longrightarrow> cs = at_frame (ascii ''AT+RESET'') @ at_frame (ascii ''AT+BAND=868000000'')
          @ at_frame (ascii ''AT+PARAMETER=9,7,1,12'') @ at_frame (ascii ''AT+ADDRESS=1'')
          @ at_frame (ascii ''AT+NETWORKID=6'') @ at_frame (ascii ''AT+CRFOP=14'')"
      by (rule run) blast
    have eq: "initModule l w = Some (ok2, l2, w2)"
      using i(1) True r(1) by (simp add: initModule_def cstr_lit_def)
    have "length pre \<le> 8" using i(4) pre by (simp add: at_frame_def)
    moreover have "ok2 \<longrightarrow> bs @ cs = pre @ init_script" using r(4) pre by (simp add: init_script_def)
    ultimately show ?thesis
      using eq at_keeps_trans [OF i(2) r(2)] wired_trans [OF i(3) r(3)] by blast
  qed
qed

subsection \<open>Receiving\<close>

lemma is_rcv_line:
  "is_rcv (L @ 0 # r) (length L) = Some (5 \<le> length L \<and> take 5 L = ascii ''+RCV='')"
proof (cases "5 \<le> length L")
  case True
  then obtain a b c d e t where "L = a # b # c # d # e # t"
    by (auto simp: Suc_le_length_iff eval_nat_numeral)
  then show ?thesis by (auto simp: is_rcv_def rd_def)
qed (simp add: is_rcv_def)

text \<open>The end of a line: the buffer holds \<open>L\<close>.\<close>

lemma lora_line_end:
  assumes "lora_wf l" "m_atBuf l = L @ r" "m_atBufLen l = length L"
  shows "lora_byte 10 l = (if 5 \<le> length L \<and> take 5 L = ascii ''+RCV=''
    then (case parseRcv (L @ 0 # tl r) of
        None \<Rightarrow> None
      | Some (ok, rssi, snr) \<Rightarrow>
          Some ((if ok then rx_packet rssi snr (l\<lparr>m_atBuf := L @ 0 # tl r\<rparr>) else l\<lparr>m_atBuf := L @ 0 # tl r\<rparr>)\<lparr>m_atBufLen := 0\<rparr>))
    else Some (l\<lparr>m_atBuf := L @ 0 # tl r, m_atBufLen := 0\<rparr>))"
proof -
  have "r \<noteq> []" using assms by (auto simp: lora_wf_def)
  then have wr: "wr (m_atBuf l) (m_atBufLen l) 0 = Some (L @ 0 # tl r)"
    using assms by (cases r) (simp_all add: wr_def list_update_append)
  show ?thesis
    using wr assms(3) by (auto simp: lora_byte_def is_rcv_line split: option.splits)
qed

text \<open>A byte always has a defined effect, and it never touches the state or the transmit counters.\<close>

definition rx_keeps :: "lora \<Rightarrow> lora \<Rightarrow> bool" where
  "rx_keeps l l' \<longleftrightarrow> lora_wf l' \<and> m_state l' = m_state l \<and> m_txCount l' = m_txCount l \<and> m_txErrors l' = m_txErrors l"

lemma rx_packet_fields [simp]:
  "m_atBuf (rx_packet a b l) = m_atBuf l" "m_state (rx_packet a b l) = m_state l" "m_txCount (rx_packet a b l) = m_txCount l"
  "m_txErrors (rx_packet a b l) = m_txErrors l" "m_rxCount (rx_packet a b l) = m_rxCount l + 1"
  "lora_out (rx_packet a b l) = lora_out l @ [TlmLastRxRssi a, TlmLastRxSnr b, TlmRxPacketCount (m_rxCount l + 1), LogPacketReceived a b]"
  by (simp_all add: rx_packet_def lora_emit_def Let_def)

lemma lora_byte_safe:
  assumes "lora_wf l"
  shows "\<exists>l'. lora_byte b l = Some l' \<and> rx_keeps l l'"
proof (cases "b = 10")
  case True
  let ?L = "take (m_atBufLen l) (m_atBuf l)" and ?r = "drop (m_atBufLen l) (m_atBuf l)"
  have len: "length ?L = m_atBufLen l" "length (?L @ 0 # tl ?r) = 128" using assms by (auto simp: lora_wf_def)
  have e: "lora_byte 10 l = (if 5 \<le> length ?L \<and> take 5 ?L = ascii ''+RCV=''
    then (case parseRcv (?L @ 0 # tl ?r) of None \<Rightarrow> None
      | Some (ok, rssi, snr) \<Rightarrow>
          Some ((if ok then rx_packet rssi snr (l\<lparr>m_atBuf := ?L @ 0 # tl ?r\<rparr>) else l\<lparr>m_atBuf := ?L @ 0 # tl ?r\<rparr>)\<lparr>m_atBufLen := 0\<rparr>))
    else Some (l\<lparr>m_atBuf := ?L @ 0 # tl ?r, m_atBufLen := 0\<rparr>))"
    by (rule lora_line_end [OF assms]) (use len in simp_all)
  have k: "rx_keeps l (l\<lparr>m_atBuf := ?L @ 0 # tl ?r, m_atBufLen := 0\<rparr>)"
    "rx_keeps l (rx_packet x y (l\<lparr>m_atBuf := ?L @ 0 # tl ?r\<rparr>)\<lparr>m_atBufLen := 0\<rparr>)" for x y
    using len(2) by (simp_all add: rx_keeps_def lora_wf_def)
  show ?thesis
  proof (cases "5 \<le> length ?L \<and> take 5 ?L = ascii ''+RCV=''")
    case False
    then show ?thesis using k(1) unfolding True e if_not_P [OF False] by blast
  next
    case rcv: True
    then obtain ok x y where p: "parseRcv (?L @ 0 # tl ?r) = Some (ok, x, y)"
      using parseRcv_defined [of ?L "tl ?r"] by (cases "parseRcv (?L @ 0 # tl ?r)") auto
    show ?thesis using k unfolding True e if_P [OF rcv] p by (cases ok) auto
  qed
next
  case False
  have "m_atBufLen l < length (m_atBuf l)" using assms by (simp add: lora_wf_def)
  with False assms show ?thesis
    by (auto simp: lora_byte_def rx_keeps_def lora_wf_def LORA_AT_BUF_SIZE_def lora_emit_def mem_simps)
qed

lemma rx_keeps_trans: "rx_keeps l l1 \<Longrightarrow> rx_keeps l1 l2 \<Longrightarrow> rx_keeps l l2"
  by (simp add: rx_keeps_def)

lemma lora_bytes_safe:
  assumes "lora_wf l"
  shows "\<exists>l'. foldM lora_byte bs l = Some l' \<and> rx_keeps l l'"
proof (rule foldM_inv [where I = "rx_keeps l"])
  show "\<exists>s'. lora_byte b s = Some s' \<and> rx_keeps l s'" if "rx_keeps l s" for b s
    using lora_byte_safe [of s b] that rx_keeps_trans by (auto simp: rx_keeps_def)
  show "rx_keeps l l" using assms by (simp add: rx_keeps_def)
qed

lemma pollRx_eq: "world_wf w \<Longrightarrow> n \<le> lim \<Longrightarrow> pollRx lim n b l w = drain (hal_poll HAL_UART0) lora_byte (lim - n) l w"
proof (induction "lim - n" arbitrary: n b l w)
  case 0
  then show ?case by (subst pollRx.simps) simp
next
  case (Suc k)
  obtain r w1 where poll: "hal_poll HAL_UART0 w = Some (r, w1)"
      "hal_uart_getc HAL_UART0 b w = Some (case r of None \<Rightarrow> (HAL_ERR_EMPTY, b, w1) | Some c \<Rightarrow> (HAL_OK, c, w1))"
    using hal_uart_getc_out [OF Suc.prems(1)] by blast
  have "world_wf w1" using hal_uart_getc_poll [OF Suc.prems(1), of HAL_UART0] poll(1) by simp
  then have "pollRx lim (Suc n) c l' w1 = drain (hal_poll HAL_UART0) lora_byte k l' w1" for c l'
    using Suc by (metis Suc_diff_Suc Suc_inject Suc_leI zero_less_Suc zero_less_diff)
  moreover have "lim - n = Suc k" "n < lim" using Suc.hyps(2) by simp_all
  ultimately show ?case
    using poll by (subst pollRx.simps) (cases r; simp split: bind_split)
qed

lemma lora_schedIn_drain:
  "world_wf w \<Longrightarrow> lora_schedIn_handler l w
    = (if m_state l = READY then drain (hal_poll HAL_UART0) lora_byte 256 l w else Some (l, w))"
  by (simp add: lora_schedIn_handler_def pollRx_eq)

lemma lora_collect:
  assumes "\<forall>c \<in> set L. c \<noteq> 10 \<and> c \<noteq> 13" "lora_wf l" "m_atBufLen l + length L \<le> 127"
  shows "foldM lora_byte L l = Some (l\<lparr>m_atBuf := take (m_atBufLen l) (m_atBuf l) @ L @ drop (m_atBufLen l + length L) (m_atBuf l),
    m_atBufLen := m_atBufLen l + length L\<rparr>)"
  using assms
proof (induction L arbitrary: l)
  case Nil
  then show ?case by simp
next
  case (Cons c L)
  let ?n = "m_atBufLen l" and ?b = "m_atBuf l"
  have n: "?n < length ?b" using Cons.prems(2,3) by (simp add: lora_wf_def)
  let ?l = "l\<lparr>m_atBuf := ?b[?n := c], m_atBufLen := ?n + 1\<rparr>"
  have step: "lora_byte c l = Some ?l"
    using Cons.prems n by (simp add: lora_byte_def LORA_AT_BUF_SIZE_def mem_simps)
  have "lora_wf ?l" using Cons.prems by (simp add: lora_wf_def)
  with Cons.IH [of ?l] Cons.prems have "foldM lora_byte L ?l = Some (?l\<lparr>
      m_atBuf := take (?n + 1) (?b[?n := c]) @ L @ drop (?n + 1 + length L) (?b[?n := c]), m_atBufLen := ?n + 1 + length L\<rparr>)"
    by simp
  moreover have "take (?n + 1) (?b[?n := c]) = take ?n ?b @ [c]"
    using n by (simp add: take_Suc_conv_app_nth)
  ultimately show ?case using step by simp
qed

text \<open>A line of received characters and its CR LF, after whatever the buffer already held.\<close>

lemma lora_line:
  assumes "\<forall>c \<in> set L. c \<noteq> 10 \<and> c \<noteq> 13" "lora_wf l" "m_atBufLen l + length L \<le> 127"
  obtains l1 r where "foldM lora_byte (L @ [13, 10]) l = lora_byte 10 l1" "lora_wf l1"
    "m_atBuf l1 = (take (m_atBufLen l) (m_atBuf l) @ L) @ r" "m_atBufLen l1 = length (take (m_atBufLen l) (m_atBuf l) @ L)"
    "m_state l1 = m_state l" "m_rxCount l1 = m_rxCount l" "lora_out l1 = lora_out l"
proof -
  let ?l1 = "l\<lparr>m_atBuf := take (m_atBufLen l) (m_atBuf l) @ L @ drop (m_atBufLen l + length L) (m_atBuf l),
    m_atBufLen := m_atBufLen l + length L\<rparr>"
  have cr: "lora_byte 13 x = Some x" for x by (simp add: lora_byte_def)
  have "foldM lora_byte (L @ [13, 10]) l = lora_byte 10 ?l1"
    by (simp only: foldM_append lora_collect [OF assms] bind.bind_lunit foldM.simps cr) (cases "lora_byte 10 ?l1"; simp)
  moreover have "lora_wf ?l1" using assms by (simp add: lora_wf_def)
  ultimately show ?thesis
    using assms(2) by (intro that [of ?l1 "drop (m_atBufLen l + length L) (m_atBuf l)"]) (simp_all add: lora_wf_def)
qed

subsection \<open>The driver as a line reader\<close>

definition lora_pending :: "lora \<Rightarrow> bytes" where
  "lora_pending l = take (m_atBufLen l) (m_atBuf l)"

definition lora_core :: "lora \<Rightarrow> lora_state \<times> u32 \<times> u32 \<times> u32 \<times> lora_output list" where
  "lora_core l = (m_state l, m_txCount l, m_txErrors l, m_rxCount l, lora_out l)"

text \<open>What one line does: a packet that parses is counted and published, anything else is dropped.\<close>

definition rcv_effect :: "bytes \<Rightarrow> lora \<Rightarrow> lora" where
  "rcv_effect L l =
     (if 5 \<le> length L \<and> take 5 L = ascii ''+RCV='' then
        (case parseRcv (L @ [0]) of Some (True, rssi, snr) \<Rightarrow> rx_packet rssi snr l | _ \<Rightarrow> l)
      else l)"

lemma lora_core_buf [simp]: "lora_core (l\<lparr>m_atBuf := b\<rparr>) = lora_core l" "lora_core (l\<lparr>m_atBufLen := n\<rparr>) = lora_core l"
  by (simp_all add: lora_core_def)

lemma rx_packet_core: "lora_core l = lora_core l' \<Longrightarrow> lora_core (rx_packet x y l) = lora_core (rx_packet x y l')"
  by (simp add: lora_core_def)

lemma lora_emit_core: "lora_core l = lora_core l' \<Longrightarrow> lora_core (lora_emit x l) = lora_core (lora_emit x l')"
  by (simp add: lora_core_def lora_emit_def)

lemma rcv_effect_core: "lora_core l = lora_core l' \<Longrightarrow> lora_core (rcv_effect L l) = lora_core (rcv_effect L l')"
  by (auto simp: rcv_effect_def intro: rx_packet_core split: option.splits bool.splits)

lemma lora_wf_pending: "lora_wf l \<Longrightarrow> length (lora_pending l) = m_atBufLen l \<and> m_atBufLen l \<le> 127"
  by (simp add: lora_pending_def lora_wf_def)

lemma lora_byte_lf:
  assumes "lora_wf l"
  shows "\<exists>l'. lora_byte 10 l = Some l' \<and> lora_wf l' \<and> lora_pending l' = [] \<and> lora_core l' = lora_core (rcv_effect (lora_pending l) l)"
proof -
  let ?L = "lora_pending l" and ?r = "drop (m_atBufLen l) (m_atBuf l)"
  let ?b = "?L @ 0 # tl ?r"
  note len = lora_wf_pending [OF assms]
  have b: "length ?b = 128" using assms len by (auto simp: lora_wf_def)
  have e: "lora_byte 10 l = (if 5 \<le> length ?L \<and> take 5 ?L = ascii ''+RCV=''
    then (case parseRcv ?b of None \<Rightarrow> None
      | Some (ok, rssi, snr) \<Rightarrow> Some ((if ok then rx_packet rssi snr (l\<lparr>m_atBuf := ?b\<rparr>) else l\<lparr>m_atBuf := ?b\<rparr>)\<lparr>m_atBufLen := 0\<rparr>))
    else Some (l\<lparr>m_atBuf := ?b, m_atBufLen := 0\<rparr>))"
    by (rule lora_line_end [OF assms]) (use len in \<open>simp_all add: lora_pending_def\<close>)
  have core: "lora_core (rx_packet x y (l\<lparr>m_atBuf := ?b\<rparr>)) = lora_core (rx_packet x y l)" for x y
    by (rule rx_packet_core) simp
  show ?thesis
  proof (cases "5 \<le> length ?L \<and> take 5 ?L = ascii ''+RCV=''")
    case False
    show ?thesis unfolding e rcv_effect_def if_not_P [OF False] using b by (simp add: lora_wf_def lora_pending_def)
  next
    case True
    then obtain ok x y where p: "parseRcv (?L @ [0]) = Some (ok, x, y)" "parseRcv ?b = Some (ok, x, y)"
      using parseRcv_rest [of ?L "tl ?r"] parseRcv_defined [of ?L "[]"] by (cases "parseRcv (?L @ [0])") auto
    show ?thesis
      unfolding e rcv_effect_def if_P [OF True] p using b core
      by (cases ok) (simp_all add: lora_wf_def lora_pending_def)
  qed
qed

lemma lora_byte_room:
  assumes "lora_wf l" "c \<noteq> 10" "c \<noteq> 13" "length (lora_pending l) < 127"
  shows "\<exists>l'. lora_byte c l = Some l' \<and> lora_wf l' \<and> lora_pending l' = lora_pending l @ [c] \<and> lora_core l' = lora_core l"
proof -
  let ?l = "l\<lparr>m_atBuf := (m_atBuf l)[m_atBufLen l := c], m_atBufLen := m_atBufLen l + 1\<rparr>"
  have n: "m_atBufLen l < 127" "m_atBufLen l < length (m_atBuf l)"
    using assms(1,4) lora_wf_pending [OF assms(1)] by (simp_all add: lora_wf_def)
  then have "lora_byte c l = Some ?l" using assms(2,3) by (simp add: lora_byte_def LORA_AT_BUF_SIZE_def mem_simps)
  moreover have "lora_pending ?l = lora_pending l @ [c]" using n by (simp add: lora_pending_def take_Suc_conv_app_nth)
  moreover have "lora_wf ?l" using assms(1) n by (simp add: lora_wf_def)
  ultimately show ?thesis by simp
qed

lemma lora_byte_full:
  assumes "lora_wf l" "c \<noteq> 10" "c \<noteq> 13" "length (lora_pending l) = 127"
  shows "\<exists>l'. lora_byte c l = Some l' \<and> lora_wf l' \<and> lora_pending l' = [] \<and> lora_core l' = lora_core (lora_emit LogAtBufOverrun l)"
proof -
  have "m_atBufLen l = 127" using assms(4) lora_wf_pending [OF assms(1)] by simp
  then have "lora_byte c l = Some ((lora_emit LogAtBufOverrun l)\<lparr>m_atBufLen := 0\<rparr>)"
    using assms(2,3) by (simp add: lora_byte_def LORA_AT_BUF_SIZE_def)
  then show ?thesis using assms(1) by (simp add: lora_pending_def lora_wf_def lora_emit_def)
qed

interpretation lora_rx: line_receiver "hal_poll HAL_UART0" world_wf "rx_list HAL_UART0" "rx_arriving HAL_UART0" "rx_quiet HAL_UART0" later
  lora_byte lora_wf lora_pending 127 "\<lambda>_. True" rcv_effect "lora_emit LogAtBufOverrun" lora_core
proof (unfold_locales, goal_cases)
  case (1 l)
  then show ?case using lora_wf_pending [of l] by simp
next
  case (2 l)
  then show ?case by (intro lora_byte_lf)
next
  case (3 l)
  then show ?case using lora_byte_lf [of l] by (simp add: rcv_effect_def)
next
  case (4 l)
  then show ?case by (simp add: lora_byte_def)
next
  case (5 l c)
  then show ?case by (intro lora_byte_room)
next
  case (6 l c)
  then show ?case by (intro lora_byte_full)
next
  case (7 l l' L)
  then show ?case by (rule rcv_effect_core)
next
  case (8 l l')
  then show ?case by (rule lora_emit_core)
qed

subsection \<open>Properties\<close>

lemma preamble_returns:
  assumes "world_wf w" "live_clock (w_clock w)" "lora_wf l"
  shows "\<exists>l' w' bs k. preamble l w = Some (l', w') \<and> lora_wf l' \<and> wired HAL_UART0 bs w w'
    \<and> (m_state l' = READY \<and> lora_out l' = lora_out l @ replicate k LogAtBufOverrun @ [LogModuleReady, TlmModuleState 1]
         \<and> (\<exists>pre. bs = pre @ init_script \<and> length pre \<le> 8)
       \<or> m_state l' = ERROR \<and> lora_out l' = lora_out l @ replicate k LogAtBufOverrun @ [LogInitFailed 3, TlmModuleState 2])"
proof -
  obtain ok l1 w1 bs where r: "initModule l w = Some (ok, l1, w1)" "at_keeps l l1" "wired HAL_UART0 bs w w1"
      "ok \<longrightarrow> (\<exists>pre. bs = pre @ init_script \<and> length pre \<le> 8)"
    using initModule_returns [OF assms] by blast
  obtain k where k: "lora_out l1 = lora_out l @ replicate k LogAtBufOverrun" "lora_wf l1"
    using r(2) by (auto simp: at_keeps_def)
  show ?thesis
  proof (cases ok)
    case True
    let ?l = "l1\<lparr>m_state := READY, lora_out := lora_out l1 @ [LogModuleReady, TlmModuleState 1]\<rparr>"
    have "preamble l w = Some (?l, w1)"
      using r(1) True by (simp add: preamble_def lora_emit_def lora_state_code_def Let_def)
    moreover have "lora_wf ?l" using k(2) by (simp add: lora_wf_def)
    moreover have "\<exists>pre. bs = pre @ init_script \<and> length pre \<le> 8" using r(4) True by blast
    ultimately show ?thesis
      using k(1) r(3) by (intro exI [of _ ?l] exI [of _ w1] exI [of _ bs] exI [of _ k]) simp
  next
    case False
    let ?l = "l1\<lparr>m_state := ERROR, lora_out := lora_out l1 @ [LogInitFailed 3, TlmModuleState 2]\<rparr>"
    have "preamble l w = Some (?l, w1)"
      using r(1) False by (simp add: preamble_def lora_emit_def lora_state_code_def LORA_INIT_RETRIES_def Let_def)
    moreover have "lora_wf ?l" using k(2) by (simp add: lora_wf_def)
    ultimately show ?thesis
      using k(1) r(3) by (intro exI [of _ ?l] exI [of _ w1] exI [of _ bs] exI [of _ k]) simp
  qed
qed

text \<open>
  C8: Initialisation always returns and ends in READY or ERROR with the matching event and telemetry.
  In READY the wire has carried, after at most two unanswered (possibly cut) \<open>AT\<close> attempts, exactly
  the configuration script: \<open>AT\<close>, reset, band, RF parameters, address, network and power.
\<close>

theorem preamble_initialises:
  assumes "world_wf w" "live_clock (w_clock w)" "lora_wf l"
  shows "\<exists>l' w' bs k. preamble l w = Some (l', w') \<and> lora_wf l' \<and> wired HAL_UART0 bs w w'
    \<and> (m_state l' = READY \<and> lora_out l' = lora_out l @ replicate k LogAtBufOverrun @ [LogModuleReady, TlmModuleState 1]
         \<and> (\<exists>pre. bs = pre @ init_script \<and> length pre \<le> 8)
       \<or> m_state l' = ERROR \<and> lora_out l' = lora_out l @ replicate k LogAtBufOverrun @ [LogInitFailed 3, TlmModuleState 2])"
  by (rule preamble_returns [OF assms])

lemma preamble_initialises_witness:
  "\<exists>l' w'. preamble lora_init (sim_world [] []) = Some (l', w') \<and> (m_state l' = READY \<or> m_state l' = ERROR)"
  using preamble_initialises [of "sim_world [] []" lora_init] lora_init_wf by auto

lemma dataIn_sends:
  assumes "world_wf w" "live_clock (w_clock w)" "lora_wf l" "m_state l = READY" "length payload \<le> 80"
  shows "\<exists>l' w' k. let frame = ascii ''AT+SEND=0,'' @ nat_text (length payload) @ 44 # payload @ [13, 10] in
    dataIn_handler payload l w = Some (l', w') \<and> lora_wf l' \<and> m_state l' = READY \<and> m_rxCount l' = m_rxCount l
    \<and> wired HAL_UART0 (take k frame) w w'
    \<and> (m_txCount l' = m_txCount l + 1 \<and> m_txErrors l' = m_txErrors l \<and> take k frame = frame
       \<or> m_txCount l' = m_txCount l \<and> m_txErrors l' = m_txErrors l + 1)"
proof -
  let ?text = "ascii ''AT+SEND=0,'' @ nat_text (length payload) @ 44 # payload"
  have cmd: "send_cmd payload = Some (?text @ [0])" using send_cmd_text [OF assms(5)] by simp
  have n: "length (?text @ [0]) - 1 \<le> length (?text @ [0])" "take (length (?text @ [0]) - 1) (?text @ [0]) = ?text"
    by simp_all
  have guard: "\<not> m_state l \<noteq> READY" "\<not> length payload > LORA_PAYLOAD_MAX"
    using assms(4,5) by (simp_all add: LORA_PAYLOAD_MAX_def)
  have fail: "lora_wf (tx_failed l)" "m_state (tx_failed l) = READY" "m_rxCount (tx_failed l) = m_rxCount l"
    "m_txCount (tx_failed l) = m_txCount l" "m_txErrors (tx_failed l) = m_txErrors l + 1"
    using assms(3,4) by (simp_all add: tx_failed_def lora_emit_def lora_wf_def Let_def)
  have "\<exists>l' w' k. dataIn_handler payload l w = Some (l', w') \<and> lora_wf l' \<and> m_state l' = READY \<and> m_rxCount l' = m_rxCount l
    \<and> wired HAL_UART0 (take k (?text @ [13, 10])) w w'
    \<and> (m_txCount l' = m_txCount l + 1 \<and> m_txErrors l' = m_txErrors l \<and> take k (?text @ [13, 10]) = ?text @ [13, 10]
       \<or> m_txCount l' = m_txCount l \<and> m_txErrors l' = m_txErrors l + 1)"
  proof (rule write_then_crlf [OF assms(1,2) n(1), where t = 10000 and t' = 5000], unfold n(2), goal_cases)
    case (1 rc w1 k)
    then have "dataIn_handler payload l w = Some (tx_failed l, w1)"
      unfolding dataIn_handler_def if_not_P [OF guard(1)] if_not_P [OF guard(2)] cmd bind.bind_lunit by simp
    with 1(3) fail show ?case by blast
  next
    case (2 w1 rc w2 k)
    then have "dataIn_handler payload l w = Some (tx_failed l, w2)"
      unfolding dataIn_handler_def if_not_P [OF guard(1)] if_not_P [OF guard(2)] cmd bind.bind_lunit by simp
    with 2(4) fail show ?case by blast
  next
    case (3 w1 w2)
    obtain m l1 w3 where r: "readATLine 1000000 l w2 = Some (m, l1, w3)" "read_result (l\<lparr>m_atBufLen := 0\<rparr>) w2 m l1 w3"
      using readATLine_returns [OF wired_wf [OF 3(3)] wired_live [OF 3(3) assms(2)] assms(3)] by blast
    note f = read_result_facts [OF r(2)]
    have same: "m_state l1 = READY" "m_rxCount l1 = m_rxCount l" "m_txCount l1 = m_txCount l" "m_txErrors l1 = m_txErrors l"
      using f(2) assms(4) by (simp_all add: at_keeps_def)
    have run: "dataIn_handler payload l w = (do { l' \<leftarrow> tx_response m l1; Some (l', w3) })"
      using 3(1,2) r(1) unfolding dataIn_handler_def if_not_P [OF guard(1)] if_not_P [OF guard(2)] cmd bind.bind_lunit by simp
    have wire: "wired HAL_UART0 (take (length (?text @ [13, 10])) (?text @ [13, 10])) w w3"
      using wired_trans [OF 3(3) f(1)] by simp
    have "\<exists>l'. tx_response m l1 = Some l' \<and> lora_wf l' \<and> m_state l' = READY \<and> m_rxCount l' = m_rxCount l
      \<and> (m_txCount l' = m_txCount l + 1 \<and> m_txErrors l' = m_txErrors l
         \<or> m_txCount l' = m_txCount l \<and> m_txErrors l' = m_txErrors l + 1)"
      using f(4) same by (auto simp: tx_response_def tx_failed_def lora_emit_def lora_wf_def mem_simps Let_def)
    then obtain l' where l': "tx_response m l1 = Some l'" "lora_wf l'" "m_state l' = READY" "m_rxCount l' = m_rxCount l"
      "m_txCount l' = m_txCount l + 1 \<and> m_txErrors l' = m_txErrors l \<or> m_txCount l' = m_txCount l \<and> m_txErrors l' = m_txErrors l + 1"
      by blast
    have "dataIn_handler payload l w = Some (l', w3)" using run l'(1) by simp
    moreover have "take (length (?text @ [13, 10])) (?text @ [13, 10]) = ?text @ [13, 10]" by simp
    ultimately show ?case using l'(2-5) wire by blast
  qed
  then show ?thesis by (simp only: Let_def append.assoc append_Cons)
qed

lemma dataIn_returns:
  assumes "world_wf w" "live_clock (w_clock w)" "lora_wf l"
  shows "\<exists>l' w' k. let frame = ascii ''AT+SEND=0,'' @ nat_text (length payload) @ 44 # payload @ [13, 10] in
    dataIn_handler payload l w = Some (l', w') \<and> lora_wf l' \<and> m_state l' = m_state l \<and> m_rxCount l' = m_rxCount l
    \<and> (if m_state l \<noteq> READY then l' = l \<and> w' = w
       else if 80 < length payload
       then l' = l\<lparr>lora_out := lora_out l @ [LogPayloadTooLarge (of_nat (length payload))]\<rparr> \<and> w' = w
       else wired HAL_UART0 (take k frame) w w'
         \<and> (m_txCount l' = m_txCount l + 1 \<and> m_txErrors l' = m_txErrors l \<and> take k frame = frame
            \<or> m_txCount l' = m_txCount l \<and> m_txErrors l' = m_txErrors l + 1))"
proof (cases "m_state l = READY \<and> length payload \<le> 80")
  case True
  then show ?thesis using dataIn_sends [OF assms, of payload] by (simp add: Let_def not_less)
next
  case False
  then show ?thesis
    using assms(3) by (auto simp: dataIn_handler_def LORA_PAYLOAD_MAX_def lora_emit_def lora_wf_def Let_def)
qed

text \<open>
  C2: \<open>dataIn_handler\<close> always returns. Outside READY it does nothing; a payload above 80 bytes is
  reported and dropped; neither touches a counter or the hardware. Otherwise the wire carries a
  prefix of \<open>AT+SEND=0,<length>,<payload>\<close> CR LF and nothing else; exactly one of the two counters
  goes up by one, and it is the packet counter only if the whole frame was sent.
\<close>

theorem dataIn_transmits:
  assumes "world_wf w" "live_clock (w_clock w)" "lora_wf l"
  shows "\<exists>l' w' k. let frame = ascii ''AT+SEND=0,'' @ nat_text (length payload) @ 44 # payload @ [13, 10] in
    dataIn_handler payload l w = Some (l', w') \<and> lora_wf l' \<and> m_state l' = m_state l \<and> m_rxCount l' = m_rxCount l
    \<and> (if m_state l \<noteq> READY then l' = l \<and> w' = w
       else if 80 < length payload
       then l' = l\<lparr>lora_out := lora_out l @ [LogPayloadTooLarge (of_nat (length payload))]\<rparr> \<and> w' = w
       else wired HAL_UART0 (take k frame) w w'
         \<and> (m_txCount l' = m_txCount l + 1 \<and> m_txErrors l' = m_txErrors l \<and> take k frame = frame
            \<or> m_txCount l' = m_txCount l \<and> m_txErrors l' = m_txErrors l + 1))"
  by (rule dataIn_returns [OF assms])

lemma dataIn_transmits_witness:
  "\<exists>l' w'. dataIn_handler (ascii ''HELLO'') (lora_init\<lparr>m_state := READY\<rparr>) (sim_world (ascii ''+OK'' @ [13, 10]) []) = Some (l', w')
    \<and> m_txCount l' + m_txErrors l' = 1"
proof -
  have "lora_wf (lora_init\<lparr>m_state := READY\<rparr>)" using lora_init_wf by (simp add: lora_wf_def)
  from dataIn_transmits [OF _ _ this, of "sim_world (ascii ''+OK'' @ [13, 10]) []" "ascii ''HELLO''"]
  show ?thesis by (auto simp: lora_init_def Let_def)
qed

lemma lora_schedIn_returns:
  assumes "world_wf w" "lora_wf l"
  shows "\<exists>l' w'. lora_schedIn_handler l w = Some (l', w') \<and> lora_wf l' \<and> m_state l' = m_state l
    \<and> m_txCount l' = m_txCount l \<and> m_txErrors l' = m_txErrors l \<and> world_wf w' \<and> later w w'"
proof (cases "m_state l = READY")
  case True
  obtain bs w' where d: "drain (hal_poll HAL_UART0) lora_byte 256 l w = map_option (\<lambda>l'. (l', w')) (foldM lora_byte bs l)"
      "world_wf w'" "later w w'"
    using uart0.drain_feeds [where ?'s = lora, OF assms(1), of 256] by blast
  obtain l' where "foldM lora_byte bs l = Some l'" "rx_keeps l l'" using lora_bytes_safe [OF assms(2)] by blast
  with d True show ?thesis by (auto simp: lora_schedIn_drain [OF assms(1)] rx_keeps_def)
next
  case False
  with assms show ?thesis by (simp add: lora_schedIn_handler_def)
qed

text \<open>
  C14: Every poll in READY, on any bytes and whatever is left of an earlier line, returns, stays in its
  buffers, and does exactly what the lines among the bytes taken from the ring call for, in order: a
  \<open>+RCV=\<close> line that parses is counted and published with RSSI and SNR, any other line is dropped, the
  128th character of a line discards it with \<open>AtBufOverrun\<close>, and an unfinished line is kept for the
  next poll.
\<close>

theorem lora_poll_refines:
  assumes "world_wf w" "lora_wf l" "m_state l = READY"
  shows "\<exists>bs acc w' l'. rx_list HAL_UART0 w @ acc = bs @ rx_list HAL_UART0 w' \<and> length bs \<le> 256
    \<and> (length bs < 256 \<longrightarrow> rx_list HAL_UART0 w' = []) \<and> (rx_quiet HAL_UART0 w \<longrightarrow> acc = []) \<and> world_wf w' \<and> later w w'
    \<and> lora_schedIn_handler l w = Some (l', w') \<and> lora_wf l' \<and> lora_pending l' = snd (assemble 127 (lora_pending l) bs)
    \<and> lora_core l' = lora_core (fold (item_effect rcv_effect (lora_emit LogAtBufOverrun)) (fst (assemble 127 (lora_pending l) bs)) l)"
  using lora_rx.tick [OF assms(1,2), of 256] assms(3)
  by (simp add: lora_schedIn_drain [OF assms(1)] split_beta Let_def)

lemma lora_poll_refines_witness:
  "\<exists>bs w' l'. lora_schedIn_handler (lora_init\<lparr>m_state := READY\<rparr>) (sim_world (ascii ''+READY'' @ [13, 10]) []) = Some (l', w')
    \<and> bs @ rx_list HAL_UART0 w' = ascii ''+READY'' @ [13, 10] \<and> lora_pending l' = snd (assemble 127 [] bs)"
proof -
  let ?l = "lora_init\<lparr>m_state := READY\<rparr>" and ?w = "sim_world (ascii ''+READY'' @ [13, 10]) []"
  have l: "lora_wf ?l" "m_state ?l = READY" "lora_pending ?l = []"
    using lora_init_wf by (simp_all add: lora_wf_def lora_pending_def lora_init_def)
  have w: "world_wf ?w" "rx_quiet HAL_UART0 ?w" "rx_list HAL_UART0 ?w = ascii ''+READY'' @ [13, 10]" by simp_all
  from lora_poll_refines [OF w(1) l(1,2)] show ?thesis unfolding l(3) w(3) using w(2) by fastforce
qed

text \<open>
  A packet line that arrives while the line buffer is empty is counted and published with its
  RSSI and SNR, in this order, and leaves the ring and the buffer empty.
\<close>

theorem lora_packet_received:
  assumes "world_wf w" "rx_quiet HAL_UART0 w" "lora_wf l" "m_state l = READY" "m_atBufLen l = 0"
    and "rx_list HAL_UART0 w = L @ [13, 10]" "\<forall>c \<in> set L. c \<noteq> 10 \<and> c \<noteq> 13" "length L \<le> 127"
    and "5 \<le> length L" "take 5 L = ascii ''+RCV=''" "\<And>rest. parseRcv (L @ 0 # rest) = Some (True, rssi, snr)"
  shows "\<exists>l' w'. lora_schedIn_handler l w = Some (l', w') \<and> m_rxCount l' = m_rxCount l + 1 \<and> m_atBufLen l' = 0
    \<and> lora_out l' = lora_out l @ [TlmLastRxRssi rssi, TlmLastRxSnr snr, TlmRxPacketCount (m_rxCount l + 1), LogPacketReceived rssi snr]
    \<and> rx_list HAL_UART0 w' = []"
proof -
  obtain l1 r where l1: "foldM lora_byte (L @ [13, 10]) l = lora_byte 10 l1" "lora_wf l1"
    "m_atBuf l1 = L @ r" "m_atBufLen l1 = length L" "m_rxCount l1 = m_rxCount l" "lora_out l1 = lora_out l"
    by (rule lora_line [OF assms(7,3)]) (use assms(5,8) in auto)
  let ?l' = "rx_packet rssi snr (l1\<lparr>m_atBuf := L @ 0 # tl r\<rparr>)\<lparr>m_atBufLen := 0\<rparr>"
  have run: "foldM lora_byte (rx_list HAL_UART0 w) l = Some ?l'"
    using l1(1) lora_line_end [OF l1(2-4)] assms(6,9-11) by simp
  have "length (rx_list HAL_UART0 w) < 256" using assms(6,8) by simp
  from uart0.drain_quiet [OF assms(1,2) this run] assms(4) l1(5,6) show ?thesis
    by (auto simp: lora_schedIn_drain [OF assms(1)])
qed

lemma lora_packet_received_witness:
  "\<exists>l' w'. lora_schedIn_handler (lora_init\<lparr>m_state := READY\<rparr>) (sim_world (ascii ''+RCV=50,5,HELLO,-99,-7.5'' @ [13, 10]) []) = Some (l', w')
    \<and> lora_out l' = [TlmLastRxRssi (- 99), TlmLastRxSnr (- 75), TlmRxPacketCount 1, LogPacketReceived (- 99) (- 75)]"
proof -
  let ?L = "ascii ''+RCV=50,5,HELLO,-99,-7.5''"
  have p: "parseRcv (?L @ 0 # rest) = Some (True, - 99, - 75)" for rest
    using parseRcv_text [of "ascii ''50''" "ascii ''5''" "ascii ''HELLO''" "ascii ''99''" "ascii ''7''" "Some 53" True True rest]
    by (simp add: plain_field_def is_digit_def dec_def digit_val_def rcv_line_def signed_text_def sgn_of_def to_i16_small)
  let ?l = "lora_init\<lparr>m_state := READY\<rparr>" and ?w = "sim_world (?L @ [13, 10]) []"
  have l: "lora_wf ?l" "m_state ?l = READY" "m_atBufLen ?l = 0" "lora_out ?l = []" "m_rxCount ?l = 0"
    by (simp_all add: lora_wf_def lora_init_def LORA_AT_BUF_SIZE_def)
  have w: "world_wf ?w" "rx_quiet HAL_UART0 ?w" "rx_list HAL_UART0 ?w = ?L @ [13, 10]" by simp_all
  have c: "\<forall>c \<in> set ?L. c \<noteq> 10 \<and> c \<noteq> 13" "length ?L \<le> 127" "5 \<le> length ?L" "take 5 ?L = ascii ''+RCV=''" by simp_all
  show ?thesis using lora_packet_received [OF w(1,2) l(1-3) w(3) c p] l(4,5) by auto
qed

text \<open>
  A response line that is in the ring when \<open>readATLine\<close> starts, and that is read before the
  deadline, is returned whole: its length is the result, its characters without carriage returns are
  in \<open>m_atBuf\<close>, and reading stops right behind its line feed.
\<close>

theorem response_line_read:
  assumes "world_wf w" "live_clock (w_clock w)" "lora_wf l" "rx_list HAL_UART0 w = body @ 10 # rest" "10 \<notin> set body"
    and "\<forall>i \<le> length body. w_clock w (Suc (w_reads w) + i) < w_clock w (w_reads w) + ucast t"
    and "filter (\<lambda>c. c \<noteq> 13) body \<noteq> []" "length (filter (\<lambda>c. c \<noteq> 13) body) \<le> 127"
  shows "\<exists>l' w' acc. readATLine t l w = Some (length (filter (\<lambda>c. c \<noteq> 13) body), l', w')
    \<and> m_atBufLen l' = length (filter (\<lambda>c. c \<noteq> 13) body)
    \<and> take (m_atBufLen l') (m_atBuf l') = filter (\<lambda>c. c \<noteq> 13) body
    \<and> rx_list HAL_UART0 w' = rest @ acc \<and> (rx_quiet HAL_UART0 w \<longrightarrow> acc = [])"
  by (rule readATLine_line [OF assms])

lemma sim_response:
  fixes w defines "w \<equiv> sim_world (ascii ''+OK'' @ [13, 10, 65]) []"
  shows "world_wf w" "live_clock (w_clock w)" "rx_list HAL_UART0 w = (ascii ''+OK'' @ [13]) @ 10 # [65]"
    "\<forall>i \<le> length (ascii ''+OK'' @ [13]). w_clock w (Suc (w_reads w) + i) < w_clock w (w_reads w) + ucast (200000 :: u32)"
    "10 \<notin> set (ascii ''+OK'' @ [13])" "filter (\<lambda>c. c \<noteq> 13) (ascii ''+OK'' @ [13]) = [43, 79, 75]"
proof -
  show "\<forall>i \<le> length (ascii ''+OK'' @ [13]). w_clock w (Suc (w_reads w) + i) < w_clock w (w_reads w) + ucast (200000 :: u32)"
    by (auto simp: w_def sim_world_def le_Suc_eq)
qed (simp_all add: w_def)

lemma response_line_read_witness:
  "\<exists>l' w'. readATLine 200000 lora_init (sim_world (ascii ''+OK'' @ [13, 10, 65]) []) = Some (3, l', w')
    \<and> take 3 (m_atBuf l') = [43, 79, 75]"
proof -
  have "filter (\<lambda>c. c \<noteq> 13) (ascii ''+OK'' @ [13]) \<noteq> []" "length (filter (\<lambda>c. c \<noteq> 13) (ascii ''+OK'' @ [13])) \<le> 127"
    by (simp_all only: sim_response(6)) simp_all
  from response_line_read [OF sim_response(1,2) lora_init_wf sim_response(3,5,4) this]
  show ?thesis unfolding sim_response(6) by (auto simp: eval_nat_numeral)
qed

lemma rcv_second: "take 5 M = ascii ''+RCV='' \<Longrightarrow> M ! 1 = 82"
proof -
  assume t: "take 5 M = ascii ''+RCV=''"
  have "M ! 1 = take 5 M ! 1" by simp
  also have "\<dots> = 82" unfolding t by simp
  finally show ?thesis .
qed

text \<open>
  C36: \<open>readATLine\<close> leaves the length of the response in \<open>m_atBufLen\<close>. The next packet line is then
  appended to the response instead of replacing it, is no longer recognised, and is lost without any
  event or count.
\<close>

theorem response_swallows_packet:
  assumes "world_wf w" "live_clock (w_clock w)" "lora_wf l" "readATLine t l w = Some (n, l', w')"
    and "2 \<le> n" "m_atBuf l' ! 1 \<noteq> 82" "\<forall>c \<in> set L. c \<noteq> 10 \<and> c \<noteq> 13" "n + length L \<le> 127"
  shows "\<exists>l''. foldM lora_byte (L @ [13, 10]) l' = Some l'' \<and> lora_out l'' = lora_out l'
    \<and> m_rxCount l'' = m_rxCount l' \<and> m_atBufLen l'' = 0"
proof -
  have "read_result (l\<lparr>m_atBufLen := 0\<rparr>) w n l' w'" using readATLine_returns [OF assms(1-3), of t] assms(4) by auto
  note f = read_result_facts [OF this]
  have n: "m_atBufLen l' = n" using f(3) assms(5) by simp
  let ?M = "take (m_atBufLen l') (m_atBuf l') @ L"
  obtain l1 r where l1: "foldM lora_byte (L @ [13, 10]) l' = lora_byte 10 l1" "lora_wf l1"
    "m_atBuf l1 = ?M @ r" "m_atBufLen l1 = length ?M" "m_rxCount l1 = m_rxCount l'" "lora_out l1 = lora_out l'"
    by (rule lora_line [OF assms(7) f(4)]) (use assms(8) n in auto)
  have len: "length (m_atBuf l') = 128" using f(4) by (simp add: lora_wf_def)
  have "?M ! 1 = m_atBuf l' ! 1" using n assms(5,8) len by (simp add: nth_append)
  then have "\<not> (5 \<le> length ?M \<and> take 5 ?M = ascii ''+RCV='')"
    using rcv_second [of ?M] assms(6) by metis
  then have "lora_byte 10 l1 = Some (l1\<lparr>m_atBuf := ?M @ 0 # tl r, m_atBufLen := 0\<rparr>)"
    unfolding lora_line_end [OF l1(2-4)] by (rule if_not_P)
  with l1 show ?thesis by auto
qed

lemma response_swallows_packet_witness:
  "\<exists>l' w' l''. readATLine 200000 lora_init (sim_world (ascii ''+OK'' @ [13, 10, 65]) []) = Some (3, l', w')
    \<and> foldM lora_byte (ascii ''+RCV=1,2,HI,-9,7'' @ [13, 10]) l' = Some l'' \<and> lora_out l'' = lora_out l'"
proof -
  let ?w = "sim_world (ascii ''+OK'' @ [13, 10, 65]) []" and ?L = "ascii ''+RCV=1,2,HI,-9,7''"
  have "filter (\<lambda>c. c \<noteq> 13) (ascii ''+OK'' @ [13]) \<noteq> []" "length (filter (\<lambda>c. c \<noteq> 13) (ascii ''+OK'' @ [13])) \<le> 127"
    by (simp_all only: sim_response(6)) simp_all
  from readATLine_line [OF sim_response(1,2) lora_init_wf sim_response(3,5,4) this]
  obtain l' w' where r: "readATLine 200000 lora_init ?w = Some (3, l', w')" "m_atBufLen l' = 3"
      "take (m_atBufLen l') (m_atBuf l') = [43, 79, 75]"
    unfolding sim_response(6) by (auto simp: eval_nat_numeral)
  have "m_atBuf l' ! 1 = take 3 (m_atBuf l') ! 1" by simp
  also have "\<dots> = 79" using r(2,3) by simp
  finally have ne: "m_atBuf l' ! 1 \<noteq> 82" by simp
  have L: "\<forall>c \<in> set ?L. c \<noteq> 10 \<and> c \<noteq> 13" "3 + length ?L \<le> 127" by simp_all
  from response_swallows_packet [OF sim_response(1,2) lora_init_wf r(1) _ ne L] r(1) show ?thesis by auto
qed

text \<open>
  What a command that goes through \<open>sendAT\<close> does: the text and CR LF, or a prefix of them, on the wire;
  one command response at the end, \<open>OK\<close> only if all was sent; the module state unchanged.
\<close>

definition at_command :: "u32 \<Rightarrow> u32 \<Rightarrow> bytes \<Rightarrow> lora \<Rightarrow> world \<Rightarrow> (lora \<times> world) option \<Rightarrow> bool" where
  "at_command op seq text l w r \<longleftrightarrow> (\<exists>ok l' w' k j. r = Some (l', w') \<and> lora_wf l' \<and> m_state l' = m_state l
     \<and> wired HAL_UART0 (take k (at_frame text)) w w' \<and> (ok \<longrightarrow> take k (at_frame text) = at_frame text)
     \<and> lora_out l' = lora_out l @ replicate j LogAtBufOverrun @ [LoraCmdResponse op seq (if ok then CmdOK else EXECUTION_ERROR)])"

lemma at_command_sendAT:
  assumes "world_wf w" "live_clock (w_clock w)" "lora_wf l" "0 \<notin> set s" "length s \<le> 126"
  shows "at_command op seq s l w
    (do { (ok, l, w) \<leftarrow> sendAT (s @ [0]) LORA_AT_TIMEOUT_US l w; Some (cmd_respond op seq ok l, w) })"
proof -
  obtain ok l' w' k where r: "sendAT (s @ [0]) LORA_AT_TIMEOUT_US l w = Some (ok, l', w')" "at_keeps l l'"
      "wired HAL_UART0 (take k (at_frame s)) w w'" "ok \<longrightarrow> at_frame s = take k (at_frame s)"
    using sendAT_returns [OF assms, of LORA_AT_TIMEOUT_US] by blast
  obtain j where "lora_out l' = lora_out l @ replicate j LogAtBufOverrun" using r(2) by (auto simp: at_keeps_def)
  with r show ?thesis
    unfolding at_command_def
    by (intro exI [of _ ok] exI [of _ "cmd_respond op seq ok l'"] exI [of _ w'] exI [of _ k] exI [of _ j])
      (simp add: cmd_respond_def lora_emit_def at_keeps_def lora_wf_def)
qed

lemma config_commands_return:
  assumes "world_wf w" "live_clock (w_clock w)" "lora_wf l"
  shows "at_command op seq (ascii ''AT+BAND='' @ nat_text (unat (f * 1000))) l w (LORA_SET_FREQ_cmdHandler op seq f l w)
    \<and> (if 7 \<le> sf \<and> sf \<le> 12
       then at_command op seq (ascii ''AT+PARAMETER='' @ (48 + sf) # ascii '',7,1,12'') l w (LORA_SET_SF_cmdHandler op seq sf l w)
       else LORA_SET_SF_cmdHandler op seq sf l w = Some (l\<lparr>lora_out := lora_out l @ [LoraCmdResponse op seq VALIDATION_ERROR]\<rparr>, w))
    \<and> (if p \<le> 22
       then at_command op seq (ascii ''AT+CRFOP='' @ nat_text (unat p)) l w (LORA_SET_POWER_cmdHandler op seq p l w)
       else LORA_SET_POWER_cmdHandler op seq p l w = Some (l\<lparr>lora_out := lora_out l @ [LoraCmdResponse op seq VALIDATION_ERROR]\<rparr>, w))"
proof (intro conjI)
  have "length (nat_text (unat (f * 1000))) \<le> 10" by (rule nat_text_u32)
  then show "at_command op seq (ascii ''AT+BAND='' @ nat_text (unat (f * 1000))) l w (LORA_SET_FREQ_cmdHandler op seq f l w)"
    using at_command_sendAT [OF assms, of "ascii ''AT+BAND='' @ nat_text (unat (f * 1000))" op seq]
    by (simp add: LORA_SET_FREQ_cmdHandler_def freq_cmd_text)
  show "if 7 \<le> sf \<and> sf \<le> 12
       then at_command op seq (ascii ''AT+PARAMETER='' @ (48 + sf) # ascii '',7,1,12'') l w (LORA_SET_SF_cmdHandler op seq sf l w)
       else LORA_SET_SF_cmdHandler op seq sf l w = Some (l\<lparr>lora_out := lora_out l @ [LoraCmdResponse op seq VALIDATION_ERROR]\<rparr>, w)"
  proof (cases "7 \<le> sf \<and> sf \<le> 12")
    case True
    have "unat (48 + sf) = 48 + unat sf"
      using True by (subst unat_add_lem [THEN iffD1]) (auto simp: word_le_nat_alt)
    then have "(48 + sf) \<noteq> 0" by (metis add_is_0 unat_0 zero_neq_numeral)
    moreover have "\<not> (sf < 7 \<or> sf > 12)" using True by (simp add: not_less)
    ultimately show ?thesis
      using at_command_sendAT [OF assms, of "ascii ''AT+PARAMETER='' @ (48 + sf) # ascii '',7,1,12''" op seq] True
      by (simp add: LORA_SET_SF_cmdHandler_def sf_cmd_text del: de_Morgan_disj)
  next
    case False
    then have "sf < 7 \<or> sf > 12" by (auto simp: not_le)
    then show ?thesis unfolding if_not_P [OF False] by (simp add: LORA_SET_SF_cmdHandler_def lora_emit_def)
  qed
  show "if p \<le> 22
       then at_command op seq (ascii ''AT+CRFOP='' @ nat_text (unat p)) l w (LORA_SET_POWER_cmdHandler op seq p l w)
       else LORA_SET_POWER_cmdHandler op seq p l w = Some (l\<lparr>lora_out := lora_out l @ [LoraCmdResponse op seq VALIDATION_ERROR]\<rparr>, w)"
  proof (cases "p \<le> 22")
    case True
    have "unat p < 10 ^ 2" using True by (simp add: word_le_nat_alt)
    then have "length (nat_text (unat p)) \<le> 2" by (intro nat_text_le) simp_all
    moreover have "\<not> p > 22" using True by (simp add: not_less)
    ultimately show ?thesis
      using at_command_sendAT [OF assms, of "ascii ''AT+CRFOP='' @ nat_text (unat p)" op seq] True
      by (simp add: LORA_SET_POWER_cmdHandler_def power_cmd_text)
  next
    case False
    then have "p > 22" by (simp add: not_le)
    then show ?thesis unfolding if_not_P [OF False] by (simp add: LORA_SET_POWER_cmdHandler_def lora_emit_def)
  qed
qed

text \<open>
  C37: The configuration commands send one AT command each and answer with exactly one response; a
  spreading factor outside 7 to 12 and a power above 22 dBm are refused without touching the module.
\<close>

theorem lora_config_commands:
  assumes "world_wf w" "live_clock (w_clock w)" "lora_wf l"
  shows "at_command op seq (ascii ''AT+BAND='' @ nat_text (unat (f * 1000))) l w (LORA_SET_FREQ_cmdHandler op seq f l w)
    \<and> (if 7 \<le> sf \<and> sf \<le> 12
       then at_command op seq (ascii ''AT+PARAMETER='' @ (48 + sf) # ascii '',7,1,12'') l w (LORA_SET_SF_cmdHandler op seq sf l w)
       else LORA_SET_SF_cmdHandler op seq sf l w = Some (l\<lparr>lora_out := lora_out l @ [LoraCmdResponse op seq VALIDATION_ERROR]\<rparr>, w))
    \<and> (if p \<le> 22
       then at_command op seq (ascii ''AT+CRFOP='' @ nat_text (unat p)) l w (LORA_SET_POWER_cmdHandler op seq p l w)
       else LORA_SET_POWER_cmdHandler op seq p l w = Some (l\<lparr>lora_out := lora_out l @ [LoraCmdResponse op seq VALIDATION_ERROR]\<rparr>, w))"
  by (rule config_commands_return [OF assms])

lemma lora_config_commands_witness:
  "at_command 1 2 (ascii ''AT+PARAMETER='' @ 57 # ascii '',7,1,12'') lora_init (sim_world [] [])
     (LORA_SET_SF_cmdHandler 1 2 9 lora_init (sim_world [] []))
   \<and> LORA_SET_POWER_cmdHandler 1 2 30 lora_init (sim_world [] [])
     = Some (lora_init\<lparr>lora_out := [LoraCmdResponse 1 2 VALIDATION_ERROR]\<rparr>, sim_world [] [])"
proof -
  have out: "lora_out lora_init = []" by (simp add: lora_init_def)
  from lora_config_commands [OF _ _ lora_init_wf, of "sim_world [] []" 1 2 868000 9 30]
  show ?thesis unfolding out by simp
qed

lemma LORA_RESET_returns:
  assumes "world_wf w" "live_clock (w_clock w)" "lora_wf l"
  shows "\<exists>l' w' bs k. LORA_RESET_cmdHandler op seq l w = Some (l', w') \<and> lora_wf l' \<and> wired HAL_UART0 bs w w'
    \<and> (m_state l' = READY \<and> (\<exists>pre. bs = pre @ init_script)
         \<and> lora_out l' = lora_out l @ replicate k LogAtBufOverrun @ [LogModuleReady, TlmModuleState 1, LoraCmdResponse op seq CmdOK]
       \<or> m_state l' = ERROR
         \<and> lora_out l' = lora_out l @ replicate k LogAtBufOverrun @ [LogInitFailed 3, TlmModuleState 2, LoraCmdResponse op seq EXECUTION_ERROR])"
proof -
  obtain ok l1 w1 bs where r: "initModule l w = Some (ok, l1, w1)" "at_keeps l l1" "wired HAL_UART0 bs w w1"
      "ok \<longrightarrow> (\<exists>pre. bs = pre @ init_script \<and> length pre \<le> 8)"
    using initModule_returns [OF assms] by blast
  obtain k where k: "lora_out l1 = lora_out l @ replicate k LogAtBufOverrun" "lora_wf l1"
    using r(2) by (auto simp: at_keeps_def)
  let ?l = "l1\<lparr>m_state := (if ok then READY else ERROR), lora_out := lora_out l1
      @ (if ok then [LogModuleReady, TlmModuleState 1, LoraCmdResponse op seq CmdOK]
         else [LogInitFailed 3, TlmModuleState 2, LoraCmdResponse op seq EXECUTION_ERROR])\<rparr>"
  have "LORA_RESET_cmdHandler op seq l w = Some (?l, w1)"
    using r(1) by (cases ok) (simp_all add: LORA_RESET_cmdHandler_def cmd_respond_def lora_emit_def lora_state_code_def
        LORA_INIT_RETRIES_def Let_def)
  moreover have "lora_wf ?l" using k(2) by (simp add: lora_wf_def)
  moreover have "ok \<longrightarrow> (\<exists>pre. bs = pre @ init_script)" using r(4) by blast
  ultimately show ?thesis
    using k(1) r(3) by (intro exI [of _ ?l] exI [of _ w1] exI [of _ bs] exI [of _ k]) simp
qed

text \<open>
  \<open>LORA_RESET\<close> runs the initialisation again: it always returns, leaves READY with response OK or
  ERROR with response EXECUTION_ERROR, and in READY the whole configuration script has been sent.
\<close>

theorem lora_reset:
  assumes "world_wf w" "live_clock (w_clock w)" "lora_wf l"
  shows "\<exists>l' w' bs k. LORA_RESET_cmdHandler op seq l w = Some (l', w') \<and> lora_wf l' \<and> wired HAL_UART0 bs w w'
    \<and> (m_state l' = READY \<and> (\<exists>pre. bs = pre @ init_script)
         \<and> lora_out l' = lora_out l @ replicate k LogAtBufOverrun @ [LogModuleReady, TlmModuleState 1, LoraCmdResponse op seq CmdOK]
       \<or> m_state l' = ERROR
         \<and> lora_out l' = lora_out l @ replicate k LogAtBufOverrun @ [LogInitFailed 3, TlmModuleState 2, LoraCmdResponse op seq EXECUTION_ERROR])"
  by (rule LORA_RESET_returns [OF assms])

lemma lora_reset_witness:
  "\<exists>l' w'. LORA_RESET_cmdHandler 1 2 lora_init (sim_world [] []) = Some (l', w') \<and> m_state l' \<noteq> UNINIT"
  using lora_reset [of "sim_world [] []" lora_init 1 2] lora_init_wf by auto

end
