(* ===== verification/Timing.thy ===== *)
theory Timing
  imports LoraRun
begin

text \<open>
  How long the waiting loops of the UART driver and of the LoRa driver wait, by the readings they take
  of the microsecond timer: the \<open>n\<close>-th reading is \<open>w_clock w n\<close> and a call that started in \<open>w\<close> and
  ended in \<open>w'\<close> took the readings \<open>w_reads w\<close> up to \<open>w_reads w' - 1\<close>. The loops stop at the first
  reading that has reached the deadline, so a wait lasts as long as its timeout and, if successive
  readings are at most \<open>\<delta>\<close> microseconds apart, at most \<open>\<delta>\<close> longer.
\<close>

subsection \<open>Readings\<close>

definition reads_all :: "(u64 \<Rightarrow> bool) \<Rightarrow> world \<Rightarrow> world \<Rightarrow> bool" where
  "reads_all P w w' \<longleftrightarrow> w_clock w' = w_clock w \<and> w_reads w \<le> w_reads w'
     \<and> (\<forall>n. w_reads w \<le> n \<and> n < w_reads w' \<longrightarrow> P (w_clock w n))"

text \<open>All readings but the last satisfy \<open>P\<close>.\<close>

definition reads_but_last :: "(u64 \<Rightarrow> bool) \<Rightarrow> world \<Rightarrow> world \<Rightarrow> bool" where
  "reads_but_last P w w' \<longleftrightarrow> w_clock w' = w_clock w \<and> w_reads w \<le> w_reads w'
     \<and> (\<forall>n. w_reads w \<le> n \<and> Suc n < w_reads w' \<longrightarrow> P (w_clock w n))"

lemma reads_all_refl: "reads_all P w w"
  by (auto simp: reads_all_def)

lemma reads_all_but_last: "reads_all P w w' \<Longrightarrow> reads_but_last P w w'"
  by (simp add: reads_all_def reads_but_last_def)

lemma reads_all_trans: "reads_all P w w1 \<Longrightarrow> reads_all P w1 w2 \<Longrightarrow> reads_all P w w2"
  unfolding reads_all_def by (metis le_trans not_le)

lemma reads_all_then: "reads_all P w w1 \<Longrightarrow> reads_but_last P w1 w2 \<Longrightarrow> reads_but_last P w w2"
  unfolding reads_all_def reads_but_last_def by (metis Suc_lessD le_trans not_le)

lemma serve_irqs_reads: "serve_irqs w = Some w' \<Longrightarrow> reads_all P w w'"
  by (auto simp: serve_irqs_def uart0_rx_irq_handler_def uart1_rx_irq_handler_def reads_all_def Option.bind_eq_Some_conv)

lemma hal_time_us_reads:
  assumes "hal_time_us w = Some (t, w')"
  shows "t = w_clock w (w_reads w)" "w_reads w' = Suc (w_reads w)" "reads_but_last P w w'" "P t \<Longrightarrow> reads_all P w w'"
  using assms serve_irqs_reads [of w]
  by (auto simp: hal_time_us_def reads_all_def reads_but_last_def Option.bind_eq_Some_conv le_less_Suc_eq)

lemma uart_is_writable_reads: "uart_is_writable u w = Some (b, w') \<Longrightarrow> reads_all P w w'"
  by (auto simp: uart_is_writable_def Option.bind_eq_Some_conv intro: serve_irqs_reads)

lemma hal_uart_getc_reads: "hal_uart_getc u b w = Some (rc, b', w') \<Longrightarrow> reads_all P w w'"
  by (auto simp: hal_uart_getc_def Option.bind_eq_Some_conv set_rx_def reads_all_def dest!: serve_irqs_reads [where P = P] split: if_splits)

lemma uart_putc_raw_reads: "reads_all P w (uart_putc_raw u c w)"
  by (auto simp: reads_all_def uart_putc_raw_def)

subsection \<open>The loops\<close>

text \<open>Until it gives up, a loop has read only times before the deadline.\<close>

lemma uart_wait_writable_reads:
  "uart_wait_writable u d w = Some (ready, w') \<Longrightarrow>
     reads_but_last (\<lambda>t. t < d) w w' \<and> (ready \<longrightarrow> reads_all (\<lambda>t. t < d) w w')"
proof -
  let ?Q = "\<lambda>w (r :: bool \<times> world). reads_but_last (\<lambda>t. t < d) w (snd r) \<and> (fst r \<longrightarrow> reads_all (\<lambda>t. t < d) w (snd r))"
  have "d' = d \<longrightarrow> ?Q w r" if "uart_wait_writable u d' w = Some r" for d' w r
  proof (rule uart_wait_writable.raw_induct [where P = "\<lambda>u d' w r. d' = d \<longrightarrow> ?Q w r", OF _ that], goal_cases)
    case (1 loop u d' w r)
    have rec: "on_return (?Q w) (loop u d w2)" if "reads_all (\<lambda>t. t < d) w w2" "d' = d" for w2
      using 1(1) reads_all_then [OF that(1)] reads_all_trans [OF that(1)] that(2) by (auto simp: on_return_def)
    show ?case
    proof
      assume d: "d' = d"
      show "?Q w r"
        by (rule postD [OF _ 1(2)], unfold d, intro post_rules rec)
          (auto intro: reads_all_but_last reads_all_trans uart_is_writable_reads reads_all_then hal_time_us_reads
            simp: d not_le)
    qed
  qed
  then show "uart_wait_writable u d w = Some (ready, w') \<Longrightarrow> ?thesis" by fastforce
qed

lemma uart_write_loop_reads:
  "on_return (\<lambda>(rc, w'). reads_but_last (\<lambda>t. t < d) w w' \<and> (rc = HAL_OK \<longrightarrow> reads_all (\<lambda>t. t < d) w w'))
     (uart_write_loop u d buf len i w)"
proof (induction u d buf len i w rule: uart_write_loop.induct)
  case (1 u d buf len i w)
  let ?Q = "\<lambda>w (rc, w'). reads_but_last (\<lambda>t. t < d) w w' \<and> (rc = HAL_OK \<longrightarrow> reads_all (\<lambda>t. t < d) w w')"
  have rec: "on_return (?Q w) (uart_write_loop u d buf len (Suc i) (uart_putc_raw u c w1))"
    if "i < len" "uart_wait_writable u d w = Some (True, w1)" "rd buf i = Some c" for c w1
  proof -
    have "reads_all (\<lambda>t. t < d) w (uart_putc_raw u c w1)"
      using uart_wait_writable_reads [OF that(2)] reads_all_trans uart_putc_raw_reads by blast
    with 1 [OF that(1,2) refl _ that(3)] show ?thesis
      by (auto simp: on_return_def intro: reads_all_then reads_all_trans)
  qed
  show ?case
    by (subst uart_write_loop.simps, intro post_rules)
      (auto simp: rec reads_all_refl reads_all_but_last dest: uart_wait_writable_reads)
qed

lemma read_at_loop_reads: "read_at_loop d l w = Some (n, l', w') \<Longrightarrow> reads_but_last (\<lambda>t. t < d) w w'"
proof -
  let ?Q = "\<lambda>w (r :: nat \<times> lora \<times> world). reads_but_last (\<lambda>t. t < d) w (snd (snd r))"
  have "d' = d \<longrightarrow> ?Q w r" if "read_at_loop d' l w = Some r" for d' l w r
  proof (rule read_at_loop.raw_induct [where P = "\<lambda>d' l w r. d' = d \<longrightarrow> ?Q w r", OF _ that], goal_cases)
    case (1 loop d' l w r)
    have rec: "on_return (?Q w) (loop d l' w2)"
      if "hal_time_us w = Some (t, w1)" "t < d" "hal_uart_getc HAL_UART0 0 w1 = Some (rc, b, w2)" "d' = d" for t w1 rc b w2 l'
    proof -
      have "reads_all (\<lambda>t. t < d) w w1" by (rule hal_time_us_reads(4) [OF that(1), where P = "\<lambda>t. t < d"]) (rule that(2))
      from reads_all_trans [OF this hal_uart_getc_reads [OF that(3)]] have "reads_all (\<lambda>t. t < d) w w2" .
      then have step: "?Q w2 r' \<Longrightarrow> ?Q w r'" for r' by (rule reads_all_then)
      show ?thesis
        unfolding on_return_def using 1(1) [of d l' w2] step that(4) by blast
    qed
    have done': "?Q w (m, l', w2)" if "hal_time_us w = Some (t, w1)" "t < d" "hal_uart_getc HAL_UART0 0 w1 = Some (rc, b, w2)" for t w1 rc b w2 m l'
      using hal_time_us_reads(4) [OF that(1), of "\<lambda>t. t < d"] that(2) hal_uart_getc_reads [OF that(3)]
      by (auto intro: reads_all_but_last reads_all_trans)
    show ?case
    proof
      assume d: "d' = d"
      show "?Q w r"
        by (rule postD [OF _ 1(2)], unfold d, intro post_rules; (rule rec | (simp add: hal_time_us_reads(3); fail) | rule done'); (assumption | simp add: d)?)
    qed
  qed
  then show "read_at_loop d l w = Some (n, l', w') \<Longrightarrow> ?thesis" by fastforce
qed

text \<open>
  \<open>waits T w w'\<close>: the first reading sets the deadline \<open>T\<close> microseconds ahead, the ones between it and
  the last are before the deadline.
\<close>

definition waits :: "u32 \<Rightarrow> world \<Rightarrow> world \<Rightarrow> bool" where
  "waits T w w' \<longleftrightarrow> w_clock w' = w_clock w \<and> w_reads w < w_reads w'
     \<and> (\<forall>n. w_reads w < n \<and> Suc n < w_reads w' \<longrightarrow> w_clock w n < w_clock w (w_reads w) + ucast T)"

lemma waitsI:
  assumes "hal_time_us w = Some (t, w1)" "reads_but_last (\<lambda>s. s < t + ucast T) w1 w'"
  shows "waits T w w'"
  using hal_time_us_reads(1,2) [OF assms(1)] hal_time_us_reads(3) [OF assms(1), of "\<lambda>_. True"] assms(2)
  by (auto simp: waits_def reads_but_last_def reads_all_def)

lemma hal_uart_write_waits: "hal_uart_write u (Some b) len T w = Some (rc, w') \<Longrightarrow> waits T w w'"
proof -
  have "on_return (\<lambda>(rc, w'). waits T w w') (hal_uart_write u (Some b) len T w)"
    unfolding hal_uart_write_def uart_write_def option.case Let_def
  proof (rule post_bind, rule post_pair)
    fix x t w1
    assume "hal_time_us w = Some x" "x = (t, w1)"
    then have t: "hal_time_us w = Some (t, w1)" by simp
    show "on_return (\<lambda>(rc, w'). waits T w w')
        (uart_write_loop (if u = HAL_UART0 then HAL_UART0 else HAL_UART1) (t + ucast T) b len 0 w1)"
      using uart_write_loop_reads [of "t + ucast T" w1 "if u = HAL_UART0 then HAL_UART0 else HAL_UART1" b len 0]
        waitsI [OF t] by (auto simp: on_return_def)
  qed
  then show "hal_uart_write u (Some b) len T w = Some (rc, w') \<Longrightarrow> waits T w w'" by (auto dest: postD)
qed

lemma readATLine_waits: "readATLine T l w = Some (n, l', w') \<Longrightarrow> waits T w w'"
  by (auto simp: readATLine_def Option.bind_eq_Some_conv intro: waitsI read_at_loop_reads)

subsection \<open>Upper bounds\<close>

text \<open>
  Successive readings are at most \<open>\<delta>\<close> microseconds apart, and the 64-bit timer is far from its end
  (2 to the 63 microseconds are 292,000 years).
\<close>

definition paced :: "nat \<Rightarrow> world \<Rightarrow> world \<Rightarrow> bool" where
  "paced \<delta> w w' \<longleftrightarrow> (\<forall>n. w_reads w \<le> n \<and> n < w_reads w' \<longrightarrow> uint (w_clock w n) < 2 ^ 63
     \<and> (Suc n < w_reads w' \<longrightarrow> uint (w_clock w (Suc n)) \<le> uint (w_clock w n) + int \<delta>))"

text \<open>From the first to the last reading at most \<open>B\<close> microseconds pass.\<close>

definition within :: "int \<Rightarrow> world \<Rightarrow> world \<Rightarrow> bool" where
  "within B w w' \<longleftrightarrow> w_clock w' = w_clock w \<and> w_reads w < w_reads w'
     \<and> uint (w_clock w (w_reads w' - 1)) \<le> uint (w_clock w (w_reads w)) + B"

lemma waits_within:
  assumes "waits T w w'" "paced \<delta> w w'"
  shows "within (uint T + int \<delta>) w w'"
proof -
  let ?t = "\<lambda>n. uint (w_clock w n)"
  have w: "w_clock w' = w_clock w" "w_reads w < w_reads w'" using assms(1) by (simp_all add: waits_def)
  have "uint T < 2 ^ LENGTH(32)" by (rule unsigned_less)
  then have T: "0 \<le> uint T" "uint T < 2 ^ 32" by simp_all
  have first: "?t (w_reads w) < 2 ^ 63" using assms(2) w(2) by (auto simp: paced_def)
  have dl: "uint (w_clock w (w_reads w) + ucast T) = ?t (w_reads w) + uint T"
    using first T by (simp add: uint_word_ariths unsigned_ucast_eq take_bit_eq_mod)
  have step: "?t (Suc n) \<le> ?t n + int \<delta>" if "w_reads w \<le> n" "Suc n < w_reads w'" for n
    using assms(2) that by (auto simp: paced_def)
  consider "w_reads w' = Suc (w_reads w)" | "w_reads w' = Suc (Suc (w_reads w))"
    | n where "w_reads w' = Suc (Suc n)" "w_reads w < n"
  proof -
    obtain k where k: "w_reads w' = Suc (w_reads w + k)" using less_imp_Suc_add [OF w(2)] by blast
    show ?thesis
    proof (cases k)
      case (Suc j)
      with k that(2) that(3) [of "w_reads w + j"] show ?thesis by (cases j) simp_all
    qed (use k that(1) in simp)
  qed
  then have "?t (w_reads w' - 1) \<le> ?t (w_reads w) + uint T + int \<delta>"
  proof cases
    case 1
    then show ?thesis using T by simp
  next
    case 2
    then have "?t (w_reads w' - 1) \<le> ?t (w_reads w) + int \<delta>" using step [of "w_reads w"] by simp
    with T(1) show ?thesis by linarith
  next
    case (3 n)
    then have "w_clock w n < w_clock w (w_reads w) + ucast T" using assms(1) by (simp add: waits_def)
    then have "?t n < ?t (w_reads w) + uint T" unfolding word_less_def dl .
    with step [of n] 3 show ?thesis by simp
  qed
  with w show ?thesis by (simp add: within_def)
qed

lemma paced_mono: "paced \<delta> w w' \<Longrightarrow> w_clock w1 = w_clock w \<Longrightarrow> w_reads w \<le> w_reads w1 \<Longrightarrow> w_reads w2 \<le> w_reads w' \<Longrightarrow> paced \<delta> w1 w2"
  by (auto simp: paced_def)

lemma within_mono: "within B w w' \<Longrightarrow> B \<le> B' \<Longrightarrow> within B' w w'"
  by (auto simp: within_def)

text \<open>One wait after another.\<close>

lemma waits_then:
  assumes "waits T w w1" "within B w1 w2" "paced \<delta> w w2"
  shows "within (uint T + int \<delta> + int \<delta> + B) w w2"
proof -
  have r: "w_clock w1 = w_clock w" "w_reads w < w_reads w1" "w_clock w2 = w_clock w" "w_reads w1 < w_reads w2"
    using assms(1,2) by (simp_all add: waits_def within_def)
  have "paced \<delta> w w1" using paced_mono [OF assms(3)] r by simp
  from waits_within [OF assms(1) this]
  have a: "uint (w_clock w (w_reads w1 - 1)) \<le> uint (w_clock w (w_reads w)) + uint T + int \<delta>" by (simp add: within_def)
  have b: "uint (w_clock w (w_reads w1)) \<le> uint (w_clock w (w_reads w1 - 1)) + int \<delta>"
  proof -
    obtain n where n: "w_reads w1 = Suc n" "w_reads w \<le> n" using r(2) by (metis less_Suc_eq_le less_imp_Suc_add)
    have "n < w_reads w2" "Suc n < w_reads w2" using n r(4) by simp_all
    with n assms(3) show ?thesis by (simp add: paced_def)
  qed
  have "uint (w_clock w (w_reads w2 - 1)) \<le> uint (w_clock w (w_reads w1)) + B" using assms(2) r by (simp add: within_def)
  with a b r show ?thesis by (simp add: within_def)
qed

text \<open>A command, CR LF and the response: the three waits of an exchange, or the first one or two of them.\<close>

definition at_exchange :: "bytes \<Rightarrow> nat \<Rightarrow> u32 \<Rightarrow> u32 \<Rightarrow> lora \<Rightarrow> world \<Rightarrow> world \<Rightarrow> bool" where
  "at_exchange cmd n t T l w w' \<longleftrightarrow> (\<exists>rc w1. hal_uart_write HAL_UART0 (Some cmd) n t w = Some (rc, w1)
     \<and> (w' = w1 \<or> (\<exists>rc2 w2. hal_uart_write HAL_UART0 (Some AT_CRLF) 2 5000 w1 = Some (rc2, w2)
       \<and> (w' = w2 \<or> (\<exists>m l1. readATLine T l w2 = Some (m, l1, w'))))))"

lemma exchange_within:
  assumes "at_exchange cmd n t T l w w'" "paced \<delta> w w'"
  shows "within (uint t + 5000 + uint T + 5 * int \<delta>) w w'"
proof -
  obtain rc w1 where w1: "hal_uart_write HAL_UART0 (Some cmd) n t w = Some (rc, w1)"
    and ends: "w' = w1 \<or> (\<exists>rc2 w2. hal_uart_write HAL_UART0 (Some AT_CRLF) 2 5000 w1 = Some (rc2, w2)
       \<and> (w' = w2 \<or> (\<exists>m l1. readATLine T l w2 = Some (m, l1, w'))))" using assms(1) unfolding at_exchange_def by blast
  note a = hal_uart_write_waits [OF w1]
  have T: "0 \<le> uint T" by simp
  have five: "uint (5000 :: u32) = 5000" by simp
  show ?thesis
    using ends
  proof (elim disjE exE conjE)
    assume "w' = w1"
    with assms(2) have "paced \<delta> w w1" by simp
    from within_mono [OF waits_within [OF a this]] T \<open>w' = w1\<close> show ?thesis by simp
  next
    fix rc2 w2
    assume w2: "hal_uart_write HAL_UART0 (Some AT_CRLF) 2 5000 w1 = Some (rc2, w2)" and e: "w' = w2"
    note b = hal_uart_write_waits [OF w2]
    have "paced \<delta> w1 w2" using paced_mono [OF assms(2)] a b e by (simp add: waits_def)
    from within_mono [OF waits_then [OF a waits_within [OF b this]]] assms(2) e T five show ?thesis by simp
  next
    fix rc2 w2 m l1
    assume w2: "hal_uart_write HAL_UART0 (Some AT_CRLF) 2 5000 w1 = Some (rc2, w2)"
      and w3: "readATLine T l w2 = Some (m, l1, w')"
    note b = hal_uart_write_waits [OF w2] and c = readATLine_waits [OF w3]
    have "paced \<delta> w2 w'" "paced \<delta> w1 w'" using paced_mono [OF assms(2)] a b by (simp_all add: waits_def)
    from within_mono [OF waits_then [OF a waits_then [OF b waits_within [OF c this(1)] this(2)] assms(2)]] five
    show ?thesis by simp
  qed
qed

lemma sendAT_exchange: "sendAT cmd T l w = Some (ok, l', w') \<Longrightarrow> \<exists>n. at_exchange cmd n 5000 T l w w'"
  by (fastforce simp: sendAT_def at_exchange_def Option.bind_eq_Some_conv split: if_splits)

lemma dataIn_exchange:
  assumes "dataIn_handler payload l w = Some (l', w')" "m_state l = READY" "length payload \<le> 80"
  shows "\<exists>cmd n. at_exchange cmd n 10000 1000000 l w w'"
proof -
  have guard: "\<not> m_state l \<noteq> READY" "\<not> length payload > LORA_PAYLOAD_MAX"
    using assms(2,3) by (simp_all add: LORA_PAYLOAD_MAX_def)
  from assms(1) [unfolded dataIn_handler_def if_not_P [OF guard(1)] if_not_P [OF guard(2)]] show ?thesis
    by (fastforce simp: at_exchange_def Option.bind_eq_Some_conv split: if_splits)
qed

subsection \<open>When the loops return\<close>

text \<open>The transmit wait: either the FIFO has room at some test, or some reading has reached the deadline.\<close>

definition writable_or_late :: "u8 \<Rightarrow> u64 \<Rightarrow> world \<Rightarrow> bool" where
  "writable_or_late u d w \<longleftrightarrow> (\<exists>n. w_txready w u (w_step w + 2 * n) \<or> d \<le> w_clock w (w_reads w + n))"

text \<open>One test and one reading.\<close>

lemma wait_round:
  assumes "world_wf w"
  obtains w1 w2 where "uart_is_writable u w = Some (w_txready w u (w_step w), w1)"
    "hal_time_us w1 = Some (w_clock w (w_reads w), w2)" "world_wf w2" "same_hw w w2"
    "w_step w2 = w_step w + 2" "w_reads w2 = Suc (w_reads w)"
proof -
  obtain w1 where w1: "serve_irqs w = Some w1" "world_wf w1" "later w w1" "w_step w1 = Suc (w_step w)" "w_reads w1 = w_reads w"
    using serve_irqs_spec [OF assms] by blast
  obtain w2 where w2: "serve_irqs w1 = Some w2" "world_wf w2" "later w1 w2" "w_step w2 = Suc (w_step w1)" "w_reads w2 = w_reads w1"
    using serve_irqs_spec [OF w1(2)] by blast
  show ?thesis
  proof (rule that [of w1 "w2\<lparr>w_reads := Suc (w_reads w1)\<rparr>"])
    show "same_hw w (w2\<lparr>w_reads := Suc (w_reads w1)\<rparr>)"
      using w1(3,5) w2(3,5) by (auto simp: later_def same_hw_def)
  qed (use w1 w2 in \<open>auto simp: uart_is_writable_def hal_time_us_def world_wf_def later_def same_hw_def\<close>)
qed

lemma wait_returns_ready:
  "world_wf w \<Longrightarrow> w_txready w u (w_step w + 2 * n) \<Longrightarrow> uart_wait_writable u d w \<noteq> None"
proof (induction n arbitrary: w)
  case 0
  obtain w1 w2 where "uart_is_writable u w = Some (w_txready w u (w_step w), w1)" by (rule wait_round [OF 0(1)])
  with 0(2) show ?case by (subst uart_wait_writable.simps) simp
next
  case (Suc n)
  obtain w1 w2 where r: "uart_is_writable u w = Some (w_txready w u (w_step w), w1)"
    "hal_time_us w1 = Some (w_clock w (w_reads w), w2)" "world_wf w2" "same_hw w w2" "w_step w2 = w_step w + 2"
    by (rule wait_round [OF Suc.prems(1)])
  have "w_txready w2 u (w_step w2 + 2 * n)" using Suc.prems(2) r(4,5) by (simp add: same_hw_def)
  from Suc.IH [OF r(3) this] r(1,2) show ?case by (subst uart_wait_writable.simps) (auto split: if_splits)
qed

lemma wait_stuck:
  assumes "uart_wait_writable u d w = Some r" "world_wf w"
  shows "writable_or_late u d w"
proof -
  have "world_wf w \<longrightarrow> writable_or_late u d w"
  proof (rule uart_wait_writable.raw_induct [where P = "\<lambda>u d w r. world_wf w \<longrightarrow> writable_or_late u d w", OF _ assms(1)], goal_cases)
    case (1 loop u d w r)
    show ?case
    proof
      assume wf: "world_wf w"
      obtain w1 w2 where r: "uart_is_writable u w = Some (w_txready w u (w_step w), w1)"
        "hal_time_us w1 = Some (w_clock w (w_reads w), w2)" "world_wf w2" "same_hw w w2" "w_step w2 = w_step w + 2"
        "w_reads w2 = Suc (w_reads w)"
        by (rule wait_round [OF wf])
      consider "w_txready w u (w_step w + 2 * 0)" | "d \<le> w_clock w (w_reads w + 0)" | "loop u d w2 = Some r"
        using 1(2) r(1,2) by (auto split: if_splits)
      then show "writable_or_late u d w"
      proof cases
        case 1
        then show ?thesis unfolding writable_or_late_def by blast
      next
        case 2
        then show ?thesis unfolding writable_or_late_def by blast
      next
        case 3
        with 1(1) r(3) obtain n where "w_txready w2 u (w_step w2 + 2 * n) \<or> d \<le> w_clock w2 (w_reads w2 + n)"
          unfolding writable_or_late_def by blast
        with r(4-6) have "w_txready w u (w_step w + 2 * Suc n) \<or> d \<le> w_clock w (w_reads w + Suc n)"
          by (simp add: same_hw_def)
        then show ?thesis unfolding writable_or_late_def by blast
      qed
    qed
  qed
  with assms(2) show ?thesis by simp
qed

lemma wait_returns: "world_wf w \<Longrightarrow> uart_wait_writable u d w \<noteq> None \<longleftrightarrow> writable_or_late u d w"
  using wait_stuck wait_returns_ready uart_wait_writable_returns_at [of w "w_reads w + _" d u]
  unfolding writable_or_late_def by (metis le_add1 not_Some_eq)

text \<open>
  The wait for a response on a line where nothing more arrives: a line feed or more characters than
  fit are waiting in the ring, or some reading has reached the deadline.
\<close>

definition line_or_late :: "u64 \<Rightarrow> lora \<Rightarrow> world \<Rightarrow> bool" where
  "line_or_late d l w \<longleftrightarrow> 10 \<in> set (rx_list HAL_UART0 w)
     \<or> 127 < m_atBufLen l + length (filter (\<lambda>c. c \<noteq> 13) (rx_list HAL_UART0 w)) \<or> (\<exists>n. d \<le> w_clock w (w_reads w + n))"

text \<open>One reading and one poll on a quiet line.\<close>

lemma read_round:
  assumes "world_wf w" "rx_quiet HAL_UART0 w"
  obtains w1 w2 where "hal_time_us w = Some (w_clock w (w_reads w), w1)"
    "hal_uart_getc HAL_UART0 0 w1 = Some (case rx_list HAL_UART0 w of [] \<Rightarrow> (HAL_ERR_EMPTY, 0, w2) | b # bs \<Rightarrow> (HAL_OK, b, w2))"
    "world_wf w2" "later w w2" "rx_quiet HAL_UART0 w2" "w_reads w2 = Suc (w_reads w)" "rx_list HAL_UART0 w2 = tl (rx_list HAL_UART0 w)"
proof -
  obtain w1 where w1: "hal_time_us w = Some (w_clock w (w_reads w), w1)" "world_wf w1" "later w w1"
      "w_reads w1 = Suc (w_reads w)" "rx_list HAL_UART0 w1 = rx_list HAL_UART0 w"
    using hal_time_us_spec [OF assms(1)] rx_quiet_arriving [OF assms(2)] by auto
  have q: "rx_quiet HAL_UART0 w1" using later_rx_quiet [OF w1(3) assms(2)] .
  show ?thesis
    by (rule hal_uart_getc_cases [OF w1(2), of HAL_UART0 0])
      (use w1 rx_quiet_arriving [OF q] later_rx_quiet [OF _ q] later_trans [OF w1(3)] that in \<open>auto split: list.splits\<close>)
qed

text \<open>The next state of the driver when a character is stored, and what that does to the count.\<close>

lemma line_or_late_next:
  assumes "later w w2" "w_reads w2 = Suc (w_reads w)" "rx_list HAL_UART0 w = b # rx_list HAL_UART0 w2" "b \<noteq> 10"
    and "w_clock w (w_reads w) < d" "m_atBufLen l2 = m_atBufLen l + (if b = 13 then 0 else 1)"
  shows "line_or_late d l2 w2 = line_or_late d l w"
proof -
  have "(\<exists>n. d \<le> w_clock w (w_reads w + n)) \<longleftrightarrow> (\<exists>n. d \<le> w_clock w (Suc (w_reads w) + n))"
    using assms(5) by (metis add_Suc add_Suc_right add.right_neutral not_le old.nat.exhaust)
  moreover have "w_clock w2 = w_clock w" using assms(1) by (simp add: later_def same_hw_def)
  ultimately show ?thesis using assms by (auto simp: line_or_late_def)
qed

lemma line_or_late_idle:
  assumes "later w w2" "w_reads w2 = Suc (w_reads w)" "rx_list HAL_UART0 w = []" "rx_list HAL_UART0 w2 = []"
    and "w_clock w (w_reads w) < d"
  shows "line_or_late d l w2 = line_or_late d l w"
proof -
  have "(\<exists>n. d \<le> w_clock w (w_reads w + n)) \<longleftrightarrow> (\<exists>n. d \<le> w_clock w (Suc (w_reads w) + n))"
    using assms(5) by (metis add_Suc add_Suc_right add.right_neutral not_le old.nat.exhaust)
  moreover have "w_clock w2 = w_clock w" using assms(1) by (simp add: later_def same_hw_def)
  ultimately show ?thesis using assms by (auto simp: line_or_late_def)
qed

abbreviation append_byte :: "u8 \<Rightarrow> lora \<Rightarrow> lora" where
  "append_byte b l \<equiv> l\<lparr>m_atBuf := (m_atBuf l)[m_atBufLen l := b], m_atBufLen := Suc (m_atBufLen l)\<rparr>"

lemma append_byte_wf: "lora_wf l \<Longrightarrow> m_atBufLen l < 127 \<Longrightarrow> lora_wf (append_byte b l)"
  by (simp add: lora_wf_def)

text \<open>One round of the loop.\<close>

lemma read_at_loop_round:
  assumes "world_wf w" "rx_quiet HAL_UART0 w" "lora_wf l" "w_clock w (w_reads w) < d"
  obtains w2 where "world_wf w2" "rx_quiet HAL_UART0 w2" "later w w2" "w_reads w2 = Suc (w_reads w)"
    "rx_list HAL_UART0 w2 = tl (rx_list HAL_UART0 w)"
    "read_at_loop d l w =
       (case rx_list HAL_UART0 w of
          [] \<Rightarrow> read_at_loop d l w2
        | b # _ \<Rightarrow>
            if b = 10 then Some (m_atBufLen l, l\<lparr>m_atBuf := (m_atBuf l)[m_atBufLen l := 0]\<rparr>, w2)
            else if b = 13 then read_at_loop d l w2
            else if m_atBufLen l < 127 then read_at_loop d (append_byte b l) w2
            else Some (0, (lora_emit LogAtBufOverrun l)\<lparr>m_atBufLen := 0\<rparr>, w2))"
proof -
  obtain w1 w2 where r: "hal_time_us w = Some (w_clock w (w_reads w), w1)"
    "hal_uart_getc HAL_UART0 0 w1 = Some (case rx_list HAL_UART0 w of [] \<Rightarrow> (HAL_ERR_EMPTY, 0, w2) | b # bs \<Rightarrow> (HAL_OK, b, w2))"
    "world_wf w2" "later w w2" "rx_quiet HAL_UART0 w2" "w_reads w2 = Suc (w_reads w)" "rx_list HAL_UART0 w2 = tl (rx_list HAL_UART0 w)"
    by (rule read_round [OF assms(1,2)])
  have "m_atBufLen l < length (m_atBuf l)" using assms(3) by (simp add: lora_wf_def)
  then show ?thesis
    using r assms(4)
    by (intro that [OF r(3,5,4,6,7)], subst read_at_loop.simps)
      (simp add: mem_simps LORA_AT_BUF_SIZE_def split: list.split)
qed

lemma read_returns:
  assumes "world_wf w" "rx_quiet HAL_UART0 w" "lora_wf l" "line_or_late d l w"
  shows "read_at_loop d l w \<noteq> None"
proof (cases "\<exists>n. d \<le> w_clock w (w_reads w + n)")
  case True
  then show ?thesis using read_at_loop_returns_at [OF assms(1,3)] by (metis le_add1 option.distinct(1))
next
  case never: False
  have "read_at_loop d l w \<noteq> None"
    if "world_wf w" "rx_quiet HAL_UART0 w" "lora_wf l" "line_or_late d l w" "\<forall>n \<ge> w_reads w. w_clock w n < d" "rx_list HAL_UART0 w = bs" for bs l w
    using that
  proof (induction bs arbitrary: l w)
    case Nil
    have "\<not> d \<le> w_clock w (w_reads w + n)" for n using Nil.prems(5) by (simp add: not_le)
    with Nil.prems(3,4,6) show ?case by (simp add: line_or_late_def lora_wf_def)
  next
    case (Cons b bs)
    have early: "w_clock w (w_reads w) < d" using Cons.prems(5) by simp
    obtain w2 where r: "world_wf w2" "rx_quiet HAL_UART0 w2" "later w w2" "w_reads w2 = Suc (w_reads w)"
      "rx_list HAL_UART0 w2 = bs"
      "read_at_loop d l w =
         (if b = 10 then Some (m_atBufLen l, l\<lparr>m_atBuf := (m_atBuf l)[m_atBufLen l := 0]\<rparr>, w2)
          else if b = 13 then read_at_loop d l w2
          else if m_atBufLen l < 127 then read_at_loop d (append_byte b l) w2
          else Some (0, (lora_emit LogAtBufOverrun l)\<lparr>m_atBufLen := 0\<rparr>, w2))"
      by (rule read_at_loop_round [OF Cons.prems(1-3) early]) (use Cons.prems(6) in auto)
    have later_early: "\<forall>n \<ge> w_reads w2. w_clock w2 n < d"
      using Cons.prems(5) r(3,4) by (simp add: later_def same_hw_def)
    have rec: "read_at_loop d l2 w2 \<noteq> None"
      if "lora_wf l2" "b \<noteq> 10" "m_atBufLen l2 = m_atBufLen l + (if b = 13 then 0 else 1)" for l2
    proof -
      have "line_or_late d l2 w2"
        using line_or_late_next [OF r(3,4) _ that(2) early that(3)] Cons.prems(4,6) r(5) by simp
      from Cons.IH [OF r(1,2) that(1) this later_early r(5)] show ?thesis .
    qed
    show ?case
      using rec [OF Cons.prems(3)] rec [OF append_byte_wf [OF Cons.prems(3)]] r(6) by (auto simp del: not_None_eq)
  qed
  with assms never show ?thesis by (metis le_Suc_ex not_le)
qed

lemma read_stuck:
  assumes "read_at_loop d l w = Some r" "world_wf w" "rx_quiet HAL_UART0 w" "lora_wf l"
  shows "line_or_late d l w"
proof -
  let ?P = "\<lambda>d l w r. world_wf w \<and> rx_quiet HAL_UART0 w \<and> lora_wf l \<longrightarrow> line_or_late d l w"
  have "?P d l w r"
  proof (rule read_at_loop.raw_induct [where P = ?P, OF _ assms(1)], goal_cases)
    case (1 loop d l w r)
    show ?case
    proof (intro impI, rule ccontr)
      assume wf: "world_wf w \<and> rx_quiet HAL_UART0 w \<and> lora_wf l" and stuck: "\<not> line_or_late d l w"
      then have early: "w_clock w (w_reads w) < d" unfolding line_or_late_def by (metis add.right_neutral not_le)
      obtain w1 w2 where r: "hal_time_us w = Some (w_clock w (w_reads w), w1)"
        "hal_uart_getc HAL_UART0 0 w1 = Some (case rx_list HAL_UART0 w of [] \<Rightarrow> (HAL_ERR_EMPTY, 0, w2) | b # bs \<Rightarrow> (HAL_OK, b, w2))"
        "world_wf w2" "later w w2" "rx_quiet HAL_UART0 w2" "w_reads w2 = Suc (w_reads w)" "rx_list HAL_UART0 w2 = tl (rx_list HAL_UART0 w)"
        using wf by (blast intro: read_round)
      have body: "loop d l w2 = Some r" if "rx_list HAL_UART0 w = []"
        using 1(2) r(1,2) early that by simp
      show False
      proof (cases "rx_list HAL_UART0 w")
        case Nil
        with 1(1) [OF body] r wf line_or_late_idle [OF r(4,6) _ _ early] stuck show False by simp
      next
        case (Cons b bs)
        have b: "b \<noteq> 10" using stuck Cons by (auto simp: line_or_late_def)
        have len: "m_atBufLen l < length (m_atBuf l)" using wf by (simp add: lora_wf_def)
        have room: "m_atBufLen l < 127" if "b \<noteq> 13" using stuck Cons that by (auto simp: line_or_late_def)
        have "loop d (if b = 13 then l else append_byte b l) w2 = Some r"
          using 1(2) r(1,2) early Cons b len room by (auto simp: mem_simps LORA_AT_BUF_SIZE_def split: if_splits)
        from 1(1) [OF this] r wf room have "line_or_late d (if b = 13 then l else append_byte b l) w2"
          by (auto simp: append_byte_wf)
        with line_or_late_next [OF r(4,6) _ b early, of "if b = 13 then l else append_byte b l" l] Cons r(7) stuck
        show False by (auto split: if_splits)
      qed
    qed
  qed
  with assms show ?thesis by simp
qed

subsection \<open>Unanswered commands\<close>

lemma read_at_loop_silent:
  assumes "world_wf w" "rx_quiet HAL_UART0 w" "rx_list HAL_UART0 w = []" "lora_wf l"
    and "\<forall>j < k. w_clock w (w_reads w + j) < d" "d \<le> w_clock w (w_reads w + k)"
  shows "\<exists>w'. read_at_loop d l w = Some (0, l, w') \<and> w_reads w' = w_reads w + Suc k \<and> later w w' \<and> world_wf w'"
  using assms
proof (induction k arbitrary: w)
  case 0
  obtain w1 where "hal_time_us w = Some (w_clock w (w_reads w), w1)" "later w w1" "w_reads w1 = Suc (w_reads w)" "world_wf w1"
    using hal_time_us_spec [OF 0(1)] by blast
  with 0(6) show ?case by (subst read_at_loop.simps) auto
next
  case (Suc k)
  have early: "w_clock w (w_reads w) < d" using Suc.prems(5) [rule_format, of 0] by simp
  obtain w2 where r: "world_wf w2" "rx_quiet HAL_UART0 w2" "later w w2" "w_reads w2 = Suc (w_reads w)"
    "rx_list HAL_UART0 w2 = []" "read_at_loop d l w = read_at_loop d l w2"
    by (rule read_at_loop_round [OF Suc.prems(1,2,4) early]) (use Suc.prems(3) in auto)
  have clk: "w_clock w2 = w_clock w" using r(3) by (simp add: later_def same_hw_def)
  have "\<forall>j < k. w_clock w2 (w_reads w2 + j) < d"
  proof (intro allI impI)
    fix j
    assume "j < k"
    then show "w_clock w2 (w_reads w2 + j) < d" using Suc.prems(5) [rule_format, of "Suc j"] clk r(4) by simp
  qed
  moreover have "d \<le> w_clock w2 (w_reads w2 + k)" using Suc.prems(6) clk r(4) by simp
  ultimately obtain w' where "read_at_loop d l w2 = Some (0, l, w')" "w_reads w' = w_reads w2 + Suc k" "later w2 w'" "world_wf w'"
    using Suc.IH [OF r(1,2,5) Suc.prems(4)] by blast
  then show ?case using r(3,4,6) later_trans by auto
qed

lemma readATLine_silent:
  assumes "world_wf w" "rx_quiet HAL_UART0 w" "rx_list HAL_UART0 w = []" "lora_wf l"
    and "w_reads w < m" "w_clock w (w_reads w) + ucast T \<le> w_clock w m"
  shows "\<exists>w'. readATLine T l w = Some (0, l\<lparr>m_atBufLen := 0\<rparr>, w') \<and> later w w' \<and> world_wf w' \<and> Suc (w_reads w) < w_reads w'
    \<and> w_clock w (w_reads w) + ucast T \<le> w_clock w (w_reads w' - 1)"
proof -
  let ?D = "w_clock w (w_reads w) + ucast T"
  obtain w1 where w1: "hal_time_us w = Some (w_clock w (w_reads w), w1)" "world_wf w1" "later w w1"
      "w_reads w1 = Suc (w_reads w)" "rx_list HAL_UART0 w1 = []"
    using hal_time_us_spec [OF assms(1)] rx_quiet_arriving [OF assms(2)] assms(3) by auto
  have clk: "w_clock w1 = w_clock w" using w1(3) by (simp add: later_def same_hw_def)
  obtain k0 where k0: "?D \<le> w_clock w1 (w_reads w1 + k0)"
    using assms(5,6) clk w1(4) by (metis add_Suc less_imp_Suc_add)
  define k where "k = (LEAST k. ?D \<le> w_clock w1 (w_reads w1 + k))"
  have k: "?D \<le> w_clock w1 (w_reads w1 + k)" "\<forall>j < k. w_clock w1 (w_reads w1 + j) < ?D"
    using LeastI [of "\<lambda>k. ?D \<le> w_clock w1 (w_reads w1 + k)", OF k0] not_less_Least
    unfolding k_def by (blast, metis not_le)
  have wf: "lora_wf (l\<lparr>m_atBufLen := 0\<rparr>)" using assms(4) by (simp add: lora_wf_def)
  obtain w' where w': "read_at_loop ?D (l\<lparr>m_atBufLen := 0\<rparr>) w1 = Some (0, l\<lparr>m_atBufLen := 0\<rparr>, w')"
      "w_reads w' = w_reads w1 + Suc k" "later w1 w'" "world_wf w'"
    using read_at_loop_silent [OF w1(2) later_rx_quiet [OF w1(3) assms(2)] w1(5) wf k(2,1)] by blast
  then have "readATLine T l w = Some (0, l\<lparr>m_atBufLen := 0\<rparr>, w')" using w1(1) by (simp add: readATLine_def)
  with w' w1(4) k(1) clk later_trans [OF w1(3) w'(3)] show ?thesis by auto
qed

text \<open>A transmitter that always has room: a write takes one reading of the timer.\<close>

definition tx_free :: "u8 \<Rightarrow> world \<Rightarrow> bool" where
  "tx_free u w \<longleftrightarrow> (\<forall>n \<ge> w_step w. w_txready w u n)"

lemma tx_free_same_hw: "same_hw w w' \<Longrightarrow> tx_free u w \<Longrightarrow> tx_free u w'"
  by (simp add: tx_free_def same_hw_def)

lemma uart_write_loop_free:
  assumes "world_wf w" "tx_free u w" "len \<le> length buf" "i \<le> len"
  shows "\<exists>w'. uart_write_loop u d buf len i w = Some (HAL_OK, w') \<and> w_reads w' = w_reads w
    \<and> sent u (drop i (take len buf)) w w'"
  using assms
proof (induction "len - i" arbitrary: i w)
  case 0
  then show ?case by (subst uart_write_loop.simps) simp
next
  case (Suc n)
  then have i: "i < len" "i < length buf" by simp_all
  have ready: "w_txready w u (w_step w)" using Suc.prems(2) by (simp add: tx_free_def)
  obtain w1 where w1: "uart_is_writable u w = Some (True, w1)" "world_wf w1" "later w w1" "w_reads w1 = w_reads w" "rx_grows w w1"
    using uart_is_writable_spec [OF Suc.prems(1), of u] ready by (auto intro: rx_growsI)
  let ?w2 = "uart_putc_raw u (buf ! i) w1"
  have wait: "uart_wait_writable u d w = Some (True, w1)" using w1(1) by (subst uart_wait_writable.simps) simp
  have s2: "sent u [buf ! i] w ?w2"
    using sent_trans [OF later_sent [OF w1(3,2,5)] uart_putc_raw_sent [OF w1(2)]] by simp
  have "tx_free u ?w2" using tx_free_same_hw [OF _ Suc.prems(2)] s2 by (simp add: sent_def)
  moreover have "n = len - Suc i" using Suc.hyps(2) by simp
  ultimately obtain w' where
    w': "uart_write_loop u d buf len (Suc i) ?w2 = Some (HAL_OK, w')" "w_reads w' = w_reads ?w2"
      "sent u (drop (Suc i) (take len buf)) ?w2 w'"
    using Suc.hyps(1) [OF _ sent_wf [OF s2] _ Suc.prems(3)] i(1) Suc_leI by blast
  have "[buf ! i] @ drop (Suc i) (take len buf) = drop i (take len buf)"
    using i Suc.prems(3) by (simp add: Cons_nth_drop_Suc [symmetric] min_def)
  with sent_trans [OF s2 w'(3)] have "sent u (drop i (take len buf)) w w'" by simp
  moreover have "w_reads ?w2 = w_reads w" using w1(4) by (simp add: uart_putc_raw_def)
  ultimately show ?case using wait w'(1,2) i by (subst uart_write_loop.simps) (simp add: mem_simps)
qed

lemma hal_uart_write_free:
  assumes "world_wf w" "tx_free HAL_UART0 w" "len \<le> length buf"
  shows "\<exists>w'. hal_uart_write HAL_UART0 (Some buf) len T w = Some (HAL_OK, w') \<and> w_reads w' = Suc (w_reads w)
    \<and> sent HAL_UART0 (take len buf) w w'"
proof -
  obtain w1 where w1: "hal_time_us w = Some (w_clock w (w_reads w), w1)" "world_wf w1" "later w w1"
      "w_reads w1 = Suc (w_reads w)" "rx_grows w w1"
    using hal_time_us_spec [OF assms(1)] by (meson rx_growsI)
  obtain w' where "uart_write_loop HAL_UART0 (w_clock w (w_reads w) + ucast T) buf len 0 w1 = Some (HAL_OK, w')"
      "w_reads w' = w_reads w1" "sent HAL_UART0 (take len buf) w1 w'"
    using uart_write_loop_free [OF w1(2) tx_free_same_hw [OF later_same_hw [OF w1(3)] assms(2)] assms(3), of 0] by auto
  moreover have "sent HAL_UART0 (take len buf) w w'"
    using sent_trans [OF later_sent [OF w1(3,2,5)] calculation(3)] by simp
  ultimately show ?thesis using w1(1,4) by (auto simp: hal_uart_write_def uart_write_def Let_def)
qed

lemma sent_silent:
  assumes "sent u bs w w'" "rx_quiet v w" "rx_list v w = []"
  shows "rx_quiet v w'" "rx_list v w' = []"
  using assms rx_quiet_same_hw by (auto simp: sent_def rx_grows_def)

text \<open>A command on a free transmitter and a silent line waits out its timeout, sends its frame and fails.\<close>

lemma sendAT_silent:
  assumes "world_wf w" "lora_wf l" "0 \<notin> set s" "length s \<le> 126"
    and "tx_free HAL_UART0 w" "rx_quiet HAL_UART0 w" "rx_list HAL_UART0 w = []"
    and "w_reads w + 2 < m" "w_clock w (w_reads w + 2) + ucast T \<le> w_clock w m"
  shows "\<exists>l' w'. sendAT (s @ [0]) T l w = Some (False, l', w') \<and> wired HAL_UART0 (at_frame s) w w'
    \<and> w_calls w' = w_calls w \<and> w_reads w + 2 < w_reads w' - 1 \<and> w_clock w (w_reads w + 2) + ucast T \<le> w_clock w (w_reads w' - 1)
    \<and> (\<forall>n. w_reads w + 2 < n \<and> Suc n < w_reads w' \<longrightarrow> w_clock w n < w_clock w (w_reads w + 2) + ucast T)"
proof -
  have len: "at_cmd_length (s @ [0]) 0 = Some (length s)" using at_cmd_length_str [of s "[]" "[]"] assms(3,4) by simp
  obtain w1 where w1: "hal_uart_write HAL_UART0 (Some (s @ [0])) (length s) 5000 w = Some (HAL_OK, w1)"
      "w_reads w1 = Suc (w_reads w)" "sent HAL_UART0 s w w1"
    using hal_uart_write_free [OF assms(1,5), of "length s" "s @ [0]" 5000] by auto
  have hw1: "same_hw w w1" using w1(3) by (simp add: sent_def)
  obtain w2 where w2: "hal_uart_write HAL_UART0 (Some AT_CRLF) 2 5000 w1 = Some (HAL_OK, w2)"
      "w_reads w2 = Suc (w_reads w1)" "sent HAL_UART0 [13, 10] w1 w2"
    using hal_uart_write_free [OF sent_wf [OF w1(3)] tx_free_same_hw [OF hw1 assms(5)], of 2 AT_CRLF 5000]
    by (auto simp: AT_CRLF_def)
  have s2: "sent HAL_UART0 (at_frame s) w w2" using sent_trans [OF w1(3) w2(3)] by (simp add: at_frame_def)
  have r2: "w_reads w2 = w_reads w + 2" "w_clock w2 = w_clock w" using w1(2) w2(2) sent_clock [OF s2] by simp_all
  obtain w' where w': "readATLine T l w2 = Some (0, l\<lparr>m_atBufLen := 0\<rparr>, w')" "later w2 w'" "world_wf w'" "Suc (w_reads w2) < w_reads w'"
      "w_clock w2 (w_reads w2) + ucast T \<le> w_clock w2 (w_reads w' - 1)"
    using readATLine_silent [OF sent_wf [OF s2] sent_silent [OF s2 assms(6,7)] assms(2), of m T] assms(8,9) r2 by auto
  have "sendAT (s @ [0]) T l w = Some (False, l\<lparr>m_atBufLen := 0\<rparr>, w')"
    using len w1(1) w2(1) w'(1) by (simp add: sendAT_def)
  moreover have "wired HAL_UART0 (at_frame s) w w'"
    using wired_trans [OF sent_wired [OF s2] later_wired [OF w'(2,3)]] by simp
  moreover have "w_calls w' = w_calls w" using s2 w'(2) by (simp add: sent_def later_def)
  moreover have "\<forall>n. w_reads w + 2 < n \<and> Suc n < w_reads w' \<longrightarrow> w_clock w n < w_clock w (w_reads w + 2) + ucast T"
    using readATLine_waits [OF w'(1)] unfolding waits_def r2 by blast
  ultimately show ?thesis using w'(4,5) r2 by auto
qed

text \<open>A transmission that is not answered is counted as an error with code 0.\<close>

lemma dataIn_silent:
  assumes "world_wf w" "lora_wf l" "m_state l = READY" "length payload \<le> 80"
    and "tx_free HAL_UART0 w" "rx_quiet HAL_UART0 w" "rx_list HAL_UART0 w = []"
    and "w_reads w + 2 < m" "w_clock w (w_reads w + 2) + ucast (1000000 :: u32) \<le> w_clock w m"
  shows "\<exists>w'. dataIn_handler payload l w = Some (tx_failed (lora_emit (LogTxError 0) (l\<lparr>m_atBufLen := 0\<rparr>)), w')"
proof -
  let ?text = "ascii ''AT+SEND=0,'' @ nat_text (length payload) @ 44 # payload"
  have cmd: "send_cmd payload = Some (?text @ [0])" using send_cmd_text [OF assms(4)] by simp
  have guard: "\<not> m_state l \<noteq> READY" "\<not> length payload > LORA_PAYLOAD_MAX"
    using assms(3,4) by (simp_all add: LORA_PAYLOAD_MAX_def)
  obtain w1 where w1: "hal_uart_write HAL_UART0 (Some (?text @ [0])) (length (?text @ [0]) - 1) 10000 w = Some (HAL_OK, w1)"
      "w_reads w1 = Suc (w_reads w)" "sent HAL_UART0 (take (length (?text @ [0]) - 1) (?text @ [0])) w w1"
    using hal_uart_write_free [OF assms(1,5) diff_le_self] by blast
  have hw1: "same_hw w w1" using w1(3) by (simp add: sent_def)
  obtain w2 where w2: "hal_uart_write HAL_UART0 (Some AT_CRLF) 2 5000 w1 = Some (HAL_OK, w2)"
      "w_reads w2 = Suc (w_reads w1)" "sent HAL_UART0 (take 2 AT_CRLF) w1 w2"
    using hal_uart_write_free [OF sent_wf [OF w1(3)] tx_free_same_hw [OF hw1 assms(5)], of 2 AT_CRLF 5000]
    by (auto simp: AT_CRLF_def)
  note s2 = sent_trans [OF w1(3) w2(3)]
  have r2: "w_reads w2 = w_reads w + 2" "w_clock w2 = w_clock w" using w1(2) w2(2) sent_clock [OF s2] by simp_all
  obtain w' where "readATLine 1000000 l w2 = Some (0, l\<lparr>m_atBufLen := 0\<rparr>, w')"
    using readATLine_silent [OF sent_wf [OF s2] sent_silent [OF s2 assms(6,7)] assms(2), of m 1000000] assms(8,9) r2 by auto
  then show ?thesis
    unfolding dataIn_handler_def if_not_P [OF guard(1)] if_not_P [OF guard(2)] cmd bind.bind_lunit w1(1) prod.case
    using w2(1) by (simp add: tx_response_def)
qed

subsection \<open>Properties\<close>

text \<open>
  C16: Exactly when the two busy waits of the firmware come to an end. The transmit wait of \<open>uart_write\<close>
  returns iff the transmit FIFO has room at some test or some reading of the timer has reached the
  deadline; the response wait of \<open>readATLine\<close> on a line where nothing more arrives returns iff a line feed
  or more than the buffer holds is waiting, or some reading has reached the deadline. A stopped timer
  with a stuck peer therefore blocks the main loop for ever.
\<close>

theorem busy_waits_return_iff:
  assumes "world_wf w" "lora_wf l" "rx_quiet HAL_UART0 w"
  shows "(uart_wait_writable u deadline w \<noteq> None \<longleftrightarrow>
      (\<exists>n. w_txready w u (w_step w + 2 * n) \<or> deadline \<le> w_clock w (w_reads w + n)))
    \<and> (read_at_loop deadline l w \<noteq> None \<longleftrightarrow>
      10 \<in> set (rx_list HAL_UART0 w)
      \<or> 127 < m_atBufLen l + length (filter (\<lambda>c. c \<noteq> 13) (rx_list HAL_UART0 w))
      \<or> (\<exists>n. deadline \<le> w_clock w (w_reads w + n)))"
  using wait_returns [OF assms(1), of u deadline] read_returns [OF assms(1,3,2), of deadline]
    read_stuck [OF _ assms(1,3,2), of deadline]
  unfolding writable_or_late_def line_or_late_def by blast

lemma busy_waits_return_iff_witness:
  "read_at_loop 5 lora_init (sim_world [] [] \<lparr>w_clock := \<lambda>_. 0\<rparr>) = None
    \<and> uart_wait_writable HAL_UART0 5 (sim_world [] [] \<lparr>w_clock := \<lambda>_. 0\<rparr>) \<noteq> None"
proof -
  let ?w = "sim_world [] [] \<lparr>w_clock := \<lambda>_. 0\<rparr>"
  have wf: "world_wf ?w" using sim_world_wf [of "[]" "[]"] by (simp add: world_wf_def)
  have q: "rx_quiet HAL_UART0 ?w" using sim_world_quiet [of HAL_UART0 "[]" "[]"] by (simp add: rx_quiet_def)
  have rx: "rx_list HAL_UART0 ?w = []" using sim_world_rx(1) [of "[]" "[]"] by (simp add: rx_list_def rx_of_def)
  have late: "\<not> (\<exists>n. (5 :: u64) \<le> w_clock ?w (w_reads ?w + n))" by simp
  have len: "m_atBufLen lora_init = 0" by (simp add: lora_init_def)
  have ready: "\<exists>n. w_txready ?w HAL_UART0 (w_step ?w + 2 * n) \<or> 5 \<le> w_clock ?w (w_reads ?w + n)"
    by (simp add: sim_world_def)
  from busy_waits_return_iff [OF wf lora_init_wf q, of HAL_UART0 5] late ready show ?thesis
    unfolding rx len by (simp del: not_None_eq)
qed

text \<open>
  C24: How long a transmission or a command keeps the processor. With readings of the timer at most \<open>\<delta>\<close>
  microseconds apart, from the first to the last reading of an AT exchange at most 10 ms, the
  response timeout and five \<open>\<delta>\<close> pass, and in \<open>dataIn_handler\<close> at most 1015 ms and five \<open>\<delta>\<close>: unlike
  the initialisation, a transmission ends well before the two seconds of the watchdog.
\<close>

theorem exchange_time_bounded:
  assumes "paced \<delta> w w'"
  shows "(sendAT cmd timeout_us l w = Some (ok, l', w') \<longrightarrow> within (10000 + uint timeout_us + 5 * int \<delta>) w w')
    \<and> (dataIn_handler payload l w = Some (l', w') \<and> m_state l = READY \<and> length payload \<le> 80
       \<longrightarrow> within (1015000 + 5 * int \<delta>) w w')"
proof (intro conjI impI)
  assume "sendAT cmd timeout_us l w = Some (ok, l', w')"
  then obtain n where "at_exchange cmd n 5000 timeout_us l w w'" using sendAT_exchange by blast
  from exchange_within [OF this assms] show "within (10000 + uint timeout_us + 5 * int \<delta>) w w'" by simp
next
  assume "dataIn_handler payload l w = Some (l', w') \<and> m_state l = READY \<and> length payload \<le> 80"
  then obtain c n where "at_exchange c n 10000 1000000 l w w'" using dataIn_exchange by blast
  from exchange_within [OF this assms] show "within (1015000 + 5 * int \<delta>) w w'" by simp
qed

text \<open>A machine whose timer stops at three seconds.\<close>

definition slow_world :: world where
  "slow_world = sim_world [] [] \<lparr>w_clock := \<lambda>n. of_nat (min n 3000000)\<rparr>"

lemma slow_world_facts:
  "world_wf slow_world" "tx_free u slow_world" "rx_quiet u slow_world" "rx_list HAL_UART0 slow_world = []"
  "w_reads slow_world = 0" "w_calls slow_world = []"
  using sim_world_wf [of "[]" "[]"] sim_world_quiet [of u "[]" "[]"] sim_world_rx(1) [of "[]" "[]"]
  by (simp_all add: slow_world_def world_wf_def tx_free_def rx_quiet_def rx_list_def rx_of_def)
    (simp_all add: sim_world_def)

lemma slow_clock: "uint (w_clock slow_world n) = int (min n 3000000)"
  by (simp add: slow_world_def unsigned_of_nat take_bit_nat_eq_self_iff)

lemma slow_paced: "paced 1 slow_world w'"
  by (auto simp: paced_def slow_clock)

lemma exchange_time_bounded_witness:
  "(\<exists>l' w'. sendAT (cstr_lit ''AT'') 200000 lora_init slow_world = Some (False, l', w') \<and> within 210005 slow_world w')
    \<and> (\<exists>l' w'. dataIn_handler [65] (lora_init\<lparr>m_state := READY\<rparr>) slow_world = Some (l', w') \<and> within 1015005 slow_world w')"
proof
  let ?l = "lora_init\<lparr>m_state := READY\<rparr>"
  have late: "w_clock slow_world 2 + ucast (200000 :: u32) \<le> w_clock slow_world 3000000"
    "w_clock slow_world 2 + ucast (1000000 :: u32) \<le> w_clock slow_world 3000000"
    by (simp_all add: word_le_def uint_word_ariths slow_clock)
  obtain l' w' where "sendAT (cstr_lit ''AT'') 200000 lora_init slow_world = Some (False, l', w')"
    using sendAT_silent [OF slow_world_facts(1) lora_init_wf, of "ascii ''AT''" 3000000 200000] slow_world_facts late(1) [unfolded numeral_2_eq_2]
    by (auto simp: cstr_lit_def)
  with exchange_time_bounded [OF slow_paced, of "cstr_lit ''AT''" 200000 lora_init False l' w'] show
    "\<exists>l' w'. sendAT (cstr_lit ''AT'') 200000 lora_init slow_world = Some (False, l', w') \<and> within 210005 slow_world w'" by auto
  have l: "lora_wf ?l" "m_state ?l = READY" using lora_init_wf by (simp_all add: lora_wf_def)
  obtain l' w' where "dataIn_handler [65] ?l slow_world = Some (l', w')"
    using dataIn_silent [OF slow_world_facts(1) l, of "[65]" 3000000] slow_world_facts late(2) [unfolded numeral_2_eq_2] by auto
  with exchange_time_bounded [OF slow_paced, where payload = "[65]" and l = ?l and l' = l' and w' = w'] l show
    "\<exists>l' w'. dataIn_handler [65] ?l slow_world = Some (l', w') \<and> within 1015005 slow_world w'" by auto
qed

text \<open>
  C20: When the module does not answer \<open>AT+RESET\<close> (nothing arrives on its line, the transmitter has room),
  the step of \<open>initModule\<close> sends the command and fails after at least the two seconds of its timeout.
  During all that time the watchdog, whose period is also two seconds, is not updated.
\<close>

theorem unanswered_reset_starves_watchdog:
  assumes "world_wf w" "lora_wf l" "tx_free HAL_UART0 w" "rx_quiet HAL_UART0 w" "rx_list HAL_UART0 w = []"
    and "w_reads w + 2 < m" "uint (w_clock w (w_reads w + 2)) < 2 ^ 63"
    and "uint (w_clock w (w_reads w + 2)) + 2000000 \<le> uint (w_clock w m)"
  shows "\<exists>l' w'. at_step (cstr_lit ''AT+RESET'') 2000000 rest l w = Some (False, l', w')
    \<and> wired HAL_UART0 (ascii ''AT+RESET'' @ [13, 10]) w w' \<and> w_calls w' = w_calls w
    \<and> w_reads w + 2 < w_reads w' - 1
    \<and> 2000 * 1000 \<le> uint (w_clock w (w_reads w' - 1)) - uint (w_clock w (w_reads w + 2))"
proof -
  have dl: "uint (w_clock w (w_reads w + 2) + ucast (2000000 :: u32)) = uint (w_clock w (w_reads w + 2)) + 2000000"
    using assms(7) by (simp add: uint_word_ariths)
  have late: "w_clock w (w_reads w + 2) + ucast (2000000 :: u32) \<le> w_clock w n
      \<longleftrightarrow> uint (w_clock w (w_reads w + 2)) + 2000000 \<le> uint (w_clock w n)" for n
    unfolding word_le_def dl ..
  have s: "0 \<notin> set (ascii ''AT+RESET'')" "length (ascii ''AT+RESET'') \<le> 126" by simp_all
  obtain l' w' where "sendAT (ascii ''AT+RESET'' @ [0]) 2000000 l w = Some (False, l', w')"
    "wired HAL_UART0 (at_frame (ascii ''AT+RESET'')) w w'" "w_calls w' = w_calls w" "w_reads w + 2 < w_reads w' - 1"
    "w_clock w (w_reads w + 2) + ucast (2000000 :: u32) \<le> w_clock w (w_reads w' - 1)"
    using sendAT_silent [OF assms(1,2) s assms(3-6), of 2000000] assms(8) late by blast
  with late [of "w_reads w' - 1"] show ?thesis
    by (intro exI [of _ l'] exI [of _ w']) (simp add: at_step_def cstr_lit_def at_frame_def)
qed

lemma unanswered_reset_starves_watchdog_witness:
  "\<exists>l' w'. at_step (cstr_lit ''AT+RESET'') 2000000 init_params lora_init (sim_world [] []) = Some (False, l', w') \<and> w_calls w' = []"
proof -
  let ?w = "sim_world [] []"
  have free: "tx_free HAL_UART0 ?w" by (simp add: tx_free_def sim_world_def)
  have clk: "uint (w_clock ?w n) = int n" if "n < 2 ^ 63" for n
    using that by (simp add: sim_world_def take_bit_eq_mod unsigned_of_nat)
  have reads: "w_reads ?w = 0" by (simp add: sim_world_def)
  from unanswered_reset_starves_watchdog [OF sim_world_wf lora_init_wf free sim_world_quiet sim_world_rx(1), of 2000002 init_params]
    clk [of 2] clk [of 2000002] reads
  show ?thesis by (auto simp: sim_world_def)
qed

end
