(* ===== verification/HalContract.thy ===== *)
theory HalContract
  imports I2c Timing
begin

text \<open>
  The promises of \<open>hal/rp2040_hal.h\<close>, the header the components program against: one specification per entry,
  from its comment, over what can be seen from outside (the bytes waiting, the bytes on the wire, the SDK calls,
  the bus). The facade meets all of them. The locale \<open>uart_facade\<close> derives from the promises alone what a
  client may conclude from several calls.
\<close>

subsection \<open>One specification per entry\<close>

text \<open>Initialisation at the documented speed and pins, 8N1, with the receive interrupt; nothing is left in the ring.\<close>

definition hal_uart_init_spec :: "u8 \<Rightarrow> u32 \<Rightarrow> u32 \<Rightarrow> u32 \<Rightarrow> (world \<Rightarrow> int \<times> world) \<Rightarrow> bool" where
  "hal_uart_init_spec u baud tx rx init \<longleftrightarrow>
     (\<forall>w rc w'. init w = (rc, w') \<longrightarrow>
        rc = HAL_OK \<and> rx_list u w' = []
        \<and> (\<exists>cs. w_calls w' = w_calls w @ cs \<and> {UartInit u baud, GpioSetFunctionUart tx, GpioSetFunctionUart rx,
              UartSetFormat8N1 u, IrqSetEnabled u True, UartSetIrqEnables u True False} \<subseteq> set cs))"

definition hal_uart0_init_spec :: "(world \<Rightarrow> int \<times> world) \<Rightarrow> bool" where
  "hal_uart0_init_spec = hal_uart_init_spec HAL_UART0 115200 0 1"

definition hal_uart1_init_spec :: "(world \<Rightarrow> int \<times> world) \<Rightarrow> bool" where
  "hal_uart1_init_spec = hal_uart_init_spec HAL_UART1 9600 4 5"

text \<open>I2C1 at 100 kHz on the pins 6 and 7, with pull-ups, or an error.\<close>

definition hal_i2c1_init_spec :: "'d i2c_sdk \<Rightarrow> ('d \<Rightarrow> int \<times> 'd) \<Rightarrow> bool" where
  "hal_i2c1_init_spec sdk init \<longleftrightarrow>
     (\<forall>d rc d'. init d = (rc, d') \<longrightarrow>
        (rc = HAL_OK \<and> fst (i2c_init sdk 100000 d) \<noteq> 0
           \<and> d' = gpio_pull_up sdk 7 (gpio_pull_up sdk 6 (gpio_set_function_i2c sdk 7 (gpio_set_function_i2c sdk 6 (snd (i2c_init sdk 100000 d))))))
        \<or> (rc = HAL_ERR_BUS \<and> fst (i2c_init sdk 100000 d) = 0))"

text \<open>The code a bus transaction of the SDK is reported with.\<close>

definition bus_code :: "'d i2c_sdk \<Rightarrow> int \<Rightarrow> int" where
  "bus_code sdk rc = (if rc = PICO_ERROR_TIMEOUT sdk then HAL_ERR_TIMEOUT else if rc = PICO_ERROR_GENERIC sdk then HAL_ERR_BUS else HAL_OK)"

text \<open>
  Only I2C1 is wired. A read first writes the register number, keeping the bus; if that fails it ends with the code of the
  failure and nothing is read or stored. Otherwise it reads from the device and stores what was read at the
  front of the buffer, whose rest is as before, and returns \<open>HAL_OK\<close> iff exactly \<open>len\<close> bytes came.
\<close>

definition hal_i2c_read_reg_spec ::
  "'d i2c_sdk \<Rightarrow> (u8 \<Rightarrow> u8 \<Rightarrow> u8 \<Rightarrow> bytes option \<Rightarrow> nat \<Rightarrow> u32 \<Rightarrow> 'd \<Rightarrow> (int \<times> bytes option \<times> 'd) option) \<Rightarrow> bool" where
  "hal_i2c_read_reg_spec sdk read \<longleftrightarrow>
     (\<forall>i2c_id addr reg b len t d. len \<le> length b \<longrightarrow>
        (\<exists>rc b' d'. read i2c_id addr reg (Some b) len t d = Some (rc, Some b', d')
           \<and> (if i2c_id \<noteq> HAL_I2C1 \<or> len = 0 then rc = HAL_ERR_INVAL \<and> b' = b \<and> d' = d
              else
                let (wrc, d1) = i2c_write_timeout_us sdk addr [reg] True t d in
                if bus_code sdk wrc \<noteq> HAL_OK then rc = bus_code sdk wrc \<and> b' = b \<and> d' = d1
                else
                  let ((n, data), d2) = i2c_read_timeout_us sdk addr len False t d1 in
                  d' = d2 \<and> b' = take len data @ drop (length (take len data)) b
                  \<and> rc = (if bus_code sdk n \<noteq> HAL_OK then bus_code sdk n
                         else if word_of_int n = (of_nat len :: u32) then HAL_OK else HAL_ERR_BUS))))"

text \<open>A write hands exactly the bytes to the bus, and its code is that of the bus.\<close>

definition hal_i2c_write_spec ::
  "'d i2c_sdk \<Rightarrow> (u8 \<Rightarrow> u8 \<Rightarrow> bytes option \<Rightarrow> nat \<Rightarrow> u32 \<Rightarrow> 'd \<Rightarrow> (int \<times> 'd) option) \<Rightarrow> bool" where
  "hal_i2c_write_spec sdk write \<longleftrightarrow>
     (\<forall>i2c_id addr b len t d. len \<le> length b \<longrightarrow>
        write i2c_id addr (Some b) len t d =
          Some (if i2c_id \<noteq> HAL_I2C1 \<or> len = 0 then (HAL_ERR_INVAL, d)
                else apfst (bus_code sdk) (i2c_write_timeout_us sdk addr (take len b) False t d)))"

text \<open>The stronger reading of the comment, that \<open>HAL_OK\<close> means that all bytes were written: the count is checked.\<close>

definition hal_i2c_write_counted ::
  "'d i2c_sdk \<Rightarrow> (u8 \<Rightarrow> u8 \<Rightarrow> bytes option \<Rightarrow> nat \<Rightarrow> u32 \<Rightarrow> 'd \<Rightarrow> (int \<times> 'd) option) \<Rightarrow> bool" where
  "hal_i2c_write_counted sdk write \<longleftrightarrow>
     (\<forall>addr b len t d d'. 0 < len \<and> len \<le> length b \<and> write HAL_I2C1 addr (Some b) len t d = Some (HAL_OK, d') \<longrightarrow>
        fst (i2c_write_timeout_us sdk addr (take len b) False t d) = int len)"

text \<open>
  Blocks until all bytes are queued (\<open>HAL_OK\<close>) or the time-out has elapsed (\<open>HAL_ERR_TIMEOUT\<close>), and then a proper prefix is
  queued. The first reading of the timer sets the deadline; the call ends at the first later reading that has reached it,
  if there is one, and only then with a time-out.
\<close>

definition hal_uart_write_spec_of :: "(u8 \<Rightarrow> bytes option \<Rightarrow> nat \<Rightarrow> u32 \<Rightarrow> world \<Rightarrow> (int \<times> world) option) \<Rightarrow> bool" where
  "hal_uart_write_spec_of write \<longleftrightarrow>
     (\<forall>u b len t w. world_wf w \<longrightarrow> live_clock (w_clock w) \<longrightarrow> len \<le> length b \<longrightarrow>
        (\<exists>rc k w'. write u (Some b) len t w = Some (rc, w') \<and> sent u (take k b) w w' \<and> w_reads w < w_reads w'
           \<and> (let first = w_reads w; last = w_reads w' - 1; deadline = w_clock w first + ucast t in
              (\<forall>n. first < n \<and> n < last \<longrightarrow> w_clock w n < deadline)
              \<and> (rc = HAL_OK \<and> k = len \<and> (last = first \<or> w_clock w last < deadline)
                \<or> rc = HAL_ERR_TIMEOUT \<and> k < len \<and> first < last \<and> deadline \<le> w_clock w last))))"

text \<open>The oldest waiting byte and \<open>HAL_OK\<close>, or \<open>HAL_ERR_EMPTY\<close> when there is none; the other ring is not touched.\<close>

definition hal_uart_getc_spec :: "(u8 \<Rightarrow> u8 \<Rightarrow> world \<Rightarrow> (int \<times> u8 \<times> world) option) \<Rightarrow> bool" where
  "hal_uart_getc_spec getc \<longleftrightarrow>
     (\<forall>u b0 w. world_wf w \<longrightarrow>
        (\<exists>rc b w'. getc u b0 w = Some (rc, b, w') \<and> world_wf w' \<and> later w w'
           \<and> (rc = HAL_OK \<and> rx_list u w @ rx_arriving u w = b # rx_list u w'
              \<or> rc = HAL_ERR_EMPTY \<and> b = b0 \<and> rx_list u w @ rx_arriving u w = [] \<and> rx_list u w' = [])))"

definition hal_uart_rx_available_spec :: "(u8 \<Rightarrow> world \<Rightarrow> (u32 \<times> world) option) \<Rightarrow> bool" where
  "hal_uart_rx_available_spec available \<longleftrightarrow>
     (\<forall>u w. world_wf w \<longrightarrow>
        (\<exists>n w'. available u w = Some (n, w') \<and> world_wf w' \<and> later w w'
           \<and> rx_list u w' = rx_list u w @ rx_arriving u w \<and> unat n = length (rx_list u w')))"

definition hal_uart_rx_flush_spec_of :: "(u8 \<Rightarrow> world \<Rightarrow> world option) \<Rightarrow> bool" where
  "hal_uart_rx_flush_spec_of flush \<longleftrightarrow>
     (\<forall>u w. world_wf w \<longrightarrow>
        (\<exists>w'. flush u w = Some w' \<and> world_wf w' \<and> later w w' \<and> rx_list u w' = []
           \<and> (\<forall>v. (v = HAL_UART0 \<longleftrightarrow> u \<noteq> HAL_UART0) \<longrightarrow> rx_list v w' = rx_list v w @ rx_arriving v w)))"

text \<open>The current reading of the timer; a delay of at most a second.\<close>

definition hal_time_us_spec_of :: "(world \<Rightarrow> (u64 \<times> world) option) \<Rightarrow> bool" where
  "hal_time_us_spec_of time \<longleftrightarrow>
     (\<forall>w. world_wf w \<longrightarrow>
        (\<exists>w'. time w = Some (w_clock w (w_reads w), w') \<and> world_wf w' \<and> later w w' \<and> w_reads w' = Suc (w_reads w)))"

definition hal_delay_ms_spec :: "(u32 \<Rightarrow> world \<Rightarrow> world option) \<Rightarrow> bool" where
  "hal_delay_ms_spec delay \<longleftrightarrow>
     (\<forall>ms w. world_wf w \<longrightarrow>
        (\<exists>w'. delay ms w = Some w' \<and> world_wf w' \<and> same_hw w w' \<and> w_tx0 w' = w_tx0 w \<and> w_tx1 w' = w_tx1 w
           \<and> w_calls w' = w_calls w @ [SleepMs (min ms 1000)]))"

subsection \<open>What clients may conclude\<close>

locale uart_facade =
  fixes getc :: "u8 \<Rightarrow> u8 \<Rightarrow> world \<Rightarrow> (int \<times> u8 \<times> world) option"
    and available :: "u8 \<Rightarrow> world \<Rightarrow> (u32 \<times> world) option"
    and flush :: "u8 \<Rightarrow> world \<Rightarrow> world option"
  assumes getc_spec: "hal_uart_getc_spec getc"
    and available_spec: "hal_uart_rx_available_spec available"
    and flush_spec: "hal_uart_rx_flush_spec_of flush"
begin

text \<open>When a count was positive, the next read yields a byte, the one that was the oldest.\<close>

lemma available_then_getc:
  assumes "world_wf w" "available u w = Some (n, w1)" "n \<noteq> 0"
  shows "\<exists>b w'. getc u b0 w1 = Some (HAL_OK, b, w') \<and> b = hd (rx_list u w @ rx_arriving u w)"
proof -
  obtain n' v where "available u w = Some (n', v)" "world_wf v" "rx_list u v = rx_list u w @ rx_arriving u w" "unat n' = length (rx_list u v)"
    using available_spec assms(1) unfolding hal_uart_rx_available_spec_def by blast
  with assms(2) have w1: "world_wf w1" "rx_list u w1 = rx_list u w @ rx_arriving u w" "unat n = length (rx_list u w1)" by simp_all
  have ne: "rx_list u w1 \<noteq> []" using w1(3) assms(3) by (auto simp: unat_eq_0)
  obtain rc b w' where g: "getc u b0 w1 = Some (rc, b, w')"
    "rc = HAL_OK \<and> rx_list u w1 @ rx_arriving u w1 = b # rx_list u w'
      \<or> rc = HAL_ERR_EMPTY \<and> b = b0 \<and> rx_list u w1 @ rx_arriving u w1 = [] \<and> rx_list u w' = []"
    using getc_spec w1(1) unfolding hal_uart_getc_spec_def by blast
  with ne have "rc = HAL_OK" "rx_list u w1 @ rx_arriving u w1 = b # rx_list u w'" by auto
  with ne w1(2) have "b = hd (rx_list u w @ rx_arriving u w)" by (metis hd_append2 list.sel(1))
  with g(1) \<open>rc = HAL_OK\<close> show ?thesis by blast
qed

text \<open>After a flush of a silent line, a read finds nothing and the count is zero.\<close>

lemma flush_then_empty:
  assumes "world_wf w" "flush u w = Some w1" "rx_quiet u w"
  shows "(\<exists>w'. getc u b0 w1 = Some (HAL_ERR_EMPTY, b0, w')) \<and> (\<exists>w'. available u w1 = Some (0, w'))"
proof -
  obtain v where "flush u w = Some v" "world_wf v" "later w v" "rx_list u v = []"
    using flush_spec assms(1) unfolding hal_uart_rx_flush_spec_of_def by blast
  with assms(2) have w1: "world_wf w1" "later w w1" "rx_list u w1 = []" by simp_all
  have none: "rx_arriving u w1 = []" using later_rx_quiet [OF w1(2) assms(3)] by (rule rx_quiet_arriving)
  obtain rc b w' where g: "getc u b0 w1 = Some (rc, b, w')"
    "rc = HAL_OK \<and> rx_list u w1 @ rx_arriving u w1 = b # rx_list u w'
      \<or> rc = HAL_ERR_EMPTY \<and> b = b0 \<and> rx_list u w1 @ rx_arriving u w1 = [] \<and> rx_list u w' = []"
    using getc_spec w1(1) unfolding hal_uart_getc_spec_def by blast
  moreover obtain n w2 where "available u w1 = Some (n, w2)" "unat n = length (rx_list u w2)" "rx_list u w2 = rx_list u w1 @ rx_arriving u w1"
    using available_spec w1(1) unfolding hal_uart_rx_available_spec_def by blast
  ultimately show ?thesis using w1(3) none by (auto simp: unat_eq_0)
qed

end

subsection \<open>The facade meets the specifications\<close>

lemma uart_init_meets: "hal_uart0_init_spec hal_uart0_init" "hal_uart1_init_spec hal_uart1_init"
  by (auto simp: hal_uart0_init_spec_def hal_uart1_init_spec_def hal_uart_init_spec_def hal_uart0_init_def hal_uart1_init_def
      uart0_init_hw_def uart1_init_hw_def Let_def sdk_do_def rx_list_def rx_of_def rb_list_def rb_count_def
      UART0_BAUD_def UART1_BAUD_def UART0_TX_PIN_def UART0_RX_PIN_def UART1_TX_PIN_def UART1_RX_PIN_def)

lemma i2c_init_meets: "hal_i2c1_init_spec sdk (hal_i2c1_init sdk)"
  by (auto simp: hal_i2c1_init_spec_def hal_i2c1_init_def i2c1_init_hw_def Let_def split: prod.splits if_splits)

lemma i2c_read_meets: "hal_i2c_read_reg_spec sdk (hal_i2c_read_reg sdk)"
  unfolding hal_i2c_read_reg_spec_def
  by (auto simp: hal_i2c_read_reg_def i2c1_read_reg_def store_bytes_def bus_code_def HAL_codes_distinct Let_def split: prod.split)

lemma i2c_write_meets: "hal_i2c_write_spec sdk (hal_i2c_write sdk)"
  unfolding hal_i2c_write_spec_def
  by (auto simp: hal_i2c_write_def i2c1_write_def bus_code_def Let_def split: prod.splits)

text \<open>A bus that takes one byte less than it is given, without an error.\<close>

lemma i2c_short_write: "\<exists>sdk :: unit i2c_sdk. \<not> hal_i2c_write_counted sdk (hal_i2c_write sdk)"
proof -
  let ?sdk = "\<lparr>i2c_init = (\<lambda>f d. (f, d)), gpio_set_function_i2c = (\<lambda>_ d. d), gpio_pull_up = (\<lambda>_ d. d),
     i2c_write_timeout_us = (\<lambda>_ bs _ _ d. (int (length bs) - 1, d)), i2c_read_timeout_us = (\<lambda>_ n _ _ d. ((int n, replicate n 0), d)),
     PICO_ERROR_GENERIC = - 1, PICO_ERROR_TIMEOUT = - 2\<rparr> :: unit i2c_sdk"
  have "hal_i2c_write ?sdk HAL_I2C1 0 (Some [1, 2]) 2 0 () = Some (HAL_OK, ())"
    by (simp add: hal_i2c_write_def i2c1_write_def)
  moreover have "fst (i2c_write_timeout_us ?sdk 0 (take 2 [1, 2]) False 0 ()) \<noteq> int 2" by simp
  moreover have "(0 :: nat) < 2 \<and> 2 \<le> length [1 :: u8, 2]" by simp
  ultimately have "\<not> hal_i2c_write_counted ?sdk (hal_i2c_write ?sdk)"
    unfolding hal_i2c_write_counted_def by blast
  then show ?thesis by blast
qed

text \<open>A wait for the transmitter gives up only at a reading that has reached the deadline.\<close>

lemma uart_wait_writable_late:
  assumes "world_wf w" "uart_wait_writable u d w = Some (ready, w')"
  shows "world_wf w' \<and> (\<not> ready \<longrightarrow> w_reads w < w_reads w' \<and> d \<le> w_clock w (w_reads w' - 1))"
proof -
  let ?P = "\<lambda>d w (r :: bool \<times> world). world_wf w \<longrightarrow>
    world_wf (snd r) \<and> (\<not> fst r \<longrightarrow> w_reads w < w_reads (snd r) \<and> d \<le> w_clock w (w_reads (snd r) - 1))"
  have "?P d w (ready, w')"
  proof (rule uart_wait_writable.raw_induct [where P = "\<lambda>u. ?P", OF _ assms(2)], intro impI, goal_cases)
    case (1 loop u d w r)
    obtain w1 where w1: "uart_is_writable u w = Some (w_txready w u (w_step w), w1)" "world_wf w1" "later w w1" "w_reads w1 = w_reads w"
      using uart_is_writable_spec [OF 1(3)] by blast
    obtain w2 where w2: "hal_time_us w1 = Some (w_clock w1 (w_reads w1), w2)" "world_wf w2" "later w1 w2" "w_reads w2 = Suc (w_reads w1)"
      using hal_time_us_spec [OF w1(2)] by blast
    have clk: "w_clock w1 = w_clock w" "w_clock w2 = w_clock w" using w1(3) w2(3) by (simp_all add: later_def same_hw_def)
    have rec: "?P d w2 r" if "loop u d w2 = Some r" using 1(1) that by blast
    have run: "(if w_txready w u (w_step w) then Some (True, w1)
        else if d \<le> w_clock w (w_reads w) then Some (False, w2) else loop u d w2) = Some r"
      using 1(2) w1(1) w2(1) by (simp add: clk w1(4) cong: if_cong)
    show ?case
    proof (cases "w_txready w u (w_step w)")
      case True
      with run w1(2) show ?thesis by auto
    next
      case False
      show ?thesis
      proof (cases "d \<le> w_clock w (w_reads w)")
        case True
        with False run w1(4) w2(2,4) show ?thesis by auto
      next
        case late: False
        with False run have "loop u d w2 = Some r" by simp
        from rec [OF this] w2(2,4) w1(4) clk show ?thesis by auto
      qed
    qed
  qed
  with assms(1) show ?thesis by simp
qed

lemma uart_write_loop_late:
  "world_wf w \<Longrightarrow> uart_write_loop u d buf len i w = Some (HAL_ERR_TIMEOUT, w') \<Longrightarrow> w_reads w < w_reads w' \<and> d \<le> w_clock w (w_reads w' - 1)"
proof (induction u d buf len i w rule: uart_write_loop.induct)
  case (1 u d buf len i w)
  have i: "i < len" using 1(3) HAL_codes_distinct by (subst (asm) uart_write_loop.simps) (auto split: if_splits)
  with 1(3) obtain ready w1 where wait: "uart_wait_writable u d w = Some (ready, w1)"
    by (subst (asm) uart_write_loop.simps) (auto simp: Option.bind_eq_Some_conv)
  show ?case
  proof (cases ready)
    case False
    with wait i 1(3) have "w' = w1" by (subst (asm) uart_write_loop.simps) simp
    with uart_wait_writable_late [OF 1(2) wait] False show ?thesis by simp
  next
    case True
    with wait i 1(3) obtain c where c: "rd buf i = Some c"
      "uart_write_loop u d buf len (Suc i) (uart_putc_raw u c w1) = Some (HAL_ERR_TIMEOUT, w')"
      by (subst (asm) uart_write_loop.simps) (auto simp: Option.bind_eq_Some_conv)
    have r: "reads_all (\<lambda>t. t < d) w (uart_putc_raw u c w1)"
      using uart_wait_writable_reads [OF wait] True reads_all_trans uart_putc_raw_reads by blast
    have "world_wf w1" using uart_wait_writable_late [OF 1(2) wait] by blast
    then have "world_wf (uart_putc_raw u c w1)" using sent_wf [OF uart_putc_raw_sent] by blast
    from 1(1) [OF i wait refl _ c(1) this c(2)] r True show ?thesis by (auto simp: reads_all_def)
  qed
qed

lemma uart_write_meets: "hal_uart_write_spec_of hal_uart_write"
  unfolding hal_uart_write_spec_of_def
proof (intro allI impI)
  fix u len and t :: u32 and b :: bytes and w :: world
  assume w: "world_wf w" "live_clock (w_clock w)" and len: "len \<le> length b"
  let ?v = "if u = HAL_UART0 then HAL_UART0 else HAL_UART1" and ?d = "w_clock w (w_reads w) + ucast t"
  obtain w1 where w1: "hal_time_us w = Some (w_clock w (w_reads w), w1)" "world_wf w1" "later w w1" "rx_grows w w1" "w_reads w1 = Suc (w_reads w)"
    using hal_time_us_spec [OF w(1)] by (meson rx_growsI)
  have clk: "w_clock w1 = w_clock w" using w1(3) by (simp add: later_def same_hw_def)
  obtain rc k w' where r: "uart_write_loop ?v ?d b len 0 w1 = Some (rc, w')" "k \<le> len" "sent ?v (take k b) w1 w'"
      "rc = HAL_OK \<and> k = len \<or> rc = HAL_ERR_TIMEOUT \<and> k < len"
    using uart_write_loop_spec [OF w1(2) _ len, where i = 0 and u = ?v and d = ?d] w(2) clk by auto
  have run: "hal_uart_write u (Some b) len t w = Some (rc, w')"
    using w1(1) r(1) by (auto simp: hal_uart_write_def uart_write_def Let_def)
  have out: "sent u (take k b) w w'"
    using sent_trans [OF later_sent [OF w1(3,2,4)], of u "take k b" w'] sent_uart_id [of u] r(3) by simp
  have reads: "reads_but_last (\<lambda>x. x < ?d) w1 w'" "rc = HAL_OK \<Longrightarrow> reads_all (\<lambda>x. x < ?d) w1 w'"
    using postD [OF uart_write_loop_reads r(1)] by simp_all
  have late: "rc = HAL_ERR_TIMEOUT \<Longrightarrow> w_reads w1 < w_reads w' \<and> ?d \<le> w_clock w1 (w_reads w' - 1)"
    using uart_write_loop_late [OF w1(2)] r(1) by blast
  have before: "\<forall>n. w_reads w < n \<and> n < w_reads w' - 1 \<longrightarrow> w_clock w n < ?d"
    using reads(1) w1(5) clk by (auto simp: reads_but_last_def)
  have more: "w_reads w < w_reads w'" using reads(1) w1(5) by (simp add: reads_but_last_def)
  have "rc = HAL_OK \<and> k = len \<and> (w_reads w' - 1 = w_reads w \<or> w_clock w (w_reads w' - 1) < ?d)
      \<or> rc = HAL_ERR_TIMEOUT \<and> k < len \<and> w_reads w < w_reads w' - 1 \<and> ?d \<le> w_clock w (w_reads w' - 1)"
    using r(4)
  proof (elim disjE conjE)
    assume ok: "rc = HAL_OK" "k = len"
    have all: "\<forall>n. w_reads w1 \<le> n \<and> n < w_reads w' \<longrightarrow> w_clock w n < ?d"
      using reads(2) [OF ok(1)] clk by (simp add: reads_all_def)
    have "w_reads w' - 1 = w_reads w \<or> w_clock w (w_reads w' - 1) < ?d"
    proof (cases "w_reads w' = w_reads w1")
      case False
      with reads(1) w1(5) have "w_reads w1 \<le> w_reads w' - 1 \<and> w_reads w' - 1 < w_reads w'" by (auto simp: reads_but_last_def)
      with all show ?thesis by blast
    qed (simp add: w1(5))
    with ok show ?thesis by blast
  next
    assume "rc = HAL_ERR_TIMEOUT" "k < len"
    with late w1(5) clk show ?thesis by auto
  qed
  with run out more before show "\<exists>rc k w'. hal_uart_write u (Some b) len t w = Some (rc, w') \<and> sent u (take k b) w w' \<and> w_reads w < w_reads w'
      \<and> (let first = w_reads w; last = w_reads w' - 1; deadline = w_clock w first + ucast t in
         (\<forall>n. first < n \<and> n < last \<longrightarrow> w_clock w n < deadline)
         \<and> (rc = HAL_OK \<and> k = len \<and> (last = first \<or> w_clock w last < deadline)
           \<or> rc = HAL_ERR_TIMEOUT \<and> k < len \<and> first < last \<and> deadline \<le> w_clock w last))"
    by (simp only: Let_def) blast
qed

lemma getc_meets: "hal_uart_getc_spec hal_uart_getc"
  unfolding hal_uart_getc_spec_def
proof (intro allI impI)
  fix u b0 and w :: world
  assume "world_wf w"
  then show "\<exists>rc b w'. hal_uart_getc u b0 w = Some (rc, b, w') \<and> world_wf w' \<and> later w w'
      \<and> (rc = HAL_OK \<and> rx_list u w @ rx_arriving u w = b # rx_list u w'
         \<or> rc = HAL_ERR_EMPTY \<and> b = b0 \<and> rx_list u w @ rx_arriving u w = [] \<and> rx_list u w' = [])"
    by (cases rule: hal_uart_getc_cases [of w u b0]) blast+
qed

lemma available_meets: "hal_uart_rx_available_spec hal_uart_rx_available"
  unfolding hal_uart_rx_available_spec_def
proof (intro allI impI)
  fix u and w :: world
  assume "world_wf w"
  then obtain w1 where w1: "serve_irqs w = Some w1" "world_wf w1" "later w w1" "rx_list u w1 = rx_list u w @ rx_arriving u w"
    using serve_irqs_spec by blast
  then show "\<exists>n w'. hal_uart_rx_available u w = Some (n, w') \<and> world_wf w' \<and> later w w'
      \<and> rx_list u w' = rx_list u w @ rx_arriving u w \<and> unat n = length (rx_list u w')"
    using uart_rx_available_count [OF rx_of_wf [OF w1(2), of u]]
    by (simp add: hal_uart_rx_available_def rx_list_def del: length_rb_list)
qed

lemma flush_meets: "hal_uart_rx_flush_spec_of hal_uart_rx_flush"
  unfolding hal_uart_rx_flush_spec_of_def using hal_uart_rx_flush_spec by blast

lemma time_meets: "hal_time_us_spec_of hal_time_us"
  unfolding hal_time_us_spec_of_def using hal_time_us_spec by blast

lemma delay_meets: "hal_delay_ms_spec hal_delay_ms"
  unfolding hal_delay_ms_spec_def
proof (intro allI impI)
  fix ms and w :: world
  assume "world_wf w"
  then obtain w1 where w1: "serve_irqs w = Some w1" "world_wf w1" "later w w1" using serve_irqs_spec by blast
  have "(if 1000 < ms then 1000 else ms) = min ms (1000 :: u32)" by (auto simp: min_def)
  with w1 show "\<exists>w'. hal_delay_ms ms w = Some w' \<and> world_wf w' \<and> same_hw w w' \<and> w_tx0 w' = w_tx0 w \<and> w_tx1 w' = w_tx1 w
      \<and> w_calls w' = w_calls w @ [SleepMs (min ms 1000)]"
    by (auto simp: hal_delay_ms_def sdk_do_def world_wf_def later_def same_hw_def)
qed

interpretation facade: uart_facade hal_uart_getc hal_uart_rx_available hal_uart_rx_flush
  by unfold_locales (rule getc_meets available_meets flush_meets)+

subsection \<open>The driver headers\<close>

text \<open>
  The same for the internal headers \<open>hal/rp2040_uart.h\<close> and \<open>hal/rp2040_i2c.h\<close>, below the facade: initialisation is
  documented as in the facade, the receive functions speak of one ring. The comments on \<open>uart_write\<close> and
  \<open>i2c1_read_reg\<close> promise a byte count, which the code does not return.
\<close>

definition uart0_init_hw_spec :: "(world \<Rightarrow> int \<times> world) \<Rightarrow> bool" where
  "uart0_init_hw_spec = hal_uart_init_spec HAL_UART0 115200 0 1"

definition uart1_init_hw_spec :: "(world \<Rightarrow> int \<times> world) \<Rightarrow> bool" where
  "uart1_init_hw_spec = hal_uart_init_spec HAL_UART1 9600 4 5"

definition uart_write_doc :: "(u8 \<Rightarrow> bytes option \<Rightarrow> nat \<Rightarrow> u32 \<Rightarrow> world \<Rightarrow> (int \<times> world) option) \<Rightarrow> bool" where
  "uart_write_doc write \<longleftrightarrow>
     (\<forall>u b len t w. world_wf w \<longrightarrow> live_clock (w_clock w) \<longrightarrow> len \<le> length b \<longrightarrow>
        (\<exists>rc w'. write u (Some b) len t w = Some (rc, w')
           \<and> (rc = HAL_ERR_TIMEOUT \<or> (\<exists>k \<le> len. rc = int k \<and> sent u (take k b) w w'))))"

definition uart_getc_nb_spec :: "(ringbuf \<Rightarrow> u8 option \<Rightarrow> (int \<times> u8 option \<times> ringbuf) option) \<Rightarrow> bool" where
  "uart_getc_nb_spec getc \<longleftrightarrow>
     (\<forall>rb b0. rb_wf rb \<longrightarrow>
        (case rb_list rb of
           [] \<Rightarrow> getc rb (Some b0) = Some (HAL_ERR_EMPTY, Some b0, rb)
         | b # bs \<Rightarrow> \<exists>rb'. getc rb (Some b0) = Some (HAL_OK, Some b, rb') \<and> rb_wf rb' \<and> rb_list rb' = bs))"

definition uart_rx_available_spec :: "(ringbuf \<Rightarrow> u32) \<Rightarrow> bool" where
  "uart_rx_available_spec available \<longleftrightarrow> (\<forall>rb. rb_wf rb \<longrightarrow> unat (available rb) = length (rb_list rb))"

definition uart_rx_flush_spec :: "(ringbuf \<Rightarrow> ringbuf) \<Rightarrow> bool" where
  "uart_rx_flush_spec flush \<longleftrightarrow> (\<forall>rb. rb_wf rb \<longrightarrow> rb_wf (flush rb) \<and> rb_list (flush rb) = [])"

text \<open>An interrupt handler takes the bytes of its receive FIFO into its ring as far as there is room.\<close>

definition uart_irq_spec :: "u8 \<Rightarrow> (bytes \<Rightarrow> world \<Rightarrow> world option) \<Rightarrow> bool" where
  "uart_irq_spec u handler \<longleftrightarrow>
     (\<forall>fifo w. world_wf w \<longrightarrow>
        (\<exists>w'. handler fifo w = Some w' \<and> world_wf w' \<and> later w w'
           \<and> (\<forall>v. rx_list v w' = (if (v = HAL_UART0) = (u = HAL_UART0) then take 255 (rx_list v w @ fifo) else rx_list v w))))"

definition i2c1_init_hw_spec :: "'d i2c_sdk \<Rightarrow> ('d \<Rightarrow> int \<times> 'd) \<Rightarrow> bool" where
  "i2c1_init_hw_spec = hal_i2c1_init_spec"

definition i2c1_read_reg_doc ::
  "'d i2c_sdk \<Rightarrow> (u8 \<Rightarrow> u8 \<Rightarrow> bytes option \<Rightarrow> nat \<Rightarrow> u32 \<Rightarrow> 'd \<Rightarrow> (int \<times> bytes option \<times> 'd) option) \<Rightarrow> bool" where
  "i2c1_read_reg_doc sdk read \<longleftrightarrow>
     (\<forall>addr reg b len t d. len \<le> length b \<longrightarrow>
        (\<exists>rc b' d'. read addr reg (Some b) len t d = Some (rc, Some b', d')
           \<and> (rc < 0 \<or> rc = fst (fst (i2c_read_timeout_us sdk addr len False t (snd (i2c_write_timeout_us sdk addr [reg] True t d)))))))"

definition i2c1_write_spec :: "'d i2c_sdk \<Rightarrow> (u8 \<Rightarrow> bytes option \<Rightarrow> nat \<Rightarrow> u32 \<Rightarrow> 'd \<Rightarrow> (int \<times> 'd) option) \<Rightarrow> bool" where
  "i2c1_write_spec sdk write \<longleftrightarrow>
     (\<forall>addr b len t d. 0 < len \<longrightarrow> len \<le> length b \<longrightarrow>
        write addr (Some b) len t d = Some (apfst (bus_code sdk) (i2c_write_timeout_us sdk addr (take len b) False t d)))"

lemma irq_meets: "uart_irq_spec HAL_UART0 uart0_rx_irq_handler" "uart_irq_spec HAL_UART1 uart1_rx_irq_handler"
proof -
  have loop: "\<exists>rb'. rx_irq_loop fifo rb = Some rb' \<and> rb_wf rb' \<and> rb_list rb' = take 255 (rb_list rb @ fifo)" if "rb_wf rb" for fifo rb
    using ring.foldM_accepts [OF that, of fifo] ring.cont_bounded [OF that] by (simp add: rx_irq_loop_foldM)
  show "uart_irq_spec HAL_UART0 uart0_rx_irq_handler"
    unfolding uart_irq_spec_def
  proof (intro allI impI)
    fix fifo w
    assume w: "world_wf w"
    obtain r0 where "rx_irq_loop fifo (s_rx0 w) = Some r0" "rb_wf r0" "rb_list r0 = take 255 (rb_list (s_rx0 w) @ fifo)"
      using loop [of "s_rx0 w" fifo] w by (auto simp: world_wf_def)
    with w show "\<exists>w'. uart0_rx_irq_handler fifo w = Some w' \<and> world_wf w' \<and> later w w'
        \<and> (\<forall>v. rx_list v w' = (if (v = HAL_UART0) = (HAL_UART0 = HAL_UART0) then take 255 (rx_list v w @ fifo) else rx_list v w))"
      by (auto simp: uart0_rx_irq_handler_def rx_of_def world_wf_def later_def same_hw_def rx_list_def)
  qed
  show "uart_irq_spec HAL_UART1 uart1_rx_irq_handler"
    unfolding uart_irq_spec_def
  proof (intro allI impI)
    fix fifo w
    assume w: "world_wf w"
    obtain r1 where "rx_irq_loop fifo (s_rx1 w) = Some r1" "rb_wf r1" "rb_list r1 = take 255 (rb_list (s_rx1 w) @ fifo)"
      using loop [of "s_rx1 w" fifo] w by (auto simp: world_wf_def)
    with w show "\<exists>w'. uart1_rx_irq_handler fifo w = Some w' \<and> world_wf w' \<and> later w w'
        \<and> (\<forall>v. rx_list v w' = (if (v = HAL_UART0) = (HAL_UART1 = HAL_UART0) then take 255 (rx_list v w @ fifo) else rx_list v w))"
      by (auto simp: uart1_rx_irq_handler_def rx_of_def world_wf_def later_def same_hw_def rx_list_def)
  qed
qed

lemma uart_ring_meets: "uart_getc_nb_spec uart_getc_nb" "uart_rx_available_spec uart_rx_available" "uart_rx_flush_spec uart_rx_flush"
proof -
  have "\<exists>rb'. uart_getc_nb rb (Some b0) = Some (HAL_OK, Some b, rb') \<and> rb_wf rb' \<and> rb_list rb' = bs" if "rb_wf rb" "rb_list rb = b # bs" for rb b0 b bs
    using uart_getc_nb_cons [OF that] by metis
  then show "uart_getc_nb_spec uart_getc_nb" by (auto simp: uart_getc_nb_spec_def uart_getc_nb_empty split: list.split)
  show "uart_rx_available_spec uart_rx_available" unfolding uart_rx_available_spec_def using uart_rx_available_count by blast
  show "uart_rx_flush_spec uart_rx_flush" by (simp add: uart_rx_flush_spec_def uart_rx_flush_wf uart_rx_flush_list)
qed

text \<open>A transmission that succeeds returns \<open>HAL_OK\<close>, which is no count of its bytes.\<close>

lemma uart_write_no_count: "\<not> uart_write_doc uart_write"
proof
  assume doc: "uart_write_doc uart_write"
  let ?w = "sim_world [] []"
  obtain rc w' where r: "uart_write HAL_UART0 (Some [65]) 1 5000 ?w = Some (rc, w')"
    "rc = HAL_ERR_TIMEOUT \<or> (\<exists>k \<le> 1. rc = int k \<and> sent HAL_UART0 (take k [65]) ?w w')"
    using doc [unfolded uart_write_doc_def, rule_format, of ?w 1 "[65]" HAL_UART0 5000] by auto
  have f: "w_clock ?w = of_nat" "w_txready ?w = (\<lambda>_ _. True)" "w_reads ?w = 0" by (simp_all add: sim_world_def)
  have wf: "world_wf ?w" by simp
  obtain w1 where w1: "hal_time_us ?w = Some (0, w1)" "world_wf w1" "later ?w w1"
    using hal_time_us_spec [OF wf] f by auto
  have ready: "w_txready w1 = (\<lambda>_ _. True)" using w1(3) f(2) by (simp add: later_def same_hw_def)
  obtain w2 where w2: "uart_is_writable HAL_UART0 w1 = Some (True, w2)" "later w1 w2"
    using uart_is_writable_spec [OF w1(2), of HAL_UART0] ready by auto
  note w2 = w2(1) later_trans [OF w1(3) w2(2)]
  have run: "uart_write HAL_UART0 (Some [65]) 1 5000 ?w = Some (HAL_OK, uart_putc_raw HAL_UART0 65 w2)"
    using w1(1) w2(1)
    by (simp add: uart_write_def uart_write_loop.simps [of _ _ _ _ 0] uart_write_loop.simps [of _ _ _ _ "Suc 0"] uart_wait_writable.simps rd_def)
  with r have "sent HAL_UART0 [] ?w (uart_putc_raw HAL_UART0 65 w2)" by (auto simp: HAL_OK_def HAL_ERR_TIMEOUT_def)
  then show False using w2(2) by (simp add: sent_def tx_of_def uart_putc_raw_def later_def)
qed

lemma i2c_init_hw_meets: "i2c1_init_hw_spec sdk (i2c1_init_hw sdk)"
  using i2c_init_meets [of sdk] by (simp add: i2c1_init_hw_spec_def hal_i2c1_init_def [abs_def])

lemma i2c1_write_meets: "i2c1_write_spec sdk (i2c1_write sdk)"
  by (auto simp: i2c1_write_spec_def i2c1_write_def bus_code_def Let_def split: prod.splits)

lemma i2c1_read_no_count: "\<exists>sdk :: unit i2c_sdk. \<not> i2c1_read_reg_doc sdk (i2c1_read_reg sdk)"
proof -
  let ?sdk = "\<lparr>i2c_init = (\<lambda>f d. (f, d)), gpio_set_function_i2c = (\<lambda>_ d. d), gpio_pull_up = (\<lambda>_ d. d),
     i2c_write_timeout_us = (\<lambda>_ bs _ _ d. (int (length bs), d)), i2c_read_timeout_us = (\<lambda>_ n _ _ d. ((int n, replicate n 0), d)),
     PICO_ERROR_GENERIC = - 1, PICO_ERROR_TIMEOUT = - 2\<rparr> :: unit i2c_sdk"
  have "i2c1_read_reg ?sdk a r (Some [7]) 1 t () = Some (HAL_OK, Some [0], ())" for a r t
    by (simp add: i2c1_read_reg_def store_bytes_def)
  then have "\<not> i2c1_read_reg_doc ?sdk (i2c1_read_reg ?sdk)"
    unfolding i2c1_read_reg_doc_def by (auto simp: HAL_OK_def intro!: exI [of _ "[7]"] exI [of _ 1])
  then show ?thesis by blast
qed

text \<open>The internal headers: everything but the two byte counts holds.\<close>

theorem driver_headers:
  "uart0_init_hw_spec uart0_init_hw \<and> uart1_init_hw_spec uart1_init_hw \<and> \<not> uart_write_doc uart_write
   \<and> uart_getc_nb_spec uart_getc_nb \<and> uart_rx_available_spec uart_rx_available \<and> uart_rx_flush_spec uart_rx_flush
   \<and> uart_irq_spec HAL_UART0 uart0_rx_irq_handler \<and> uart_irq_spec HAL_UART1 uart1_rx_irq_handler
   \<and> i2c1_init_hw_spec sdk (i2c1_init_hw sdk) \<and> i2c1_write_spec sdk (i2c1_write sdk)
   \<and> (\<exists>sdk :: unit i2c_sdk. \<not> i2c1_read_reg_doc sdk (i2c1_read_reg sdk))"
  using uart_init_meets uart_write_no_count uart_ring_meets irq_meets i2c_init_hw_meets [of sdk] i2c1_write_meets [of sdk] i2c1_read_no_count
  by (simp add: uart0_init_hw_spec_def uart1_init_hw_spec_def hal_uart0_init_spec_def hal_uart1_init_spec_def
      hal_uart0_init_def [abs_def] hal_uart1_init_def [abs_def])

subsection \<open>Properties\<close>

text \<open>
  C23: The entries of the hardware facade keep the promises of their comments in \<open>rp2040_hal.h\<close> (but for the watchdog, whose two
  entries are one SDK call each): both UARTs and I2C1 are set up at
  the documented speed and pins; a register read writes the register number, then reads, and returns \<open>HAL_OK\<close> iff both
  succeed and \<open>len\<close> bytes came, otherwise the code of what failed, leaving the rest of the buffer; an I2C write hands over the
  bytes and returns the code of the bus; a transmission queues all bytes, or a prefix and reports a time-out, which it does only at a
  reading of the timer that has reached the deadline, and never waits past such a reading; a read yields the oldest
  byte or \<open>HAL_ERR_EMPTY\<close>, the count is that of the waiting bytes, a flush discards them, the time is that of the timer and a delay sleeps at most a
  second. One promise has a gap: \<open>hal_i2c_write\<close> does not compare the count of the bus, so a write cut short without an error
  is reported as \<open>HAL_OK\<close>.
\<close>

theorem facade_meets_header:
  "hal_uart0_init_spec hal_uart0_init \<and> hal_uart1_init_spec hal_uart1_init \<and> hal_i2c1_init_spec sdk (hal_i2c1_init sdk)
   \<and> hal_i2c_read_reg_spec sdk (hal_i2c_read_reg sdk) \<and> hal_i2c_write_spec sdk (hal_i2c_write sdk)
   \<and> hal_uart_write_spec_of hal_uart_write \<and> hal_uart_getc_spec hal_uart_getc
   \<and> hal_uart_rx_available_spec hal_uart_rx_available \<and> hal_uart_rx_flush_spec_of hal_uart_rx_flush
   \<and> hal_time_us_spec_of hal_time_us \<and> hal_delay_ms_spec hal_delay_ms
   \<and> (\<exists>sdk :: unit i2c_sdk. \<not> hal_i2c_write_counted sdk (hal_i2c_write sdk))"
  by (intro conjI uart_init_meets i2c_init_meets i2c_read_meets i2c_write_meets uart_write_meets getc_meets available_meets
      flush_meets time_meets delay_meets i2c_short_write)

text \<open>
  What the components rely on: a byte that was counted can be read, and after a flush of a silent line
  there is none.
\<close>

theorem facade_sequences:
  assumes "world_wf w"
  shows "hal_uart_rx_available u w = Some (n, w1) \<and> n \<noteq> 0 \<longrightarrow>
      (\<exists>w'. hal_uart_getc u b0 w1 = Some (HAL_OK, hd (rx_list u w @ rx_arriving u w), w'))"
    and "hal_uart_rx_flush u w = Some w1 \<and> rx_quiet u w \<longrightarrow> (\<exists>w'. hal_uart_getc u b0 w1 = Some (HAL_ERR_EMPTY, b0, w'))"
  using facade.available_then_getc [OF assms, of u n w1 b0] facade.flush_then_empty [OF assms, of u w1 b0] by auto

end
