(* ===== verification/Battery.thy ===== *)
theory Battery
  imports I2c
begin

text \<open>
  \<open>Components/BatteryMonitor\<close>: the component's fields, the poll of the IP5306 and the command
  handlers. What the component sends through its F' ports (telemetry, events, command responses)
  is appended to \<open>bat_out\<close> in the order of the calls.
\<close>

datatype bat_output =
    TlmBatteryPercent u8
  | TlmChargeState u8
  | TlmOutputEnabled bool
  | TlmI2cErrors u32
  | LogI2cReadError u8 int
  | LogBatteryLow u8
  | LogBatteryCritical u8
  | LogChargeStateChanged u8
  | LogBatteryFull
  | BatCmdResponse u32 u32 cmd_response

record battery =
  m_lowThreshold :: u8
  m_lastChargeState :: u8
  m_lastFull :: bool
  m_i2cErrors :: u32
  m_criticalEventSent :: bool
  bat_out :: "bat_output list"

definition IP5306_I2C_ADDR :: u8 where "IP5306_I2C_ADDR = 0x75"
definition IP5306_REG_READ0 :: u8 where "IP5306_REG_READ0 = 0x70"
definition IP5306_REG_READ3 :: u8 where "IP5306_REG_READ3 = 0x77"
definition kLevelPercent :: bytes where "kLevelPercent = [12, 37, 62, 88]"
definition BATTERY_CRITICAL_THRESHOLD :: u8 where "BATTERY_CRITICAL_THRESHOLD = 5"

definition battery_init :: battery where
  "battery_init = \<lparr>m_lowThreshold = 20, m_lastChargeState = 0xFF, m_lastFull = False,
     m_i2cErrors = 0, m_criticalEventSent = False, bat_out = []\<rparr>"

definition bat_emit :: "bat_output \<Rightarrow> battery \<Rightarrow> battery" where
  "bat_emit x b = b\<lparr>bat_out := bat_out b @ [x]\<rparr>"

subsection \<open>\<open>doPoll\<close>\<close>

definition threshold_events :: "bool \<Rightarrow> u8 \<Rightarrow> battery \<Rightarrow> battery" where
  "threshold_events is_charging percent b =
     (if \<not> is_charging then
        if percent \<le> BATTERY_CRITICAL_THRESHOLD \<and> \<not> m_criticalEventSent b
        then (bat_emit (LogBatteryCritical percent) b)\<lparr>m_criticalEventSent := True\<rparr>
        else if percent \<le> m_lowThreshold b then bat_emit (LogBatteryLow percent) b
        else b
      else b\<lparr>m_criticalEventSent := False\<rparr>)"

definition transition_events :: "u8 \<Rightarrow> bool \<Rightarrow> battery \<Rightarrow> battery" where
  "transition_events charge_state is_full b =
     (let b1 = (if charge_state \<noteq> m_lastChargeState b
                then (bat_emit (LogChargeStateChanged charge_state) b)\<lparr>m_lastChargeState := charge_state\<rparr>
                else b);
          b2 = (if is_full \<and> \<not> m_lastFull b1 then bat_emit LogBatteryFull b1 else b1)
      in b2\<lparr>m_lastFull := is_full\<rparr>)"

definition doPoll :: "'d i2c_sdk \<Rightarrow> battery \<Rightarrow> 'd \<Rightarrow> (battery \<times> 'd) option" where
  "doPoll sdk b d = do {
     (rc, p, d1) \<leftarrow> hal_i2c_read_reg sdk HAL_I2C1 IP5306_I2C_ADDR IP5306_REG_READ0 (Some [0, 0, 0]) 3 2000 d;
     buf \<leftarrow> p;
     if rc \<noteq> HAL_OK then
       let b1 = b\<lparr>m_i2cErrors := m_i2cErrors b + 1\<rparr>;
           b2 = bat_emit (LogI2cReadError IP5306_REG_READ0 rc) b1
       in Some (bat_emit (TlmI2cErrors (m_i2cErrors b2)) b2, d1)
     else do {
       r0 \<leftarrow> rd buf 0;
       r1 \<leftarrow> rd buf 1;
       r2 \<leftarrow> rd buf 2;
       let is_full = (r0 AND 0x08 \<noteq> 0);
       let charge_state = drop_bit 2 r1 AND 0x07;
       let level_bits = drop_bit 3 r2 AND 0x03;
       percent \<leftarrow> (if is_full then Some 100 else rd kLevelPercent (unat level_bits));
       (rc, p, d2) \<leftarrow> hal_i2c_read_reg sdk HAL_I2C1 IP5306_I2C_ADDR IP5306_REG_READ3 (Some [0]) 1 2000 d1;
       buf3 \<leftarrow> p;
       reg3 \<leftarrow> rd buf3 0;
       let output_en = (rc = HAL_OK \<and> reg3 AND 0x08 \<noteq> 0);
       let b1 = bat_emit (TlmOutputEnabled output_en)
                 (bat_emit (TlmChargeState charge_state) (bat_emit (TlmBatteryPercent percent) b));
       let is_charging = (charge_state \<ge> 1 \<and> charge_state \<le> 3);
       let b2 = threshold_events is_charging percent b1;
       Some (transition_events charge_state is_full b2, d2) } }"

subsection \<open>Handlers\<close>

definition bat_schedIn_handler :: "'d i2c_sdk \<Rightarrow> battery \<Rightarrow> 'd \<Rightarrow> (battery \<times> 'd) option" where
  "bat_schedIn_handler sdk b d = doPoll sdk b d"

definition BATTERY_POLL_cmdHandler ::
  "'d i2c_sdk \<Rightarrow> u32 \<Rightarrow> u32 \<Rightarrow> battery \<Rightarrow> 'd \<Rightarrow> (battery \<times> 'd) option" where
  "BATTERY_POLL_cmdHandler sdk opCode cmdSeq b d = do {
     (b1, d1) \<leftarrow> doPoll sdk b d;
     Some (bat_emit (BatCmdResponse opCode cmdSeq CmdOK) b1, d1) }"

definition BATTERY_SET_LOW_THRESHOLD_cmdHandler :: "u32 \<Rightarrow> u32 \<Rightarrow> u8 \<Rightarrow> battery \<Rightarrow> battery" where
  "BATTERY_SET_LOW_THRESHOLD_cmdHandler opCode cmdSeq threshold b =
     (if threshold < 1 \<or> threshold > 99
      then bat_emit (BatCmdResponse opCode cmdSeq VALIDATION_ERROR) b
      else bat_emit (BatCmdResponse opCode cmdSeq CmdOK) (b\<lparr>m_lowThreshold := threshold\<rparr>))"

subsection \<open>One poll, seen from the battery\<close>

text \<open>
  What a poll learns from the IP5306: either the error code of the burst read, or the decoded
  registers. \<open>bat_sample\<close> performs the two bus reads; \<open>bat_apply\<close> is the effect of a reading on
  the component, independent of the bus.
\<close>

datatype bat_reading = ReadFailed int | Reading (rd_full: bool) (rd_charge: u8) (rd_percent: u8) (rd_output: bool)

definition decode_percent :: "bool \<Rightarrow> u8 \<Rightarrow> u8" where
  "decode_percent is_full r2 = (if is_full then 100 else kLevelPercent ! unat (drop_bit 3 r2 AND 0x03))"

definition bat_sample :: "'d i2c_sdk \<Rightarrow> 'd \<Rightarrow> bat_reading \<times> 'd" where
  "bat_sample sdk d =
     (case hal_i2c_read_reg sdk HAL_I2C1 IP5306_I2C_ADDR IP5306_REG_READ0 (Some [0, 0, 0]) 3 2000 d of
        Some (rc, Some buf, d1) \<Rightarrow>
          if rc \<noteq> HAL_OK then (ReadFailed rc, d1)
          else
            (case hal_i2c_read_reg sdk HAL_I2C1 IP5306_I2C_ADDR IP5306_REG_READ3 (Some [0]) 1 2000 d1 of
               Some (rc', Some buf3, d2) \<Rightarrow>
                 (Reading (bit (buf ! 0) 3) (drop_bit 2 (buf ! 1) AND 0x07)
                    (decode_percent (bit (buf ! 0) 3) (buf ! 2)) (rc' = HAL_OK \<and> bit (buf3 ! 0) 3), d2)
             | _ \<Rightarrow> (ReadFailed 0, d))
      | _ \<Rightarrow> (ReadFailed 0, d))"

definition bat_apply :: "bat_reading \<Rightarrow> battery \<Rightarrow> battery" where
  "bat_apply r b =
     (case r of
        ReadFailed rc \<Rightarrow> b\<lparr>m_i2cErrors := m_i2cErrors b + 1,
            bat_out := bat_out b @ [LogI2cReadError IP5306_REG_READ0 rc, TlmI2cErrors (m_i2cErrors b + 1)]\<rparr>
      | Reading full charge percent out \<Rightarrow>
          transition_events charge full (threshold_events (1 \<le> charge \<and> charge \<le> 3) percent
            (b\<lparr>bat_out := bat_out b @ [TlmBatteryPercent percent, TlmChargeState charge, TlmOutputEnabled out]\<rparr>)))"

definition valid_reading :: "bat_reading \<Rightarrow> bool" where
  "valid_reading r \<longleftrightarrow>
     (case r of
        ReadFailed rc \<Rightarrow> rc \<in> {HAL_ERR_TIMEOUT, HAL_ERR_BUS, HAL_ERR_INVAL}
      | Reading full charge percent out \<Rightarrow>
          charge \<le> 7 \<and> percent \<in> {12, 37, 62, 88, 100} \<and> (full \<longrightarrow> percent = 100))"

text \<open>
  The return codes of the bus transactions of one poll: of the burst read of the registers from \<open>READ0\<close>, and of the
  read of \<open>READ3\<close>, which only a successful burst read is followed by.
\<close>

definition poll_codes :: "'d i2c_sdk \<Rightarrow> 'd \<Rightarrow> int \<times> int option" where
  "poll_codes sdk d =
     (case hal_i2c_read_reg sdk HAL_I2C1 IP5306_I2C_ADDR IP5306_REG_READ0 (Some [0, 0, 0]) 3 2000 d of
        Some (rc, buf, d1) \<Rightarrow>
          if rc \<noteq> HAL_OK then (rc, None)
          else
            (rc, case hal_i2c_read_reg sdk HAL_I2C1 IP5306_I2C_ADDR IP5306_REG_READ3 (Some [0]) 1 2000 d1 of
                   Some (rc', buf3, d2) \<Rightarrow> Some rc'
                 | None \<Rightarrow> None)
      | None \<Rightarrow> (HAL_OK, None))"

lemma and_8_bit_3: "b AND 8 \<noteq> 0 \<longleftrightarrow> bit b 3" for b :: u8
proof -
  have "b AND 8 = 0 \<longleftrightarrow> \<not> bit b 3"
    using and_exp_eq_0_iff_not_bit [of b 3] by simp
  then show ?thesis by simp
qed

lemma and_3_less: "unat (x AND 3) < 4" for x :: u8
proof -
  have "x AND 3 \<le> 3" by (rule word_and_le1)
  then show ?thesis by (simp add: word_le_nat_alt)
qed

lemma level_percent: "rd kLevelPercent (unat (x AND 3)) = Some (kLevelPercent ! unat (x AND 3))" for x :: u8
  using and_3_less [of x] by (simp add: rd_def kLevelPercent_def)

lemma decode_percent_in: "decode_percent f r \<in> {12, 37, 62, 88, 100}"
proof -
  have "unat (drop_bit 3 r AND 3) \<in> {0, 1, 2, 3}"
    using and_3_less [of "drop_bit 3 r"] by auto
  then show ?thesis by (auto simp: decode_percent_def kLevelPercent_def)
qed

lemma bat_sample_valid: "valid_reading (fst (bat_sample sdk d))"
proof -
  obtain rc buf d1 where r: "hal_i2c_read_reg sdk HAL_I2C1 IP5306_I2C_ADDR IP5306_REG_READ0 (Some [0, 0, 0]) 3 2000 d
      = Some (rc, Some buf, d1)" "rc \<in> {HAL_OK, HAL_ERR_TIMEOUT, HAL_ERR_BUS, HAL_ERR_INVAL}"
    by (rule hal_i2c_read_reg_total [of 3 "[0, 0, 0]" sdk HAL_I2C1 IP5306_I2C_ADDR IP5306_REG_READ0 2000 d]) auto
  obtain rc' buf3 d2 where r': "hal_i2c_read_reg sdk HAL_I2C1 IP5306_I2C_ADDR IP5306_REG_READ3 (Some [0]) 1 2000 d1
      = Some (rc', Some buf3, d2)"
    by (rule hal_i2c_read_reg_total [of 1 "[0]" sdk HAL_I2C1 IP5306_I2C_ADDR IP5306_REG_READ3 2000 d1]) auto
  have "decode_percent True x = 100" for x by (simp add: decode_percent_def)
  with r r' decode_percent_in show ?thesis
    by (auto simp: bat_sample_def valid_reading_def word_and_le1)
qed

lemma doPoll_apply: "doPoll sdk b d = Some (bat_apply (fst (bat_sample sdk d)) b, snd (bat_sample sdk d))"
proof -
  obtain rc buf d1 where r: "hal_i2c_read_reg sdk HAL_I2C1 IP5306_I2C_ADDR IP5306_REG_READ0 (Some [0, 0, 0]) 3 2000 d
      = Some (rc, Some buf, d1)" "length buf = 3"
    by (rule hal_i2c_read_reg_total [of 3 "[0, 0, 0]" sdk HAL_I2C1 IP5306_I2C_ADDR IP5306_REG_READ0 2000 d]) auto
  obtain rc' buf3 d2 where r': "hal_i2c_read_reg sdk HAL_I2C1 IP5306_I2C_ADDR IP5306_REG_READ3 (Some [0]) 1 2000 d1
      = Some (rc', Some buf3, d2)" "length buf3 = 1"
    by (rule hal_i2c_read_reg_total [of 1 "[0]" sdk HAL_I2C1 IP5306_I2C_ADDR IP5306_REG_READ3 2000 d1]) auto
  show ?thesis
    using r r'
    by (simp add: doPoll_def bat_sample_def bat_apply_def bat_emit_def mem_simps level_percent and_8_bit_3
        decode_percent_def Let_def)
qed

text \<open>A failed second read only clears the output bit.\<close>

lemma poll_codes_sample:
  "case fst (bat_sample sdk d) of
     ReadFailed rc \<Rightarrow> poll_codes sdk d = (rc, None) \<and> rc \<noteq> HAL_OK
   | Reading full charge percent out \<Rightarrow> \<exists>rc3. poll_codes sdk d = (HAL_OK, Some rc3) \<and> (out \<longrightarrow> rc3 = HAL_OK)"
proof -
  obtain rc buf d1 where r: "hal_i2c_read_reg sdk HAL_I2C1 IP5306_I2C_ADDR IP5306_REG_READ0 (Some [0, 0, 0]) 3 2000 d
      = Some (rc, Some buf, d1)"
    by (rule hal_i2c_read_reg_total [of 3 "[0, 0, 0]" sdk HAL_I2C1 IP5306_I2C_ADDR IP5306_REG_READ0 2000 d]) auto
  obtain rc' buf3 d2 where r': "hal_i2c_read_reg sdk HAL_I2C1 IP5306_I2C_ADDR IP5306_REG_READ3 (Some [0]) 1 2000 d1
      = Some (rc', Some buf3, d2)"
    by (rule hal_i2c_read_reg_total [of 1 "[0]" sdk HAL_I2C1 IP5306_I2C_ADDR IP5306_REG_READ3 2000 d1]) auto
  from r r' show ?thesis by (simp add: bat_sample_def poll_codes_def)
qed

subsection \<open>Runs of the component\<close>

text \<open>
  The component's inputs: a tick of the 1 Hz rate group and its two commands, in the order the
  component's queue and the rate group deliver them.
\<close>

datatype bat_call = BatSched | BatPoll u32 u32 | BatSetLow u32 u32 u8

definition bat_handle :: "'d i2c_sdk \<Rightarrow> bat_call \<Rightarrow> battery \<times> 'd \<Rightarrow> (battery \<times> 'd) option" where
  "bat_handle sdk c s =
     (let (b, d) = s in
      case c of
        BatSched \<Rightarrow> bat_schedIn_handler sdk b d
      | BatPoll opCode cmdSeq \<Rightarrow> BATTERY_POLL_cmdHandler sdk opCode cmdSeq b d
      | BatSetLow opCode cmdSeq threshold \<Rightarrow>
          Some (BATTERY_SET_LOW_THRESHOLD_cmdHandler opCode cmdSeq threshold b, d))"

definition bat_run :: "'d i2c_sdk \<Rightarrow> bat_call list \<Rightarrow> battery \<times> 'd \<Rightarrow> (battery \<times> 'd) option" where
  "bat_run sdk = foldM (bat_handle sdk)"

text \<open>The readings the polls of a run take, in order.\<close>

fun bat_readings :: "'d i2c_sdk \<Rightarrow> bat_call list \<Rightarrow> 'd \<Rightarrow> bat_reading list" where
  "bat_readings sdk [] d = []"
| "bat_readings sdk (BatSetLow opCode cmdSeq threshold # cs) d = bat_readings sdk cs d"
| "bat_readings sdk (c # cs) d = fst (bat_sample sdk d) # bat_readings sdk cs (snd (bat_sample sdk d))"

definition good_readings :: "bat_reading list \<Rightarrow> bat_reading list" where
  "good_readings rs = filter (\<lambda>r. case r of ReadFailed _ \<Rightarrow> False | Reading _ _ _ _ \<Rightarrow> True) rs"

text \<open>The return codes of the polls of a run, and how many transactions failed: all of them, and those of the second read.\<close>

fun bat_codes :: "'d i2c_sdk \<Rightarrow> bat_call list \<Rightarrow> 'd \<Rightarrow> (int \<times> int option) list" where
  "bat_codes sdk [] d = []"
| "bat_codes sdk (BatSetLow opCode cmdSeq threshold # cs) d = bat_codes sdk cs d"
| "bat_codes sdk (c # cs) d = poll_codes sdk d # bat_codes sdk cs (snd (bat_sample sdk d))"

definition failed_transactions :: "(int \<times> int option) list \<Rightarrow> nat" where
  "failed_transactions cs = sum_list (map (\<lambda>(rc, rc3). of_bool (rc \<noteq> HAL_OK) + (case rc3 of None \<Rightarrow> 0 | Some r \<Rightarrow> of_bool (r \<noteq> HAL_OK))) cs)"

definition failed_output_reads :: "(int \<times> int option) list \<Rightarrow> nat" where
  "failed_output_reads cs = sum_list (map (\<lambda>(rc, rc3). case rc3 of None \<Rightarrow> 0 | Some r \<Rightarrow> of_bool (r \<noteq> HAL_OK)) cs)"

lemma failed_transactions_simps [simp]:
  "failed_transactions [] = 0" "failed_output_reads [] = 0"
  "failed_transactions ((rc, None) # cs) = of_bool (rc \<noteq> HAL_OK) + failed_transactions cs"
  "failed_transactions ((rc, Some r) # cs) = of_bool (rc \<noteq> HAL_OK) + of_bool (r \<noteq> HAL_OK) + failed_transactions cs"
  "failed_output_reads ((rc, None) # cs) = failed_output_reads cs"
  "failed_output_reads ((rc, Some r) # cs) = of_bool (r \<noteq> HAL_OK) + failed_output_reads cs"
  by (simp_all add: failed_transactions_def failed_output_reads_def)

lemma good_readings_simps [simp]:
  "good_readings [] = []" "good_readings (ReadFailed rc # rs) = good_readings rs"
  "good_readings (Reading f c p out # rs) = Reading f c p out # good_readings rs"
  by (simp_all add: good_readings_def)

lemma failed_polls_sum:
  "failed_transactions (bat_codes sdk cs d) + length (good_readings (bat_readings sdk cs d))
    = length (bat_readings sdk cs d) + failed_output_reads (bat_codes sdk cs d)"
proof (induction cs arbitrary: d)
  case Nil
  then show ?case by simp
next
  case (Cons c cs)
  have poll: ?case if "bat_codes sdk (c # cs) d = poll_codes sdk d # bat_codes sdk cs (snd (bat_sample sdk d))"
    "bat_readings sdk (c # cs) d = fst (bat_sample sdk d) # bat_readings sdk cs (snd (bat_sample sdk d))"
    using poll_codes_sample [of sdk d] Cons.IH [of "snd (bat_sample sdk d)"] that
    by (cases "fst (bat_sample sdk d)") auto
  show ?case
  proof (cases c)
    case (BatSetLow opCode cmdSeq threshold)
    with Cons.IH [of d] show ?thesis by simp
  qed (rule poll; simp)+
qed

lemma failed_polls:
  "failed_transactions (bat_codes sdk cs d) - failed_output_reads (bat_codes sdk cs d)
    = length (bat_readings sdk cs d) - length (good_readings (bat_readings sdk cs d))"
  using failed_polls_sum [of sdk cs d] by simp

lemma bat_handle_cases:
  obtains (poll) post where "bat_handle sdk c (b, d) =
        Some (post (bat_apply (fst (bat_sample sdk d)) b), snd (bat_sample sdk d))"
      "post = (\<lambda>b. b) \<or> (\<exists>opCode cmdSeq. post = bat_emit (BatCmdResponse opCode cmdSeq CmdOK))"
      "\<And>cs. bat_readings sdk (c # cs) d = fst (bat_sample sdk d) # bat_readings sdk cs (snd (bat_sample sdk d))"
  | (set) opCode cmdSeq threshold where "c = BatSetLow opCode cmdSeq threshold"
      "bat_handle sdk c (b, d) = Some (BATTERY_SET_LOW_THRESHOLD_cmdHandler opCode cmdSeq threshold b, d)"
      "\<And>cs. bat_readings sdk (c # cs) d = bat_readings sdk cs d"
proof (cases c)
  case BatSched
  then show ?thesis
    by (intro poll [of "\<lambda>b. b"]) (auto simp: bat_handle_def bat_schedIn_handler_def doPoll_apply)
next
  case (BatPoll opCode cmdSeq)
  then show ?thesis
    by (intro poll [of "bat_emit (BatCmdResponse opCode cmdSeq CmdOK)"])
      (auto simp: bat_handle_def BATTERY_POLL_cmdHandler_def doPoll_apply)
next
  case (BatSetLow opCode cmdSeq threshold)
  then show ?thesis by (intro set) (auto simp: bat_handle_def)
qed

text \<open>
  A state predicate that every valid reading, every response and every accepted threshold keeps
  holds after every run.
\<close>

lemma bat_run_invariant:
  assumes "I b"
    and reading: "\<And>r b. I b \<Longrightarrow> valid_reading r \<Longrightarrow> I (bat_apply r b)"
    and emit: "\<And>o' s x b. I b \<Longrightarrow> I (bat_emit (BatCmdResponse o' s x) b)"
    and set: "\<And>t b. I b \<Longrightarrow> t \<noteq> 0 \<Longrightarrow> t \<le> 99 \<Longrightarrow> I (b\<lparr>m_lowThreshold := t\<rparr>)"
  shows "\<exists>b' d'. bat_run sdk cs (b, d) = Some (b', d') \<and> I b'"
proof -
  have "\<exists>s'. foldM (bat_handle sdk) cs (b, d) = Some s' \<and> I (fst s')"
  proof (rule foldM_inv [where I = "\<lambda>s. I (fst s)"])
    fix c and s :: "battery \<times> 'a"
    assume I: "I (fst s)"
    obtain b d where s: "s = (b, d)" by (cases s)
    show "\<exists>s'. bat_handle sdk c s = Some s' \<and> I (fst s')"
    proof (cases rule: bat_handle_cases [of sdk c b d])
      case (poll post)
      with I s show ?thesis
        by (auto intro!: emit reading bat_sample_valid)
    next
      case (set opCode cmdSeq threshold)
      with I s show ?thesis
        by (auto simp: BATTERY_SET_LOW_THRESHOLD_cmdHandler_def not_less intro!: emit assms(4))
    qed
  qed (simp add: \<open>I b\<close>)
  then show ?thesis by (auto simp: bat_run_def)
qed

subsection \<open>Event streams\<close>

definition charge_events :: "bat_output list \<Rightarrow> u8 list" where
  "charge_events xs = concat (map (\<lambda>x. case x of LogChargeStateChanged c \<Rightarrow> [c] | _ \<Rightarrow> []) xs)"

definition full_events :: "bat_output list \<Rightarrow> nat" where
  "full_events xs = length (filter (\<lambda>x. x = LogBatteryFull) xs)"

text \<open>The number of changes from \<open>False\<close> to \<open>True\<close> in a sequence, after the value \<open>last\<close>.\<close>

fun rising_edges :: "bool \<Rightarrow> bool list \<Rightarrow> nat" where
  "rising_edges prev [] = 0"
| "rising_edges prev (x # xs) = (if x \<and> \<not> prev then 1 else 0) + rising_edges x xs"

lemmas bat_event_defs = charge_events_def full_events_def bat_emit_def threshold_events_def transition_events_def

lemma bat_apply_streams:
  "charge_events (bat_out (bat_apply r b)) = charge_events (bat_out b)
     @ (case r of ReadFailed _ \<Rightarrow> [] | Reading _ c _ _ \<Rightarrow> if c \<noteq> m_lastChargeState b then [c] else [])"
  "full_events (bat_out (bat_apply r b)) = full_events (bat_out b)
     + (case r of ReadFailed _ \<Rightarrow> 0 | Reading f _ _ _ \<Rightarrow> if f \<and> \<not> m_lastFull b then 1 else 0)"
  "m_lastChargeState (bat_apply r b) = (case r of ReadFailed _ \<Rightarrow> m_lastChargeState b | Reading _ c _ _ \<Rightarrow> c)"
  "m_lastFull (bat_apply r b) = (case r of ReadFailed _ \<Rightarrow> m_lastFull b | Reading f _ _ _ \<Rightarrow> f)"
  "m_i2cErrors (bat_apply r b) = m_i2cErrors b + (case r of ReadFailed _ \<Rightarrow> 1 | Reading _ _ _ _ \<Rightarrow> 0)"
  by (cases r; auto simp: bat_apply_def bat_event_defs Let_def)+

lemma bat_set_streams [simp]:
  "charge_events (bat_out (BATTERY_SET_LOW_THRESHOLD_cmdHandler o' q t b)) = charge_events (bat_out b)"
  "full_events (bat_out (BATTERY_SET_LOW_THRESHOLD_cmdHandler o' q t b)) = full_events (bat_out b)"
  "m_lastChargeState (BATTERY_SET_LOW_THRESHOLD_cmdHandler o' q t b) = m_lastChargeState b"
  "m_lastFull (BATTERY_SET_LOW_THRESHOLD_cmdHandler o' q t b) = m_lastFull b"
  "m_i2cErrors (BATTERY_SET_LOW_THRESHOLD_cmdHandler o' q t b) = m_i2cErrors b"
  by (auto simp: BATTERY_SET_LOW_THRESHOLD_cmdHandler_def bat_event_defs)

lemma bat_response_streams [simp]:
  "charge_events (bat_out (bat_emit (BatCmdResponse o' q s) b)) = charge_events (bat_out b)"
  "full_events (bat_out (bat_emit (BatCmdResponse o' q s) b)) = full_events (bat_out b)"
  "m_lastChargeState (bat_emit x b) = m_lastChargeState b"
  "m_lastFull (bat_emit x b) = m_lastFull b"
  "m_i2cErrors (bat_emit x b) = m_i2cErrors b"
  by (auto simp: bat_event_defs)

lemma bat_run_streams:
  assumes "bat_run sdk cs (b, d) = Some (b', d')"
  shows "charge_events (bat_out b') = charge_events (bat_out b)
      @ tl (remdups_adj (m_lastChargeState b # map rd_charge (good_readings (bat_readings sdk cs d))))
    \<and> full_events (bat_out b') = full_events (bat_out b)
      + rising_edges (m_lastFull b) (map rd_full (good_readings (bat_readings sdk cs d)))
    \<and> m_i2cErrors b' = m_i2cErrors b
      + of_nat (length (bat_readings sdk cs d) - length (good_readings (bat_readings sdk cs d)))"
  using assms
proof (induction cs arbitrary: b d)
  case Nil
  then show ?case by (simp add: bat_run_def good_readings_def)
next
  case (Cons c cs)
  have le: "length (good_readings rs) \<le> length rs" for rs
    by (simp add: good_readings_def)
  show ?case
  proof (cases rule: bat_handle_cases [of sdk c b d])
    case (poll post)
    let ?r = "fst (bat_sample sdk d)" and ?d = "snd (bat_sample sdk d)"
    from poll(1) Cons.prems have "bat_run sdk cs (post (bat_apply ?r b), ?d) = Some (b', d')"
      by (simp add: bat_run_def)
    note IH = Cons.IH [OF this]
    have post: "charge_events (bat_out (post x)) = charge_events (bat_out x)"
      "full_events (bat_out (post x)) = full_events (bat_out x)"
      "m_lastChargeState (post x) = m_lastChargeState x" "m_lastFull (post x) = m_lastFull x"
      "m_i2cErrors (post x) = m_i2cErrors x" for x
      using poll(2) by auto
    show ?thesis
    proof (cases ?r)
      case (ReadFailed rc)
      with IH le show ?thesis
        by (simp add: poll(3) post bat_apply_streams good_readings_def Suc_diff_le)
    next
      case (Reading f c' p out)
      with IH show ?thesis
        by (auto simp: poll(3) post bat_apply_streams good_readings_def)
    qed
  next
    case (set opCode cmdSeq threshold)
    with Cons.prems have "bat_run sdk cs (BATTERY_SET_LOW_THRESHOLD_cmdHandler opCode cmdSeq threshold b, d) = Some (b', d')"
      by (simp add: bat_run_def)
    from Cons.IH [OF this] show ?thesis by (simp add: set(3))
  qed
qed

definition responses :: "bat_output list \<Rightarrow> (u32 \<times> u32 \<times> cmd_response) list" where
  "responses xs = concat (map (\<lambda>x. case x of BatCmdResponse o' q r \<Rightarrow> [(o', q, r)] | _ \<Rightarrow> []) xs)"

definition valid_threshold :: "u8 \<Rightarrow> bool" where
  "valid_threshold t \<longleftrightarrow> 1 \<le> t \<and> t \<le> 99"

definition expected_response :: "bat_call \<Rightarrow> (u32 \<times> u32 \<times> cmd_response) list" where
  "expected_response c =
     (case c of
        BatSched \<Rightarrow> []
      | BatPoll o' q \<Rightarrow> [(o', q, CmdOK)]
      | BatSetLow o' q t \<Rightarrow> [(o', q, if valid_threshold t then CmdOK else VALIDATION_ERROR)])"

definition accepted_threshold :: "bat_call \<Rightarrow> u8 list" where
  "accepted_threshold c = (case c of BatSetLow _ _ t \<Rightarrow> if valid_threshold t then [t] else [] | _ \<Rightarrow> [])"

lemma u8_one_le: "1 \<le> t \<longleftrightarrow> t \<noteq> 0" for t :: u8
  using word_less_1 [of t] by (simp add: not_less [symmetric])

lemma threshold_guard: "(t = 0 \<or> 99 < t) \<longleftrightarrow> \<not> valid_threshold t"
  by (auto simp: valid_threshold_def u8_one_le)

lemma charging_iff: "1 \<le> c \<and> c \<le> 3 \<longleftrightarrow> c \<in> {1, 2, 3}" for c :: u8
proof -
  have "1 \<le> unat c \<and> unat c \<le> 3 \<longleftrightarrow> unat c = 1 \<or> unat c = 2 \<or> unat c = 3" by auto
  then show ?thesis by (simp add: word_le_nat_alt word_unat_eq_iff)
qed

lemma responses_append [simp]: "responses (xs @ ys) = responses xs @ responses ys"
  by (simp add: responses_def)

lemma last_valid: "valid_threshold t \<Longrightarrow> (\<And>x. x \<in> set xs \<Longrightarrow> valid_threshold x) \<Longrightarrow> valid_threshold (last (t # xs))"
  by (cases "xs = []") auto

lemma bat_apply_commands:
  "responses (bat_out (bat_apply r b)) = responses (bat_out b)"
  "m_lowThreshold (bat_apply r b) = m_lowThreshold b"
  by (cases r; auto simp: bat_apply_def bat_event_defs responses_def Let_def)+

lemma bat_handle_commands:
  "\<exists>b' d'. bat_handle sdk c (b, d) = Some (b', d')
    \<and> responses (bat_out b') = responses (bat_out b) @ expected_response c
    \<and> m_lowThreshold b' = last (m_lowThreshold b # accepted_threshold c)"
proof (cases c)
  case BatSched
  then show ?thesis
    by (simp add: bat_handle_def bat_schedIn_handler_def doPoll_apply bat_apply_commands
        expected_response_def accepted_threshold_def)
next
  case (BatPoll o' q)
  have "responses [BatCmdResponse o' q CmdOK] = [(o', q, CmdOK)]" by (simp add: responses_def)
  with BatPoll show ?thesis
    by (simp add: bat_handle_def BATTERY_POLL_cmdHandler_def doPoll_apply bat_apply_commands bat_emit_def
        expected_response_def accepted_threshold_def)
next
  case (BatSetLow o' q t)
  have "responses [BatCmdResponse o' q r] = [(o', q, r)]" for r by (simp add: responses_def)
  with BatSetLow show ?thesis
    by (simp add: bat_handle_def BATTERY_SET_LOW_THRESHOLD_cmdHandler_def threshold_guard bat_emit_def
        expected_response_def accepted_threshold_def)
qed

lemma bat_run_commands:
  "\<exists>b' d'. bat_run sdk cs (b, d) = Some (b', d')
    \<and> responses (bat_out b') = responses (bat_out b) @ concat (map expected_response cs)
    \<and> m_lowThreshold b' = last (m_lowThreshold b # concat (map accepted_threshold cs))"
proof (induction cs arbitrary: b d)
  case Nil
  then show ?case by (simp add: bat_run_def)
next
  case (Cons c cs)
  obtain b1 d1 where h: "bat_handle sdk c (b, d) = Some (b1, d1)"
      "responses (bat_out b1) = responses (bat_out b) @ expected_response c"
      "m_lowThreshold b1 = last (m_lowThreshold b # accepted_threshold c)"
    using bat_handle_commands [of sdk c b d] by auto
  from Cons.IH [of b1 d1] h show ?case
    by (auto simp: bat_run_def last_append)
qed

lemma battery_init_simps [simp]:
  "bat_out battery_init = []" "m_lastChargeState battery_init = 0xFF" "m_lastFull battery_init = False"
  "m_i2cErrors battery_init = 0" "m_lowThreshold battery_init = 20" "m_criticalEventSent battery_init = False"
  by (simp_all add: battery_init_def)

lemma good_readings_charge:
  "r \<in> set (good_readings (bat_readings sdk cs d)) \<Longrightarrow> rd_charge r \<le> 7"
proof (induction cs arbitrary: d)
  case Nil
  then show ?case by (simp add: good_readings_def)
next
  case (Cons c cs)
  then show ?case
    using bat_sample_valid [of sdk d]
    by (cases c) (auto simp: good_readings_def valid_reading_def split: bat_reading.splits if_splits)
qed

lemma remdups_adj_fresh: "x \<notin> set xs \<Longrightarrow> tl (remdups_adj (x # xs)) = remdups_adj xs"
  by (cases xs) auto

subsection \<open>Properties\<close>

text \<open>
  C13: A poll of the IP5306 is always defined and does exactly what its registers and the bus call for. When
  the burst read fails it counts the error, reports register and code, and changes nothing else.
  Otherwise the decoded percentage is one of 12, 37, 62, 88 or 100 and the charge state at most 7,
  and it emits, in this order: the three telemetry channels; \<open>BatteryLow\<close> iff the cell is not
  charging and the percentage is at or below the threshold, so in every poll as long as that lasts and not only when
  it drops; \<open>ChargeStateChanged\<close> iff the state
  differs from the last one seen; \<open>BatteryFull\<close> iff the full bit has just risen. The second
  transaction, the read of \<open>READ3\<close>, is silent: when it fails the output is reported as off, and contrary to the
  documentation there is no \<open>I2cReadError\<close> and no error is counted.
\<close>

theorem battery_poll_behaviour:
  "\<exists>b'. doPoll sdk b d = Some (b', snd (bat_sample sdk d)) \<and> valid_reading (fst (bat_sample sdk d)) \<and>
    (case fst (bat_sample sdk d) of
       ReadFailed rc \<Rightarrow> poll_codes sdk d = (rc, None) \<and> b' = b\<lparr>m_i2cErrors := m_i2cErrors b + 1,
         bat_out := bat_out b @ [LogI2cReadError IP5306_REG_READ0 rc, TlmI2cErrors (m_i2cErrors b + 1)]\<rparr>
     | Reading full charge percent out \<Rightarrow>
         (\<exists>rc3. poll_codes sdk d = (HAL_OK, Some rc3) \<and> (rc3 \<noteq> HAL_OK \<longrightarrow> \<not> out))
         \<and> bat_out b' = bat_out b
           @ [TlmBatteryPercent percent, TlmChargeState charge, TlmOutputEnabled out]
           @ (if charge \<notin> {1, 2, 3} \<and> percent \<le> m_lowThreshold b then [LogBatteryLow percent] else [])
           @ (if charge \<noteq> m_lastChargeState b then [LogChargeStateChanged charge] else [])
           @ (if full \<and> \<not> m_lastFull b then [LogBatteryFull] else [])
         \<and> m_lastChargeState b' = charge \<and> m_lastFull b' = full
         \<and> m_lowThreshold b' = m_lowThreshold b \<and> m_i2cErrors b' = m_i2cErrors b)"
proof (cases "fst (bat_sample sdk d)")
  case (ReadFailed rc)
  then show ?thesis using bat_sample_valid [of sdk d] poll_codes_sample [of sdk d] by (simp add: doPoll_apply bat_apply_def)
next
  case (Reading full charge percent out)
  with bat_sample_valid [of sdk d] have "\<not> percent \<le> BATTERY_CRITICAL_THRESHOLD"
    by (auto simp: valid_reading_def BATTERY_CRITICAL_THRESHOLD_def)
  moreover have "\<exists>rc3. poll_codes sdk d = (HAL_OK, Some rc3) \<and> (rc3 \<noteq> HAL_OK \<longrightarrow> \<not> out)"
    using poll_codes_sample [of sdk d] Reading by auto
  ultimately show ?thesis
    using Reading bat_sample_valid [of sdk d]
    by (simp add: doPoll_apply bat_apply_def bat_event_defs charging_iff Let_def)
qed

text \<open>A chip that answers the burst read and refuses the read of \<open>READ3\<close>.\<close>

definition no_read3 :: "unit i2c_sdk" where
  "no_read3 = \<lparr>i2c_init = (\<lambda>f d. (f, d)), gpio_set_function_i2c = (\<lambda>_ d. d), gpio_pull_up = (\<lambda>_ d. d),
     i2c_write_timeout_us = (\<lambda>_ bs _ _ d. (if bs = [IP5306_REG_READ3] then - 1 else int (length bs), d)),
     i2c_read_timeout_us = (\<lambda>_ n _ _ d. ((int n, replicate n 0), d)),
     PICO_ERROR_GENERIC = - 1, PICO_ERROR_TIMEOUT = - 2\<rparr>"

lemma no_read3_sample:
  "bat_sample no_read3 () = (Reading False 0 12 False, ())" "poll_codes no_read3 () = (HAL_OK, Some HAL_ERR_BUS)"
  by code_simp+

lemma battery_poll_behaviour_witness:
  "\<exists>b'. doPoll no_read3 battery_init () = Some (b', ()) \<and> m_i2cErrors b' = 0
    \<and> bat_out b' = [TlmBatteryPercent 12, TlmChargeState 0, TlmOutputEnabled False, LogBatteryLow 12, LogChargeStateChanged 0]"
  using battery_poll_behaviour [of no_read3 battery_init "()"] by (auto simp: no_read3_sample)

text \<open>
  the fatal event \<open>BatteryCritical\<close> is dead code: whatever the battery chip answers and
  whatever commands arrive, no run from power-up ever emits it.
\<close>

theorem battery_never_critical:
  "\<exists>b' d'. bat_run sdk cs (battery_init, d) = Some (b', d')
    \<and> (\<forall>p. LogBatteryCritical p \<notin> set (bat_out b')) \<and> \<not> m_criticalEventSent b'"
proof -
  let ?I = "\<lambda>b. (\<forall>p. LogBatteryCritical p \<notin> set (bat_out b)) \<and> \<not> m_criticalEventSent b"
  have "\<exists>b' d'. bat_run sdk cs (battery_init, d) = Some (b', d') \<and> ?I b'"
    by (rule bat_run_invariant)
      (auto simp: bat_apply_def bat_event_defs valid_reading_def BATTERY_CRITICAL_THRESHOLD_def Let_def
        split: bat_reading.splits)
  then show ?thesis by blast
qed

text \<open>
  C27: Over any run from power-up, the charge-state events are the sequence of sampled charge states
  with immediate repetitions removed, \<open>BatteryFull\<close> is emitted once per rising edge of the full
  bit, and the error counter counts, modulo 2^32, the failed burst reads: these are all failed I2C transactions
  but the failed reads of \<open>READ3\<close>, which the documentation would have it count too.
\<close>

theorem battery_event_streams:
  "\<exists>b' d'. bat_run sdk cs (battery_init, d) = Some (b', d') \<and>
    (let rs = bat_readings sdk cs d; codes = bat_codes sdk cs d in
      charge_events (bat_out b') = remdups_adj (map rd_charge (good_readings rs))
      \<and> full_events (bat_out b') = rising_edges False (map rd_full (good_readings rs))
      \<and> m_i2cErrors b' = of_nat (length rs - length (good_readings rs))
      \<and> m_i2cErrors b' = of_nat (failed_transactions codes - failed_output_reads codes))"
proof -
  obtain b' d' where run: "bat_run sdk cs (battery_init, d) = Some (b', d')"
    using bat_run_commands [of sdk cs battery_init d] by auto
  have "0xFF \<notin> set (map rd_charge (good_readings (bat_readings sdk cs d)))"
    using good_readings_charge [of _ sdk cs d] by fastforce
  from run bat_run_streams [OF run] remdups_adj_fresh [OF this] show ?thesis
    by (simp add: Let_def charge_events_def full_events_def failed_polls)
qed

text \<open>One poll with a failed transaction, and the counter still at zero.\<close>

lemma read3_not_counted:
  "failed_transactions (bat_codes no_read3 [BatSched] ()) = 1
    \<and> (\<exists>b'. bat_run no_read3 [BatSched] (battery_init, ()) = Some (b', ()) \<and> m_i2cErrors b' = 0)"
  by (simp add: no_read3_sample failed_transactions_def bat_run_def bat_handle_def bat_schedIn_handler_def doPoll_apply
      bat_apply_streams HAL_OK_def HAL_ERR_BUS_def)

text \<open>
  C28: Over any run, every command is answered exactly once and in order, a threshold is refused
  with \<open>VALIDATION_ERROR\<close> iff it is outside 1 to 99, and the threshold in force is the last one
  accepted, 20 at power-up; it therefore stays between 1 and 99.
\<close>

theorem battery_commands:
  "\<exists>b' d'. bat_run sdk cs (battery_init, d) = Some (b', d')
    \<and> responses (bat_out b') = concat (map expected_response cs)
    \<and> m_lowThreshold b' = last (20 # concat (map accepted_threshold cs))
    \<and> 1 \<le> m_lowThreshold b' \<and> m_lowThreshold b' \<le> 99"
proof -
  have "valid_threshold (last (20 # concat (map accepted_threshold cs)))"
    by (rule last_valid) (auto simp: accepted_threshold_def valid_threshold_def split: bat_call.splits if_splits)
  with bat_run_commands [of sdk cs battery_init d] show ?thesis
    by (auto simp: responses_def valid_threshold_def)
qed

end
