(* ===== verification/GpsParse.thy ===== *)
theory GpsParse
  imports Prelude "HOL-Library.Signed_Division"
begin

text \<open>
  The pure helpers of \<open>Components/GpsReceiver/GpsReceiver.cpp\<close>: the NMEA checksum and the field
  parsers. A \<open>const char *\<close> is the list of bytes from the address it points to up to the end of the
  array (\<open>None\<close> for \<open>nullptr\<close>), so \<open>field[i]\<close> is \<open>rd field i\<close> and reading past the array is
  \<open>None\<close>. A parser's result is its return value and the value it stores in \<open>out\<close>. \<open>int32_t\<close>
  arithmetic goes through \<open>i32\<close>. Loop indices are \<open>nat\<close>: each is bounded by the loop's guard far
  below 2^32.
\<close>

definition NMEA_LINE_BUF_SIZE :: nat where
  "NMEA_LINE_BUF_SIZE = 100"

subsection \<open>\<open>verifyChecksum\<close>\<close>

function vc_find_star :: "bytes \<Rightarrow> nat \<Rightarrow> nat \<Rightarrow> nat option option" where
  "vc_find_star line len i =
     (if i < len then do {
        c \<leftarrow> rd line i;
        if c = ch CHR ''*'' then Some (Some i) else vc_find_star line len (Suc i) }
      else Some None)"
  by pat_completeness auto
termination
  by (relation "measure (\<lambda>(line, len, i). len - i)") auto

function vc_xor :: "bytes \<Rightarrow> nat \<Rightarrow> nat \<Rightarrow> u8 \<Rightarrow> u8 option" where
  "vc_xor line star_pos i calc =
     (if i < star_pos then do {
        c \<leftarrow> rd line i;
        vc_xor line star_pos (Suc i) (calc XOR c) }
      else Some calc)"
  by pat_completeness auto
termination
  by (relation "measure (\<lambda>(line, star_pos, i, calc). star_pos - i)") auto

definition hexDigit :: "u8 \<Rightarrow> int" where
  "hexDigit c =
     (if ch CHR ''0'' \<le> c \<and> c \<le> ch CHR ''9'' then uint c - uint (ch CHR ''0'')
      else if ch CHR ''A'' \<le> c \<and> c \<le> ch CHR ''F'' then uint c - uint (ch CHR ''A'') + 10
      else if ch CHR ''a'' \<le> c \<and> c \<le> ch CHR ''f'' then uint c - uint (ch CHR ''a'') + 10
      else - 1)"

definition verifyChecksum :: "bytes \<Rightarrow> nat \<Rightarrow> bool option" where
  "verifyChecksum line len = do {
     found \<leftarrow> vc_find_star line len 0;
     case found of
       None \<Rightarrow> Some False
     | Some star_pos \<Rightarrow>
         if star_pos + 2 \<ge> len then Some False
         else do {
           calc \<leftarrow> vc_xor line star_pos 1 0;
           c1 \<leftarrow> rd line (star_pos + 1);
           c2 \<leftarrow> rd line (star_pos + 2);
           let hi = hexDigit c1;
           let lo = hexDigit c2;
           if hi < 0 \<or> lo < 0 then Some False
           else Some (calc = word_of_int (push_bit 4 hi OR lo)) } }"

subsection \<open>\<open>parseDegMin\<close>\<close>

function dm_find_dot :: "bytes \<Rightarrow> nat \<Rightarrow> nat option option" where
  "dm_find_dot field i =
     (if i < 16 then do {
        c \<leftarrow> rd field i;
        if c \<noteq> 0 then
          if c = ch CHR ''.'' then Some (Some i) else dm_find_dot field (Suc i)
        else Some None }
      else Some None)"
  by pat_completeness auto
termination
  by (relation "measure (\<lambda>(field, i). 16 - i)") auto

text \<open>The loops over the degree and the minute digits: \<open>Some None\<close> on a character that is no digit.\<close>

function dm_digits :: "bytes \<Rightarrow> nat \<Rightarrow> nat \<Rightarrow> int \<Rightarrow> int option option" where
  "dm_digits field stop i val =
     (if i < stop then do {
        c \<leftarrow> rd field i;
        if \<not> is_digit c then Some None
        else do {
          v10 \<leftarrow> i32 (val * 10);
          val' \<leftarrow> i32 (v10 + digit_val c);
          dm_digits field stop (Suc i) val' } }
      else Some (Some val))"
  by pat_completeness auto
termination
  by (relation "measure (\<lambda>(field, stop, i, val). stop - i)") auto

function dm_frac :: "bytes \<Rightarrow> nat \<Rightarrow> int \<Rightarrow> nat \<Rightarrow> (int \<times> nat) option" where
  "dm_frac field i min_frac frac_digits =
     (if frac_digits < 4 then do {
        c \<leftarrow> rd field i;
        if c \<noteq> 0 then
          if \<not> is_digit c then Some (min_frac, frac_digits)
          else do {
            v10 \<leftarrow> i32 (min_frac * 10);
            min_frac' \<leftarrow> i32 (v10 + digit_val c);
            dm_frac field (Suc i) min_frac' (Suc frac_digits) }
        else Some (min_frac, frac_digits) }
      else Some (min_frac, frac_digits))"
  by pat_completeness auto
termination
  by (relation "measure (\<lambda>(field, i, min_frac, frac_digits). 4 - frac_digits)") auto

function dm_pad :: "nat \<Rightarrow> int \<Rightarrow> int option" where
  "dm_pad frac_digits min_frac =
     (if frac_digits < 4 then do {
        min_frac' \<leftarrow> i32 (min_frac * 10);
        dm_pad (Suc frac_digits) min_frac' }
      else Some min_frac)"
  by pat_completeness auto
termination
  by (relation "measure (\<lambda>(frac_digits, min_frac). 4 - frac_digits)") auto

declare vc_find_star.simps [simp del] vc_xor.simps [simp del] dm_find_dot.simps [simp del]
  dm_digits.simps [simp del] dm_frac.simps [simp del] dm_pad.simps [simp del]

text \<open>The arithmetic at the end of \<open>parseDegMin\<close>.\<close>

definition dm_result :: "int \<Rightarrow> int \<Rightarrow> int \<Rightarrow> u8 \<Rightarrow> (bool \<times> int) option" where
  "dm_result degrees min_int min_frac hemi = do {
     mi \<leftarrow> i32 (min_int * 10000);
     total_min_x10000 \<leftarrow> i32 (mi + min_frac);
     t100 \<leftarrow> i32 (total_min_x10000 * 100);
     let min_1e6 = t100 sdiv 60;
     d1e6 \<leftarrow> i32 (degrees * 1000000);
     result \<leftarrow> i32 (d1e6 + min_1e6);
     if hemi = ch CHR ''S'' \<or> hemi = ch CHR ''W''
     then do { r \<leftarrow> i32 (- result); Some (True, r) }
     else Some (True, result) }"

text \<open>The conversion once the decimal point has been found.\<close>

definition dm_convert :: "bytes \<Rightarrow> u8 \<Rightarrow> nat \<Rightarrow> (bool \<times> int) option" where
  "dm_convert f hemi dot_pos =
     (let deg_end = dot_pos - 2 in do {
        deg \<leftarrow> dm_digits f deg_end 0 0;
        case deg of
          None \<Rightarrow> Some (False, 0)
        | Some degrees \<Rightarrow> do {
            mins \<leftarrow> dm_digits f dot_pos deg_end 0;
            case mins of
              None \<Rightarrow> Some (False, 0)
            | Some min_int \<Rightarrow> do {
                (frac, frac_digits) \<leftarrow> dm_frac f (dot_pos + 1) 0 0;
                min_frac \<leftarrow> dm_pad frac_digits frac;
                dm_result degrees min_int min_frac hemi } } })"

definition parseDegMin :: "bytes option \<Rightarrow> u8 \<Rightarrow> (bool \<times> int) option" where
  "parseDegMin field hemi =
     (case field of
        None \<Rightarrow> Some (False, 0)
      | Some f \<Rightarrow> do {
          c0 \<leftarrow> rd f 0;
          if c0 = 0 then Some (False, 0)
          else do {
            dot \<leftarrow> dm_find_dot f 0;
            case dot of
              None \<Rightarrow> Some (False, 0)
            | Some dot_pos \<Rightarrow>
                if dot_pos < 3 then Some (False, 0) else dm_convert f hemi dot_pos } })"

subsection \<open>\<open>parseFP\<close>\<close>

function fp_int :: "bytes \<Rightarrow> nat \<Rightarrow> int \<Rightarrow> (nat \<times> int) option option" where
  "fp_int s idx integer_part = do {
     c \<leftarrow> rd s idx;
     if c \<noteq> 0 \<and> c \<noteq> ch CHR ''.'' then
       if \<not> is_digit c then Some None
       else do {
         v10 \<leftarrow> i32 (integer_part * 10);
         v \<leftarrow> i32 (v10 + digit_val c);
         fp_int s (Suc idx) v }
     else Some (Some (idx, integer_part)) }"
  by pat_completeness auto
termination
  by (relation "measure (\<lambda>(s, idx, integer_part). length s - idx)") (auto dest!: rd_SomeD)

function fp_frac :: "bytes \<Rightarrow> nat \<Rightarrow> int \<Rightarrow> u32 \<Rightarrow> (int \<times> u32) option" where
  "fp_frac s idx frac_part fs = do {
     c \<leftarrow> rd s idx;
     if c \<noteq> 0 \<and> fs > 1 then
       if \<not> is_digit c then Some (frac_part, fs)
       else do {
         v10 \<leftarrow> i32 (frac_part * 10);
         v \<leftarrow> i32 (v10 + digit_val c);
         fp_frac s (Suc idx) v (fs div 10) }
     else Some (frac_part, fs) }"
  by pat_completeness auto
termination
  by (relation "measure (\<lambda>(s, idx, frac_part, fs). length s - idx)") (auto dest!: rd_SomeD)

function fp_align :: "u32 \<Rightarrow> int \<Rightarrow> int option" where
  "fp_align frac_scale frac_part =
     (if frac_scale > 1 then do {
        v \<leftarrow> i32 (frac_part * 10);
        fp_align (frac_scale div 10) v }
      else Some frac_part)"
  by pat_completeness auto
termination
  by (relation "measure (\<lambda>(frac_scale, frac_part). unat frac_scale)")
    (auto simp: unat_div word_less_nat_alt)

declare fp_int.simps [simp del] fp_frac.simps [simp del] fp_align.simps [simp del]

text \<open>The optional fraction; a scale of 0 would divide by zero.\<close>

definition fp_fraction :: "bytes \<Rightarrow> u32 \<Rightarrow> nat \<Rightarrow> int option" where
  "fp_fraction s scale idx = do {
     c \<leftarrow> rd s idx;
     if c = ch CHR ''.'' then do {
       (frac_part, fs) \<leftarrow> fp_frac s (idx + 1) 0 scale;
       if scale = 0 then None
       else fp_align (scale div scale * fs) frac_part }
     else Some 0 }"

text \<open>The scale is converted to \<open>int32_t\<close> for the product.\<close>

definition fp_result :: "bool \<Rightarrow> int \<Rightarrow> u32 \<Rightarrow> int \<Rightarrow> (bool \<times> int) option" where
  "fp_result negative integer_part scale frac_part = do {
     scaled \<leftarrow> i32 (integer_part * sint scale);
     result \<leftarrow> i32 (scaled + frac_part);
     out \<leftarrow> (if negative then i32 (- result) else Some result);
     Some (True, out) }"

definition parseFP :: "bytes option \<Rightarrow> u32 \<Rightarrow> (bool \<times> int) option" where
  "parseFP sp scale =
     (case sp of
        None \<Rightarrow> Some (False, 0)
      | Some s \<Rightarrow> do {
          c0 \<leftarrow> rd s 0;
          if c0 = 0 then Some (False, 0)
          else do {
            let negative = (c0 = ch CHR ''-'');
            ip \<leftarrow> fp_int s (if negative then 1 else 0) 0;
            case ip of
              None \<Rightarrow> Some (False, 0)
            | Some (idx, integer_part) \<Rightarrow> do {
                frac_part \<leftarrow> fp_fraction s scale idx;
                fp_result negative integer_part scale frac_part } } })"

subsection \<open>\<open>parseU8\<close>, \<open>parseU16\<close>\<close>

text \<open>The digit loop of both: at most \<open>limit\<close> characters, \<open>Some None\<close> on one that is no digit.\<close>

function pu_digits :: "bytes \<Rightarrow> nat \<Rightarrow> nat \<Rightarrow> u32 \<Rightarrow> u32 option option" where
  "pu_digits s limit i val =
     do {
       c \<leftarrow> rd s i;
       if c \<noteq> 0 \<and> i < limit then
         if \<not> is_digit c then Some None
         else pu_digits s limit (Suc i) (val * 10 + word_of_int (digit_val c))
       else Some (Some val) }"
  by pat_completeness auto
termination
  by (relation "measure (\<lambda>(s, limit, i, val). limit - i)") auto

declare pu_digits.simps [simp del]

definition parseU8 :: "bytes option \<Rightarrow> (bool \<times> u8) option" where
  "parseU8 sp =
     (case sp of
        None \<Rightarrow> Some (True, 0)
      | Some s \<Rightarrow> do {
          c0 \<leftarrow> rd s 0;
          if c0 = 0 then Some (True, 0)
          else do {
            r \<leftarrow> pu_digits s 4 0 0;
            case r of
              None \<Rightarrow> Some (False, 0)
            | Some val \<Rightarrow> if val > 255 then Some (False, 0) else Some (True, ucast val) } })"

definition parseU16 :: "bytes option \<Rightarrow> (bool \<times> u16) option" where
  "parseU16 sp =
     (case sp of
        None \<Rightarrow> Some (True, 0)
      | Some s \<Rightarrow> do {
          c0 \<leftarrow> rd s 0;
          if c0 = 0 then Some (True, 0)
          else do {
            r \<leftarrow> pu_digits s 6 0 0;
            case r of
              None \<Rightarrow> Some (False, 0)
            | Some val \<Rightarrow> if val > 65535 then Some (False, 0) else Some (True, ucast val) } })"

subsection \<open>The checksum loops\<close>

lemma vc_find_star_found:
  assumes "ch CHR ''*'' \<notin> set xs" "length pre + length xs < len"
  shows "vc_find_star (pre @ xs @ ch CHR ''*'' # rest) len (length pre) = Some (Some (length pre + length xs))"
  using assms
proof (induction xs arbitrary: pre)
  case Nil
  then show ?case by (subst vc_find_star.simps) (simp add: mem_simps)
next
  case (Cons x xs)
  from Cons.IH [of "pre @ [x]"] Cons.prems show ?case
    by (subst vc_find_star.simps) (simp add: mem_simps)
qed

lemma vc_find_star_none:
  assumes "ch CHR ''*'' \<notin> set xs"
  shows "vc_find_star (pre @ xs @ rest) (length pre + length xs) (length pre) = Some None"
  using assms
proof (induction xs arbitrary: pre)
  case Nil
  then show ?case by (subst vc_find_star.simps) simp
next
  case (Cons x xs)
  from Cons.IH [of "pre @ [x]"] Cons.prems show ?case
    by (subst vc_find_star.simps) (simp add: mem_simps)
qed

lemma vc_xor_fold:
  "vc_xor (pre @ xs @ rest) (length pre + length xs) (length pre) acc = Some (foldl (XOR) acc xs)"
proof (induction xs arbitrary: pre acc)
  case Nil
  then show ?case by (subst vc_xor.simps) simp
next
  case (Cons x xs)
  from Cons.IH [of "pre @ [x]"] show ?case
    by (subst vc_xor.simps) (simp add: mem_simps)
qed

text \<open>The checksum of a sentence body, and the sentence that carries it.\<close>

definition nmea_checksum :: "bytes \<Rightarrow> u8" where
  "nmea_checksum body = foldl (XOR) 0 body"

definition hex_char :: "nat \<Rightarrow> u8" where
  "hex_char n = (if n < 10 then of_nat (48 + n) else of_nat (55 + n))"

definition hex_byte :: "u8 \<Rightarrow> bytes" where
  "hex_byte b = [hex_char (unat b div 16), hex_char (unat b mod 16)]"

definition nmea_frame :: "bytes \<Rightarrow> bytes" where
  "nmea_frame body = ch CHR ''$'' # body @ ch CHR ''*'' # hex_byte (nmea_checksum body)"

lemma hexDigit_hex_char: "n < 16 \<Longrightarrow> hexDigit (hex_char n) = int n"
proof -
  assume "n < 16"
  moreover have "\<forall>n \<in> set [0..<16]. hexDigit (hex_char n) = int n"
    by (simp add: upt_conv_Cons hexDigit_def hex_char_def)
  ultimately show ?thesis by simp
qed

lemma hex_pair_value:
  "(word_of_int (push_bit 4 (int (unat b div 16)) OR int (unat b mod 16)) :: u8) = b"
proof -
  have "push_bit 4 (int (unat b div 16)) OR int (unat b mod 16)
      = concat_bit 4 (int (unat b mod 16)) (int (unat b div 16))"
    by (simp add: concat_bit_def take_bit_eq_mod zmod_int or.commute)
  also have "\<dots> = int (unat b)"
    by (simp add: concat_bit_eq take_bit_eq_mod push_bit_eq_mult zmod_int zdiv_int)
  finally show ?thesis by (simp add: word_of_int_uint)
qed

lemma verifyChecksum_frame:
  assumes "ch CHR ''*'' \<notin> set body"
  shows "verifyChecksum (ch CHR ''$'' # body @ ch CHR ''*'' # hex_byte ck @ rest) (length body + 4)
    = Some (nmea_checksum body = ck)"
proof -
  define line where "line = ch CHR ''$'' # body @ ch CHR ''*'' # hex_byte ck @ rest"
  have find: "vc_find_star line (length body + 4) 0 = Some (Some (Suc (length body)))"
    using vc_find_star_found [of "ch CHR ''$'' # body" "[]" "length body + 4" "hex_byte ck @ rest"] assms
    by (simp add: line_def)
  have xor: "vc_xor line (Suc (length body)) (Suc 0) 0 = Some (nmea_checksum body)"
    using vc_xor_fold [of "[ch CHR ''$'']" body "ch CHR ''*'' # hex_byte ck @ rest" 0]
    by (simp add: nmea_checksum_def line_def)
  have "rd line (Suc (Suc (length body))) = Some (hex_char (unat ck div 16))"
    "rd line (Suc (Suc (Suc (length body)))) = Some (hex_char (unat ck mod 16))"
    by (simp_all add: rd_def nth_append hex_byte_def line_def)
  moreover have "unat ck div 16 < 16" using unat_u8_less [of ck] by simp
  ultimately have "verifyChecksum line (length body + 4) = Some (nmea_checksum body = ck)"
    using find xor hex_pair_value [of ck]
    by (simp add: verifyChecksum_def hexDigit_hex_char Let_def)
  then show ?thesis by (simp add: line_def)
qed

subsection \<open>The digit loops\<close>

lemma dm_digits_value:
  assumes "digits ds" "0 \<le> v" "dec_from v ds < 2147483648"
  shows "dm_digits (pre @ ds @ rest) (length pre + length ds) (length pre) v = Some (Some (dec_from v ds))"
  using assms
proof (induction ds arbitrary: pre v)
  case Nil
  then show ?case by (subst dm_digits.simps) simp
next
  case (Cons c ds)
  have d: "0 \<le> digit_val c" "digit_val c \<le> 9" using Cons.prems(1) digit_val_range [of c] by auto
  then have "v * 10 + digit_val c < 2147483648"
    using dec_from_ge [of ds "v * 10 + digit_val c"] Cons.prems by simp
  with Cons.IH [of "v * 10 + digit_val c" "pre @ [c]"] Cons.prems d show ?case
    by (subst dm_digits.simps) (simp add: mem_simps ub_simps)
qed

lemma dm_digits_overflow:
  assumes "digits ds" "0 \<le> v" "v < 2147483648" "2147483648 \<le> dec_from v ds"
  shows "dm_digits (pre @ ds @ rest) (length pre + length ds) (length pre) v = None"
  using assms
proof (induction ds arbitrary: pre v)
  case Nil
  then show ?case by simp
next
  case (Cons c ds)
  have d: "0 \<le> digit_val c" "digit_val c \<le> 9" using Cons.prems(1) digit_val_range [of c] by auto
  show ?case
  proof (cases "v * 10 + digit_val c < 2147483648")
    case True
    with Cons.IH [of "v * 10 + digit_val c" "pre @ [c]"] Cons.prems d show ?thesis
      by (subst dm_digits.simps) (simp add: mem_simps ub_simps)
  next
    case False
    with Cons.prems d show ?thesis
      by (subst dm_digits.simps) (simp add: mem_simps i32_def)
  qed
qed

lemma dm_digits_bad:
  assumes "digits ds" "\<not> is_digit c" "0 \<le> v" "dec_from v ds < 2147483648" "length pre + length ds < stop"
  shows "dm_digits (pre @ ds @ c # rest) stop (length pre) v = Some None"
  using assms
proof (induction ds arbitrary: pre v)
  case Nil
  then show ?case by (subst dm_digits.simps) (simp add: mem_simps)
next
  case (Cons x ds)
  have d: "0 \<le> digit_val x" "digit_val x \<le> 9" using Cons.prems(1) digit_val_range [of x] by auto
  then have "v * 10 + digit_val x < 2147483648"
    using dec_from_ge [of ds "v * 10 + digit_val x"] Cons.prems by simp
  with Cons.IH [of "v * 10 + digit_val x" "pre @ [x]"] Cons.prems d show ?case
    by (subst dm_digits.simps) (simp add: mem_simps ub_simps)
qed

lemma dm_find_dot_found:
  assumes "ch CHR ''.'' \<notin> set xs" "0 \<notin> set xs" "length pre + length xs < 16"
  shows "dm_find_dot (pre @ xs @ ch CHR ''.'' # rest) (length pre) = Some (Some (length pre + length xs))"
  using assms
proof (induction xs arbitrary: pre)
  case Nil
  then show ?case by (subst dm_find_dot.simps) (simp add: mem_simps)
next
  case (Cons x xs)
  from Cons.IH [of "pre @ [x]"] Cons.prems show ?case
    by (subst dm_find_dot.simps) (simp add: mem_simps)
qed

text \<open>The value of the first \<open>k\<close> fractional digits, padded with zeros to \<open>k\<close> digits.\<close>

definition frac_value :: "nat \<Rightarrow> bytes \<Rightarrow> int" where
  "frac_value k ds = dec (take k ds) * 10 ^ (k - length (take k ds))"

lemma frac_value_bounds: "digits ds \<Longrightarrow> 0 \<le> frac_value k ds \<and> frac_value k ds < 10 ^ k"
proof -
  assume "digits ds"
  then have d: "digits (take k ds)" by (auto simp: list_all_iff dest: in_set_takeD)
  let ?n = "length (take k ds)"
  have "dec (take k ds) * 10 ^ (k - ?n) < 10 ^ ?n * 10 ^ (k - ?n)"
    using dec_bounds [OF d] by (intro mult_strict_right_mono) auto
  also have "\<dots> = 10 ^ k" by (simp flip: power_add)
  finally show ?thesis using dec_bounds [OF d] by (simp add: frac_value_def)
qed

lemma dm_frac_value:
  assumes "digits ds" "n \<le> 4" "0 \<le> v" "v < 10 ^ n" "c = 0 \<or> \<not> is_digit c"
  shows "dm_frac (pre @ ds @ c # rest) (length pre) v n
    = Some (dec_from v (take (4 - n) ds), n + length (take (4 - n) ds))"
  using assms
proof (induction ds arbitrary: pre v n)
  case Nil
  then show ?case by (subst dm_frac.simps) (auto simp: mem_simps)
next
  case (Cons x ds)
  show ?case
  proof (cases "n = 4")
    case True
    then show ?thesis by (subst dm_frac.simps) simp
  next
    case False
    have d: "0 \<le> digit_val x" "digit_val x \<le> 9" using Cons.prems(1) digit_val_range [of x] by auto
    have n: "n \<le> 3" using False Cons.prems(2) by simp
    have "(10::int) ^ n \<le> 10 ^ 3" using n by (intro power_increasing) auto
    then have "v * 10 + digit_val x < 10 ^ Suc n" "v * 10 + digit_val x < 10000" using Cons.prems(4) d by auto
    moreover have "4 - n = Suc (4 - Suc n)" using n by simp
    ultimately show ?thesis
      using Cons.IH [of "Suc n" "v * 10 + digit_val x" "pre @ [x]"] Cons.prems d n
      by (subst dm_frac.simps) (simp add: mem_simps ub_simps)
  qed
qed

lemma dm_pad_value:
  assumes "n \<le> 4" "0 \<le> v" "v < 10 ^ n"
  shows "dm_pad n v = Some (v * 10 ^ (4 - n))"
  using assms
proof (induction "4 - n" arbitrary: n v)
  case 0
  then show ?case by (subst dm_pad.simps) simp
next
  case (Suc k)
  have n: "n \<le> 3" using Suc.hyps(2) by simp
  have "(10::int) ^ n \<le> 10 ^ 3" using n by (intro power_increasing) auto
  then have "v < 1000" using Suc.prems by simp
  moreover have "4 - n = Suc (4 - Suc n)" using n by simp
  ultimately show ?case
    using Suc.hyps(1) [of "Suc n" "v * 10"] Suc.hyps(2) Suc.prems n
    by (subst dm_pad.simps) (simp add: ub_simps)
qed

lemma frac4_loop:
  assumes "digits ds" "c = 0 \<or> \<not> is_digit c"
  shows "do { (v, n) \<leftarrow> dm_frac (pre @ ds @ c # rest) (length pre) 0 0; dm_pad n v } = Some (frac_value 4 ds)"
proof -
  have d: "digits (take 4 ds)" using assms(1) by (auto simp: list_all_iff dest: in_set_takeD)
  show ?thesis
    using dm_frac_value [OF assms(1), of 0 0 c pre rest] assms(2) dec_bounds [OF d]
      dm_pad_value [of "length (take 4 ds)" "dec (take 4 ds)"]
    by (simp add: frac_value_def dec_def)
qed

lemma sdiv_nonneg: "0 \<le> a \<Longrightarrow> 0 < b \<Longrightarrow> a sdiv b = a div b" for a b :: int
  by (cases "a = 0") (auto simp: signed_divide_int_def)

subsection \<open>Functional behaviour of the field parsers\<close>

text \<open>Millionths of a degree from degrees, minutes and the fractional digits of the minutes.\<close>

definition degmin_value :: "bytes \<Rightarrow> bytes \<Rightarrow> bytes \<Rightarrow> int" where
  "degmin_value D M F = dec D * 1000000 + (dec M * 10000 + frac_value 4 F) * 100 div 60"

definition hemi_sign :: "u8 \<Rightarrow> int" where
  "hemi_sign h = (if h = ch CHR ''S'' \<or> h = ch CHR ''W'' then - 1 else 1)"

lemma degmin_value_bounds:
  assumes "digits D" "digits M" "digits F" "length M = 2" "length D \<le> 3"
  shows "0 \<le> degmin_value D M F \<and> degmin_value D M F < 1002000000"
proof -
  have D: "0 \<le> dec D" "dec D < 1000" using dec_bounds_le [OF assms(1,5)] by simp_all
  have M: "0 \<le> dec M" "dec M < 100" using dec_bounds [OF assms(2)] assms(4) by simp_all
  have F: "0 \<le> frac_value 4 F" "frac_value 4 F < 10000" using frac_value_bounds [OF assms(3), of 4] by simp_all
  have "0 \<le> (dec M * 10000 + frac_value 4 F) * 100 div 60" "(dec M * 10000 + frac_value 4 F) * 100 div 60 \<le> 1666665"
    using M F by auto
  with D show ?thesis unfolding degmin_value_def by (intro conjI) linarith+
qed

text \<open>The degree digits, of which there may be up to 13: the arithmetic is defined iff the value fits 32 bits.\<close>

lemma parseDegMin_range:
  assumes D: "digits D" "1 \<le> length D" "length D \<le> 13" and M: "digits M" "length M = 2"
    and F: "digits F" and c: "c = 0 \<or> \<not> is_digit c"
  shows "parseDegMin (Some (D @ M @ ch CHR ''.'' # F @ c # rest)) hemi
    = (if degmin_value D M F < 2 ^ 31 then Some (True, hemi_sign hemi * degmin_value D M F) else None)"
proof -
  define f where "f = D @ M @ ch CHR ''.'' # F @ c # rest"
  let ?n = "length D" and ?v = "frac_value 4 F"
  have dD: "0 \<le> dec D" using dec_bounds [OF D(1)] by simp
  have dM: "0 \<le> dec M" "dec M < 100" using dec_bounds [OF M(1)] M(2) by simp_all
  have dF: "0 \<le> ?v" "?v < 10000" using frac_value_bounds [OF F, of 4] by simp_all
  obtain x xs where x: "D = x # xs" using D(2) by (cases D) auto
  have c0: "rd f 0 = Some x" "x \<noteq> 0" using x D(1) by (auto simp: f_def rd_def)
  have dot: "dm_find_dot f 0 = Some (Some (?n + 2))"
    using dm_find_dot_found [of "D @ M" "[]" "F @ c # rest"] D M by (auto simp: f_def)
  have deg: "dm_digits f ?n 0 0 = (if dec D < 2 ^ 31 then Some (Some (dec D)) else None)"
    using dm_digits_value [of D 0 "[]" "M @ ch CHR ''.'' # F @ c # rest"]
      dm_digits_overflow [of D 0 "[]" "M @ ch CHR ''.'' # F @ c # rest"] D by (simp add: f_def dec_def)
  have min: "dm_digits f (?n + 2) ?n 0 = Some (Some (dec M))"
    using dm_digits_value [of M 0 D "ch CHR ''.'' # F @ c # rest"] M dM by (simp add: f_def dec_def)
  have idx: "length (D @ M @ [ch CHR ''.'']) = ?n + 2 + 1" using M(2) by simp
  obtain v n where frac: "dm_frac f (?n + 2 + 1) 0 0 = Some (v, n)" "dm_pad n v = Some ?v"
    using frac4_loop [OF F c, of "D @ M @ [ch CHR ''.'']" rest, unfolded idx]
    by (auto simp: f_def Option.bind_eq_Some_conv)
  have m1e6: "(dec M * 10000 + ?v) * 100 sdiv 60 = (dec M * 10000 + ?v) * 100 div 60"
    using dM dF by (intro sdiv_nonneg) auto
  have le: "(dec M * 10000 + ?v) * 100 div 60 \<le> 1666665" "0 \<le> (dec M * 10000 + ?v) * 100 div 60"
    using dM dF by auto
  have "\<not> ?n + 2 < 3" "?n + 2 - 2 = ?n" using x by simp_all
  then have "parseDegMin (Some f) hemi
      = (if degmin_value D M F < 2 ^ 31 then Some (True, hemi_sign hemi * degmin_value D M F) else None)"
    unfolding parseDegMin_def option.case bind.bind_lunit c0(1) dot
    using c0(2) dD dM dF le m1e6 deg min frac
    by (simp add: ub_simps Let_def dm_convert_def dm_result_def hemi_sign_def degmin_value_def)
      (simp add: i32_def bind_split)
  then show ?thesis by (simp add: f_def)
qed

lemma parseDegMin_value:
  assumes D: "digits D" "1 \<le> length D" "length D \<le> 3" and M: "digits M" "length M = 2"
    and F: "digits F" and c: "c = 0 \<or> \<not> is_digit c"
  shows "parseDegMin (Some (D @ M @ ch CHR ''.'' # F @ c # rest)) hemi
    = Some (True, hemi_sign hemi * degmin_value D M F)"
  using parseDegMin_range [OF D(1,2) _ M F c, of rest hemi] degmin_value_bounds [OF D(1) M(1) F M(2) D(3)] D(3) by simp

lemma fp_int_value:
  assumes "digits ds" "0 \<le> v" "dec_from v ds < 2147483648" "c = 0 \<or> c = ch CHR ''.''"
  shows "fp_int (pre @ ds @ c # rest) (length pre) v = Some (Some (length pre + length ds, dec_from v ds))"
  using assms
proof (induction ds arbitrary: pre v)
  case Nil
  then show ?case by (subst fp_int.simps) (auto simp: mem_simps)
next
  case (Cons x ds)
  have d: "0 \<le> digit_val x" "digit_val x \<le> 9" using Cons.prems(1) digit_val_range [of x] by auto
  then have "v * 10 + digit_val x < 2147483648"
    using dec_from_ge [of ds "v * 10 + digit_val x"] Cons.prems by simp
  with Cons.IH [of "v * 10 + digit_val x" "pre @ [x]"] Cons.prems d show ?case
    by (subst fp_int.simps) (simp add: mem_simps ub_simps)
qed

text \<open>With the scale 100 the fraction loop reads at most two digits.\<close>

lemma fp_frac_value:
  assumes "digits ds" "c = 0 \<or> \<not> is_digit c"
  shows "\<exists>v fs. fp_frac (pre @ ds @ c # rest) (length pre) 0 100 = Some (v, fs)
    \<and> fp_align (100 div 100 * fs) v = Some (frac_value 2 ds)"
proof -
  consider (0) "ds = []" | (1) a where "ds = [a]" | (2) a b bs where "ds = a # b # bs"
    by (metis list.exhaust)
  then show ?thesis
  proof cases
    case 0
    then have "fp_frac (pre @ ds @ c # rest) (length pre) 0 100 = Some (0, 100)"
      using assms(2) by (subst fp_frac.simps) (auto simp: mem_simps)
    moreover have "fp_align 100 0 = Some 0"
      by (subst fp_align.simps, simp add: ub_simps, subst fp_align.simps, simp add: ub_simps, subst fp_align.simps, simp)
    ultimately show ?thesis using 0 by (simp add: frac_value_def dec_def)
  next
    case (1 a)
    then have a: "is_digit a" "0 \<le> digit_val a" "digit_val a \<le> 9" using assms(1) digit_val_range [of a] by auto
    have "fp_frac (pre @ a # c # rest) (Suc (length pre)) (digit_val a) 10 = Some (digit_val a, 10)"
      using assms(2) by (subst fp_frac.simps) (auto simp: mem_simps)
    with 1 a have "fp_frac (pre @ ds @ c # rest) (length pre) 0 100 = Some (digit_val a, 10)"
      by (subst fp_frac.simps) (simp add: mem_simps ub_simps)
    moreover have "fp_align 10 (digit_val a) = Some (digit_val a * 10)"
      using a by (subst fp_align.simps, simp add: ub_simps, subst fp_align.simps, simp)
    ultimately show ?thesis using 1 by (simp add: frac_value_def dec_def)
  next
    case (2 a b bs)
    then have a: "is_digit a" "0 \<le> digit_val a" "digit_val a \<le> 9" "is_digit b" "0 \<le> digit_val b" "digit_val b \<le> 9"
      using assms(1) digit_val_range [of a] digit_val_range [of b] by auto
    let ?v = "digit_val a * 10 + digit_val b"
    obtain e rest' where e: "bs @ c # rest = e # rest'" by (cases bs) auto
    have "fp_frac (pre @ a # b # e # rest') (Suc (Suc (length pre))) ?v 1 = Some (?v, 1)"
      by (subst fp_frac.simps) (simp add: mem_simps)
    with a have "fp_frac (pre @ a # b # e # rest') (Suc (length pre)) (digit_val a) 10 = Some (?v, 1)"
      by (subst fp_frac.simps) (simp add: mem_simps ub_simps)
    with 2 a e have "fp_frac (pre @ ds @ c # rest) (length pre) 0 100 = Some (?v, 1)"
      by (subst fp_frac.simps) (simp add: mem_simps ub_simps)
    moreover have "fp_align 1 ?v = Some ?v" by (subst fp_align.simps) simp
    ultimately show ?thesis using 2 by (simp add: frac_value_def dec_def)
  qed
qed

text \<open>
  A decimal number as text: an optional minus sign, integer digits, and optionally a point and
  fractional digits; its value in hundredths keeps two fractional digits and drops the rest.
\<close>

definition fp_text :: "bool \<Rightarrow> bytes \<Rightarrow> bytes option \<Rightarrow> bytes" where
  "fp_text neg I fo = (if neg then [ch CHR ''-''] else []) @ I
     @ (case fo of None \<Rightarrow> [] | Some F \<Rightarrow> ch CHR ''.'' # F)"

definition fp_ok :: "bool \<Rightarrow> bytes \<Rightarrow> bytes option \<Rightarrow> bool" where
  "fp_ok neg I fo \<longleftrightarrow> digits I \<and> length I \<le> 7 \<and> (case fo of None \<Rightarrow> neg \<or> I \<noteq> [] | Some F \<Rightarrow> digits F)"

definition fp_value :: "bool \<Rightarrow> bytes \<Rightarrow> bytes option \<Rightarrow> int" where
  "fp_value neg I fo = (if neg then - 1 else 1)
     * (dec I * 100 + (case fo of None \<Rightarrow> 0 | Some F \<Rightarrow> frac_value 2 F))"

lemma fp_text_head:
  assumes "fp_ok neg I fo"
  obtains c0 t where "fp_text neg I fo = c0 # t" "c0 \<noteq> 0" "(c0 = 45) = neg"
proof (cases neg)
  case True
  then show ?thesis using that [of 45] by (simp add: fp_text_def)
next
  case False
  show ?thesis
  proof (cases I)
    case Nil
    with False assms obtain F where "fo = Some F" by (auto simp: fp_ok_def split: option.splits)
    with False Nil show ?thesis using that [of 46] by (simp add: fp_text_def)
  next
    case (Cons x xs)
    with assms have "is_digit x" by (simp add: fp_ok_def)
    with False Cons show ?thesis using that [of x] digit_not [of x] by (simp add: fp_text_def)
  qed
qed

lemma parseFP_value:
  assumes "fp_ok neg I fo"
  shows "parseFP (Some (fp_text neg I fo @ 0 # rest)) 100 = Some (True, fp_value neg I fo)"
proof -
  define pre where "pre = (if neg then [ch CHR ''-''] else [])"
  define s where "s = fp_text neg I fo @ 0 # rest"
  have I: "digits I" "0 \<le> dec I" "dec I < 10000000"
    using assms dec_bounds_le [of I 7] by (simp_all add: fp_ok_def)
  obtain c0 where c0: "rd s 0 = Some c0" "c0 \<noteq> 0" "(c0 = 45) = neg"
    by (rule fp_text_head [OF assms]) (auto simp: s_def rd_def)
  show ?thesis
  proof (cases fo)
    case None
    have int: "fp_int s (length pre) 0 = Some (Some (length pre + length I, dec I))"
      using fp_int_value [of I 0 0 pre rest] I None by (simp add: s_def fp_text_def pre_def dec_def)
    have end0: "rd s (length pre + length I) = Some 0"
      using rd_append [of "pre @ I" 0 rest] None by (simp add: s_def fp_text_def pre_def)
    have "parseFP (Some s) 100 = Some (True, fp_value neg I fo)"
      unfolding parseFP_def option.case c0(1) bind.bind_lunit
      using c0(2,3) I int end0
      by (cases neg) (simp_all add: pre_def ub_simps Let_def fp_fraction_def fp_result_def fp_value_def None)
    then show ?thesis by (simp add: s_def)
  next
    case (Some F)
    with assms have F: "digits F" by (simp add: fp_ok_def)
    have v: "0 \<le> frac_value 2 F" "frac_value 2 F < 100" using frac_value_bounds [OF F, of 2] by simp_all
    have int: "fp_int s (length pre) 0 = Some (Some (length pre + length I, dec I))"
      using fp_int_value [of I 0 "ch CHR ''.''" pre "F @ 0 # rest"] I Some
      by (simp add: s_def fp_text_def pre_def dec_def)
    have dot: "rd s (length pre + length I) = Some (ch CHR ''.'')"
      using rd_append [of "pre @ I" "ch CHR ''.''" "F @ 0 # rest"] Some by (simp add: s_def fp_text_def pre_def)
    have idx: "length (pre @ I @ [ch CHR ''.'']) = length pre + length I + 1" by simp
    obtain w fs where frac: "fp_frac s (length pre + length I + 1) 0 100 = Some (w, fs)"
        "fp_align (100 div 100 * fs) w = Some (frac_value 2 F)"
      using fp_frac_value [OF F, of 0 "pre @ I @ [ch CHR ''.'']" rest, unfolded idx] Some
      by (auto simp: s_def fp_text_def pre_def)
    have "parseFP (Some s) 100 = Some (True, fp_value neg I fo)"
      unfolding parseFP_def option.case c0(1) bind.bind_lunit
      using c0(2,3) I v int dot frac
      by (cases neg) (simp_all add: pre_def ub_simps Let_def fp_fraction_def fp_result_def fp_value_def Some)
    then show ?thesis by (simp add: s_def)
  qed
qed

lemma pu_digits_value:
  assumes "digits ds" "length pre + length ds \<le> limit" "c = 0 \<or> length pre + length ds = limit"
  shows "pu_digits (pre @ ds @ c # rest) limit (length pre) (word_of_int v)
    = Some (Some (word_of_int (dec_from v ds)))"
  using assms
proof (induction ds arbitrary: pre v)
  case Nil
  then show ?case by (subst pu_digits.simps) (auto simp: mem_simps)
next
  case (Cons x ds)
  with Cons.IH [of "pre @ [x]" "v * 10 + digit_val x"] Cons.prems show ?case
    by (subst pu_digits.simps) (simp add: mem_simps)
qed

lemma pu_digits_bad:
  assumes "digits ds" "\<not> is_digit c" "c \<noteq> 0" "length pre + length ds < limit"
  shows "pu_digits (pre @ ds @ c # rest) limit (length pre) v = Some None"
  using assms
proof (induction ds arbitrary: pre v)
  case Nil
  then show ?case by (subst pu_digits.simps) (simp add: mem_simps)
next
  case (Cons x ds)
  from Cons.IH [of "pre @ [x]"] Cons.prems show ?case
    by (subst pu_digits.simps) (simp add: mem_simps)
qed

lemma parseU8_empty: "parseU8 (Some (0 # rest)) = Some (True, 0)"
  by (simp add: parseU8_def rd_def)

lemma parseDegMin_empty: "parseDegMin (Some (0 # rest)) h = Some (False, 0)"
  by (simp add: parseDegMin_def rd_def)

lemma parseFP_empty: "parseFP (Some (0 # rest)) scale = Some (False, 0)"
  by (simp add: parseFP_def rd_def)

subsection \<open>The parsers see a field up to its NUL only\<close>

named_theorems nul_local \<open>a parser does not read past the NUL of its field\<close>

lemma rd_nul: "i \<le> length s \<Longrightarrow> rd (s @ 0 # r) i = rd (s @ [0]) i"
  by (auto simp: rd_def nth_append)

lemma rd_nul_end: "i \<le> length s \<Longrightarrow> rd (s @ [0]) i = Some c \<Longrightarrow> c \<noteq> 0 \<Longrightarrow> Suc i \<le> length s"
  by (auto simp: rd_def nth_append split: if_splits)

lemma rd_nul_defined: "i \<le> length s \<Longrightarrow> \<exists>c. rd (s @ [0]) i = Some c"
  by (simp add: rd_def)

lemma fp_int_nul: "i \<le> length s \<Longrightarrow> fp_int (s @ 0 # r) i v = fp_int (s @ [0]) i v"
proof (induction "length s - i" arbitrary: i v rule: less_induct)
  case less
  obtain c where c: "rd (s @ [0]) i = Some c" "rd (s @ 0 # r) i = Some c"
    using rd_nul_defined rd_nul less.prems by metis
  show ?case
  proof (cases "c = 0")
    case False
    then have "Suc i \<le> length s" using rd_nul_end [OF less.prems c(1)] by simp
    then have "fp_int (s @ 0 # r) (Suc i) = fp_int (s @ [0]) (Suc i)" by (intro ext less.hyps) auto
    with c show ?thesis by (simp add: fp_int.simps [of _ i])
  qed (simp add: c fp_int.simps [of _ i])
qed

lemma fp_frac_nul: "i \<le> length s \<Longrightarrow> fp_frac (s @ 0 # r) i v fs = fp_frac (s @ [0]) i v fs"
proof (induction "length s - i" arbitrary: i v fs rule: less_induct)
  case less
  obtain c where c: "rd (s @ [0]) i = Some c" "rd (s @ 0 # r) i = Some c"
    using rd_nul_defined rd_nul less.prems by metis
  show ?case
  proof (cases "c = 0")
    case False
    then have "Suc i \<le> length s" using rd_nul_end [OF less.prems c(1)] by simp
    then have "fp_frac (s @ 0 # r) (Suc i) x y = fp_frac (s @ [0]) (Suc i) x y" for x y by (intro less.hyps) auto
    with c show ?thesis by (simp add: fp_frac.simps [of _ i])
  qed (simp add: c fp_frac.simps [of _ i])
qed

lemma pu_digits_nul: "i \<le> length s \<Longrightarrow> pu_digits (s @ 0 # r) l i v = pu_digits (s @ [0]) l i v"
proof (induction "length s - i" arbitrary: i v rule: less_induct)
  case less
  obtain c where c: "rd (s @ [0]) i = Some c" "rd (s @ 0 # r) i = Some c"
    using rd_nul_defined rd_nul less.prems by metis
  show ?case
  proof (cases "c = 0")
    case False
    then have "Suc i \<le> length s" using rd_nul_end [OF less.prems c(1)] by simp
    then have "pu_digits (s @ 0 # r) l (Suc i) = pu_digits (s @ [0]) l (Suc i)" by (intro ext less.hyps) auto
    with c show ?thesis by (simp add: pu_digits.simps [of _ _ i])
  qed (simp add: c pu_digits.simps [of _ _ i])
qed

lemma dm_frac_nul: "i \<le> length s \<Longrightarrow> dm_frac (s @ 0 # r) i v n = dm_frac (s @ [0]) i v n"
proof (induction "length s - i" arbitrary: i v n rule: less_induct)
  case less
  obtain c where c: "rd (s @ [0]) i = Some c" "rd (s @ 0 # r) i = Some c"
    using rd_nul_defined rd_nul less.prems by metis
  show ?case
  proof (cases "c = 0")
    case False
    then have "Suc i \<le> length s" using rd_nul_end [OF less.prems c(1)] by simp
    then have "dm_frac (s @ 0 # r) (Suc i) x m = dm_frac (s @ [0]) (Suc i) x m" for x m by (intro less.hyps) auto
    with c show ?thesis by (simp add: dm_frac.simps [of _ i])
  qed (simp add: c dm_frac.simps [of _ i])
qed

lemma dm_find_dot_nul:
  "i \<le> length s \<Longrightarrow> dm_find_dot (s @ 0 # r) i = dm_find_dot (s @ [0]) i
    \<and> (\<exists>d. dm_find_dot (s @ [0]) i = Some d \<and> (\<forall>p. d = Some p \<longrightarrow> p < length s))"
proof (induction "length s - i" arbitrary: i rule: less_induct)
  case less
  obtain c where c: "rd (s @ [0]) i = Some c" "rd (s @ 0 # r) i = Some c"
    using rd_nul_defined rd_nul less.prems by metis
  show ?case
  proof (cases "c = 0")
    case False
    then have i: "Suc i \<le> length s" using rd_nul_end [OF less.prems c(1)] by simp
    then have "length s - Suc i < length s - i" by simp
    from less.hyps [OF this i] c i show ?thesis by (simp add: dm_find_dot.simps [of _ i])
  qed (simp add: c dm_find_dot.simps [of _ i])
qed

lemma dm_digits_nul: "stop \<le> length s \<Longrightarrow> dm_digits (s @ 0 # r) stop i v = dm_digits (s @ [0]) stop i v"
proof (induction "stop - i" arbitrary: i v rule: less_induct)
  case less
  show ?case
  proof (cases "i < stop")
    case True
    then have "dm_digits (s @ 0 # r) stop (Suc i) = dm_digits (s @ [0]) stop (Suc i)"
      using less by (intro ext) auto
    with True less.prems rd_nul [of i s r] show ?thesis by (simp add: dm_digits.simps [of _ _ i] cong: if_cong)
  qed (simp add: dm_digits.simps [of _ _ i])
qed

lemma fp_int_bound: "i \<le> length s \<Longrightarrow> fp_int (s @ [0]) i v = Some (Some (j, x)) \<Longrightarrow> j \<le> length s"
proof (induction "length s - i" arbitrary: i v rule: less_induct)
  case less
  obtain b where b: "rd (s @ [0]) i = Some b"
    using rd_nul_defined less.prems by metis
  show ?case
  proof (cases "b \<noteq> 0 \<and> b \<noteq> ch CHR ''.''")
    case True
    then have i: "Suc i \<le> length s" using rd_nul_end [OF less.prems(1) b] by simp
    then have m: "length s - Suc i < length s - i" by simp
    from less.prems(2) b True obtain w where "fp_int (s @ [0]) (Suc i) w = Some (Some (j, x))"
      by (simp add: fp_int.simps [of _ i] Option.bind_eq_Some_conv split: if_splits) blast
    with less.hyps [OF m i] show ?thesis by simp
  next
    case False
    then have "j = i" using less.prems(2) b by (auto simp: fp_int.simps [of _ i])
    then show ?thesis using less.prems(1) by simp
  qed
qed

lemma fp_fraction_nul: "j \<le> length s \<Longrightarrow> fp_fraction (s @ 0 # r) scale j = fp_fraction (s @ [0]) scale j"
proof -
  assume j: "j \<le> length s"
  obtain c where c: "rd (s @ [0]) j = Some c" "rd (s @ 0 # r) j = Some c"
    using rd_nul_defined rd_nul j by metis
  have "fp_frac (s @ 0 # r) (Suc j) 0 scale = fp_frac (s @ [0]) (Suc j) 0 scale" if "c = ch CHR ''.''"
    using rd_nul_end [OF j c(1)] that by (intro fp_frac_nul) simp
  with c show ?thesis by (simp add: fp_fraction_def)
qed

lemma parseFP_nul [nul_local]: "parseFP (Some (s @ 0 # r)) scale = parseFP (Some (s @ [0])) scale"
proof -
  obtain c where c: "rd (s @ 0 # r) 0 = Some c" "rd (s @ [0]) 0 = Some c"
    using rd_nul [of 0 s r] rd_nul_defined [of 0 s] by auto
  show ?thesis
  proof (cases "c = 0")
    case False
    define i where "i = (if c = ch CHR ''-'' then 1 else 0 :: nat)"
    have i: "i \<le> length s" using rd_nul_end [of 0 s c] c False by (simp add: i_def)
    define ip where "ip = fp_int (s @ [0]) i 0"
    have ip: "fp_int (s @ 0 # r) i 0 = ip" "fp_int (s @ [0]) i 0 = ip"
      using fp_int_nul [OF i, of r 0] by (simp_all only: ip_def)
    have "fp_fraction (s @ 0 # r) scale j = fp_fraction (s @ [0]) scale j"
      if "ip = Some (Some (j, x))" for j x
      by (rule fp_fraction_nul) (use fp_int_bound [OF i] ip(2) that in auto)
    then have "(do { p \<leftarrow> ip; case p of None \<Rightarrow> Some (False, 0) | Some (idx, v) \<Rightarrow>
          do { fr \<leftarrow> fp_fraction (s @ 0 # r) scale idx; fp_result (c = ch CHR ''-'') v scale fr } })
      = (do { p \<leftarrow> ip; case p of None \<Rightarrow> Some (False, 0) | Some (idx, v) \<Rightarrow>
          do { fr \<leftarrow> fp_fraction (s @ [0]) scale idx; fp_result (c = ch CHR ''-'') v scale fr } })"
      by (cases ip) (auto split: option.split)
    then show ?thesis
      unfolding parseFP_def option.case c bind.bind_lunit if_not_P [OF False] Let_def i_def [symmetric] ip .
  qed (simp add: parseFP_def c)
qed

lemma parseU8_nul [nul_local]: "parseU8 (Some (s @ 0 # r)) = parseU8 (Some (s @ [0]))"
  using rd_nul [of 0 s r] pu_digits_nul [of 0 s r] by (simp add: parseU8_def cong: if_cong)

lemma dm_convert_nul: "p < length s \<Longrightarrow> dm_convert (s @ 0 # r) h p = dm_convert (s @ [0]) h p"
proof -
  assume p: "p < length s"
  have deg: "dm_digits (s @ 0 # r) (p - 2) 0 0 = dm_digits (s @ [0]) (p - 2) 0 0"
    and mins: "dm_digits (s @ 0 # r) p (p - 2) 0 = dm_digits (s @ [0]) p (p - 2) 0"
    using p by (intro dm_digits_nul; simp)+
  have frac: "dm_frac (s @ 0 # r) (p + 1) 0 0 = dm_frac (s @ [0]) (p + 1) 0 0"
    using p by (intro dm_frac_nul) simp
  show ?thesis unfolding dm_convert_def Let_def deg mins frac ..
qed

lemma parseDegMin_nul [nul_local]: "parseDegMin (Some (s @ 0 # r)) h = parseDegMin (Some (s @ [0])) h"
proof -
  obtain d where d: "dm_find_dot (s @ 0 # r) 0 = Some d" "dm_find_dot (s @ [0]) 0 = Some d"
      "\<And>p. d = Some p \<Longrightarrow> p < length s"
    using dm_find_dot_nul [of 0 s r] by auto
  have rd0: "rd (s @ 0 # r) 0 = rd (s @ [0]) 0" using rd_nul [of 0 s r] by simp
  have eq: "(case d of None \<Rightarrow> Some (False, 0) | Some p \<Rightarrow>
        if p < 3 then Some (False, 0) else dm_convert (s @ 0 # r) h p)
      = (case d of None \<Rightarrow> Some (False, 0) | Some p \<Rightarrow>
        if p < 3 then Some (False, 0) else dm_convert (s @ [0]) h p)"
    using dm_convert_nul [where r = r and s = s and h = h] d(3) by (cases d) auto
  show ?thesis
    unfolding parseDegMin_def option.case rd0 d bind.bind_lunit eq ..
qed

subsection \<open>What each helper computes, on every input\<close>

text \<open>A list is its longest digit prefix followed by nothing or by something else.\<close>

lemma digits_takeWhile [simp]: "digits (takeWhile is_digit s)"
  by (auto simp: list_all_iff dest: set_takeWhileD)

lemma digit_span:
  obtains (all) "s = takeWhile is_digit s" "dropWhile is_digit s = []"
  | (stop) c v where "s = takeWhile is_digit s @ c # v" "dropWhile is_digit s = c # v" "\<not> is_digit c"
proof (cases "dropWhile is_digit s")
  case Nil
  then have "s = takeWhile is_digit s" using takeWhile_dropWhile_id [of is_digit s] by (metis append_Nil2)
  with Nil all show ?thesis by blast
next
  case (Cons c v)
  then have "\<not> is_digit c" using hd_dropWhile [of is_digit s] by simp
  moreover have "s = takeWhile is_digit s @ c # v" using Cons takeWhile_dropWhile_id [of is_digit s] by simp
  ultimately show ?thesis using Cons stop by blast
qed

definition checksum_ok :: "bytes \<Rightarrow> bool" where
  "checksum_ok l =
     (case dropWhile (\<lambda>c. c \<noteq> 42) l of
        _ # c1 # c2 # _ \<Rightarrow> hexDigit c1 \<ge> 0 \<and> hexDigit c2 \<ge> 0
          \<and> nmea_checksum (tl (takeWhile (\<lambda>c. c \<noteq> 42) l)) = word_of_int (16 * hexDigit c1 + hexDigit c2)
      | _ \<Rightarrow> False)"

lemma hexDigit_range: "- 1 \<le> hexDigit c \<and> hexDigit c < 16"
  by (auto simp: hexDigit_def word_le_def)

lemma hex_pair_int: "0 \<le> lo \<Longrightarrow> lo < 16 \<Longrightarrow> push_bit 4 hi OR lo = 16 * hi + lo" for hi lo :: int
proof -
  assume lo: "0 \<le> lo" "lo < 16"
  then have "push_bit 4 hi OR lo = concat_bit 4 lo hi"
    by (simp add: concat_bit_def take_bit_eq_mod or.commute)
  with lo show ?thesis by (simp add: concat_bit_eq take_bit_eq_mod push_bit_eq_mult)
qed

definition fp_spec :: "bytes \<Rightarrow> bool \<times> int" where
  "fp_spec s =
     (if s = [] then (False, 0)
      else
        let neg = (hd s = 45); t = (if neg then tl s else s); sg = (if neg then - 1 else 1); I = takeWhile is_digit t
        in case dropWhile is_digit t of
             [] \<Rightarrow> (True, sg * (dec I * 100))
           | c # v \<Rightarrow> if c = 46 then (True, sg * (dec I * 100 + frac_value 2 (takeWhile is_digit v))) else (False, 0))"

definition fp_short :: "bytes \<Rightarrow> bool" where
  "fp_short s \<longleftrightarrow> length (takeWhile is_digit (if s \<noteq> [] \<and> hd s = 45 then tl s else s)) \<le> 7"

definition degmin_spec :: "bytes \<Rightarrow> u8 \<Rightarrow> bool \<times> int" where
  "degmin_spec s h =
     (let p = length (takeWhile (\<lambda>c. c \<noteq> 46) s); D = take (p - 2) s; M = take 2 (drop (p - 2) s) in
      if p = length s \<or> 16 \<le> p \<or> p < 3 then (False, 0)
      else if digits D \<and> digits M
      then (True, hemi_sign h * degmin_value D M (takeWhile is_digit (drop (p + 1) s)))
      else (False, 0))"

definition degmin_short :: "bytes \<Rightarrow> bool" where
  "degmin_short s \<longleftrightarrow> 46 \<notin> set s \<or> length (takeWhile (\<lambda>c. c \<noteq> 46) s) \<le> 5"

definition u8_spec :: "bytes \<Rightarrow> bool \<times> u8" where
  "u8_spec s = (if digits (take 4 s) \<and> dec (take 4 s) \<le> 255 then (True, word_of_int (dec (take 4 s))) else (False, 0))"

definition u16_spec :: "bytes \<Rightarrow> bool \<times> u16" where
  "u16_spec s = (if digits (take 6 s) \<and> dec (take 6 s) \<le> 65535 then (True, word_of_int (dec (take 6 s))) else (False, 0))"

lemma fp_int_bad:
  assumes "digits ds" "0 \<le> v" "dec_from v ds < 2147483648" "\<not> is_digit c" "c \<noteq> 0" "c \<noteq> 46"
  shows "fp_int (pre @ ds @ c # rest) (length pre) v = Some None"
  using assms
proof (induction ds arbitrary: pre v)
  case Nil
  then show ?case by (subst fp_int.simps) (simp add: mem_simps)
next
  case (Cons x ds)
  have d: "0 \<le> digit_val x" "digit_val x \<le> 9" using Cons.prems(1) digit_val_range [of x] by auto
  then have "v * 10 + digit_val x < 2147483648"
    using dec_from_ge [of ds "v * 10 + digit_val x"] Cons.prems by simp
  with Cons.IH [of "v * 10 + digit_val x" "pre @ [x]"] Cons.prems d show ?case
    by (subst fp_int.simps) (simp add: mem_simps ub_simps)
qed

lemma parseFP_spec:
  assumes nul: "0 \<notin> set s" and short: "fp_short s"
  shows "parseFP (Some (s @ [0])) 100 = Some (fp_spec s)"
proof (cases "s = []")
  case True
  then show ?thesis by (simp add: fp_spec_def parseFP_empty)
next
  case False
  define neg where "neg = (hd s = 45)"
  define pre where "pre = (if neg then [ch CHR ''-''] else [])"
  define t where "t = (if neg then tl s else s)"
  define I where "I = takeWhile is_digit t"
  have s: "s = pre @ t" using False by (cases s) (auto simp: pre_def t_def neg_def)
  have I: "digits I" "0 \<le> dec I" "dec I < 10000000"
    using short False dec_bounds_le [of I 7] by (simp_all add: I_def t_def neg_def fp_short_def)
  have c0: "rd (s @ [0]) 0 = Some (hd s)" "hd s \<noteq> 0" using False nul by (cases s; auto simp: rd_def)+
  have spec: "fp_spec s = (case dropWhile is_digit t of
        [] \<Rightarrow> (True, (if neg then - 1 else 1) * (dec I * 100))
      | c # v \<Rightarrow> if c = 46
          then (True, (if neg then - 1 else 1) * (dec I * 100 + frac_value 2 (takeWhile is_digit v))) else (False, 0))"
    using False by (simp only: fp_spec_def Let_def neg_def t_def I_def if_False)
  show ?thesis
  proof (cases rule: digit_span [of t])
    case all
    then have "fp_int (s @ [0]) (length pre) 0 = Some (Some (length pre + length I, dec I))"
      "rd (s @ [0]) (length pre + length I) = Some 0"
      using fp_int_value [of I 0 0 pre "[]"] I rd_append [of s 0 "[]"] by (auto simp: s dec_def I_def [symmetric])
    with all(2) I c0 False show ?thesis
      by (cases neg) (simp_all add: parseFP_def spec pre_def neg_def [symmetric] ub_simps Let_def fp_fraction_def fp_result_def del: dropWhile_eq_Nil_conv)
  next
    case (stop c v)
    have tail: "s @ [0] = pre @ I @ c # v @ [0]" using stop(1) s by (metis I_def append.assoc append_Cons)
    have c: "c \<noteq> 0" using nul tail s stop(1) by auto
    show ?thesis
    proof (cases "c = 46")
      case True
      let ?F = "takeWhile is_digit v"
      have v: "0 \<le> frac_value 2 ?F" "frac_value 2 ?F < 100" using frac_value_bounds [of ?F 2] by simp_all
      have int: "fp_int (s @ [0]) (length pre) 0 = Some (Some (length pre + length I, dec I))"
        using fp_int_value [of I 0 c pre "v @ [0]"] I True by (simp add: tail dec_def)
      have dot: "rd (s @ [0]) (length pre + length I) = Some (ch CHR ''.'')"
        using rd_append [of "pre @ I" c "v @ [0]"] True by (simp add: tail)
      obtain e rest where e: "v @ [0] = ?F @ e # rest" "e = 0 \<or> \<not> is_digit e"
        by (rule digit_span [of v]) (metis, metis append.assoc append_Cons)
      have idx: "length (pre @ I @ [46]) = length pre + length I + 1" by simp
      obtain w fs where frac: "fp_frac (s @ [0]) (length pre + length I + 1) 0 100 = Some (w, fs)"
          "fp_align (100 div 100 * fs) w = Some (frac_value 2 ?F)"
        using fp_frac_value [of ?F e "pre @ I @ [46]" rest, unfolded idx] e True by (auto simp: tail)
      from True stop(2) I v int dot frac c0 False show ?thesis
        by (cases neg) (simp_all add: parseFP_def spec pre_def neg_def [symmetric] ub_simps Let_def fp_fraction_def fp_result_def)
    next
      case False
      then have "fp_int (s @ [0]) (length pre) 0 = Some None"
        using fp_int_bad [of I 0 c pre "v @ [0]"] I c stop(3) by (simp add: tail dec_def)
      with False stop(2) c0 \<open>s \<noteq> []\<close> show ?thesis
        by (cases neg) (simp_all add: parseFP_def spec pre_def neg_def [symmetric] Let_def)
    qed
  qed
qed

text \<open>The digit loop with a limit of \<open>n\<close> characters on a whole field.\<close>

lemma pu_digits_field:
  assumes nul: "0 \<notin> set s"
  shows "pu_digits (s @ [0]) n 0 0
    = Some (if digits (take n s) then Some (word_of_int (dec (take n s))) else None)"
proof (cases "digits (take n s)")
  case True
  obtain e rest where e: "s @ [0] = take n s @ e # rest" "e = 0 \<or> length (take n s) = n"
  proof (cases "length s \<le> n")
    case False
    then have "s = take n s @ s ! n # drop (Suc n) s" by (metis id_take_nth_drop not_le)
    then have "s @ [0] = take n s @ s ! n # (drop (Suc n) s @ [0])" by (metis append.assoc append_Cons)
    with False that show ?thesis by simp
  qed (use that in auto)
  with True pu_digits_value [of "take n s" "[]" n e rest 0] show ?thesis by (simp add: dec_def)
next
  case False
  obtain c v where t: "take n s = takeWhile is_digit (take n s) @ c # v" "\<not> is_digit c"
    using False by (cases rule: digit_span [of "take n s"]) (metis digits_takeWhile, blast)
  have "c \<in> set s" using t(1) by (metis in_set_conv_decomp in_set_takeD)
  then have c: "c \<noteq> 0" using nul by auto
  have eq: "s @ [0] = takeWhile is_digit (take n s) @ c # (v @ drop n s @ [0])"
    using t(1) by (metis append.assoc append_Cons append_take_drop_id)
  have "length (takeWhile is_digit (take n s)) < n"
    using arg_cong [OF t(1), of length] by simp
  then have "pu_digits (s @ [0]) n 0 0 = Some None"
    using pu_digits_bad [of "takeWhile is_digit (take n s)" c "[]" n "v @ drop n s @ [0]" 0] t(2) c
    by (subst eq) simp
  with False show ?thesis by simp
qed

lemma small_u32: "0 \<le> x \<Longrightarrow> x < 4294967296 \<Longrightarrow> uint (word_of_int x :: u32) = x"
  by (simp add: uint_word_of_int)

lemma small_narrow: "0 \<le> x \<Longrightarrow> x < 4294967296 \<Longrightarrow> ucast (word_of_int x :: u32) = (word_of_int x :: 'a::len word)"
  by (simp add: ucast_eq small_u32)

lemma parseU8_spec:
  assumes nul: "0 \<notin> set s"
  shows "parseU8 (Some (s @ [0])) = Some (u8_spec s)"
proof (cases "s = []")
  case False
  then have c0: "rd (s @ [0]) 0 = Some (hd s)" "hd s \<noteq> 0" using nul by (cases s; auto simp: rd_def)+
  have "(255 < (word_of_int (dec (take 4 s)) :: u32)) = (255 < dec (take 4 s))"
    "ucast (word_of_int (dec (take 4 s)) :: u32) = (word_of_int (dec (take 4 s)) :: u8)" if "digits (take 4 s)"
    using dec_bounds_le [OF that, of 4] by (simp_all add: word_less_def small_u32 small_narrow)
  with c0 show ?thesis by (auto simp: parseU8_def u8_spec_def pu_digits_field [OF nul])
qed (simp add: parseU8_empty u8_spec_def dec_def)

lemma parseU16_spec:
  assumes nul: "0 \<notin> set s"
  shows "parseU16 (Some (s @ [0])) = Some (u16_spec s)"
proof (cases "s = []")
  case False
  then have c0: "rd (s @ [0]) 0 = Some (hd s)" "hd s \<noteq> 0" using nul by (cases s; auto simp: rd_def)+
  have "(65535 < (word_of_int (dec (take 6 s)) :: u32)) = (65535 < dec (take 6 s))"
    "ucast (word_of_int (dec (take 6 s)) :: u32) = (word_of_int (dec (take 6 s)) :: u16)" if "digits (take 6 s)"
    using dec_bounds_le [OF that, of 6] by (simp_all add: word_less_def small_u32 small_narrow)
  with c0 show ?thesis by (auto simp: parseU16_def u16_spec_def pu_digits_field [OF nul])
qed (simp add: parseU16_def rd_def u16_spec_def dec_def)

lemma verifyChecksum_spec:
  assumes "len \<le> length line"
  shows "verifyChecksum line len = Some (checksum_ok (take len line))"
proof -
  let ?l = "take len line"
  have line: "line = ?l @ drop len line" "length ?l = len" using assms by simp_all
  show ?thesis
  proof (cases "dropWhile (\<lambda>c. c \<noteq> 42) ?l")
    case Nil
    then have "42 \<notin> set ?l" by (auto simp: dropWhile_eq_Nil_conv)
    then have "vc_find_star line len 0 = Some None"
      using vc_find_star_none [of ?l "[]" "drop len line"] line by simp
    moreover have "\<not> checksum_ok ?l" unfolding checksum_ok_def Nil by simp
    ultimately show ?thesis by (simp add: verifyChecksum_def)
  next
    case (Cons y ys)
    let ?b = "takeWhile (\<lambda>c. c \<noteq> 42) ?l"
    have y: "y = 42" using hd_dropWhile [of "\<lambda>c. c \<noteq> 42" ?l] Cons by simp
    have nb: "42 \<notin> set ?b" by (auto dest: set_takeWhileD)
    have l: "?l = ?b @ 42 # ys" using takeWhile_dropWhile_id [of "\<lambda>c. c \<noteq> 42" ?l] Cons y by simp
    have "line = (?b @ 42 # ys) @ drop len line" using line(1) l by simp
    then have ln: "line = ?b @ 42 # ys @ drop len line" "length ?b + 1 + length ys = len"
      using arg_cong [OF l, of length] line(2) by (simp_all only: append.assoc append_Cons length_append list.size)
    have find: "vc_find_star line len 0 = Some (Some (length ?b))"
      using vc_find_star_found [of ?b "[]" len "ys @ drop len line"] nb ln by simp
    show ?thesis
    proof (cases "2 \<le> length ys")
      case False
      then have "len \<le> length ?b + 2" using ln(2) by simp
      moreover have "\<not> checksum_ok ?l" using False Cons
        by (auto simp: checksum_ok_def split: list.splits)
      ultimately show ?thesis using find by (simp add: verifyChecksum_def)
    next
      case True
      then obtain c1 c2 zs where ys: "ys = c1 # c2 # zs" by (cases ys; cases "tl ys") auto
      have xor: "vc_xor line (length ?b) 1 0 = Some (nmea_checksum (tl ?b))"
      proof (cases ?b)
        case Nil
        then show ?thesis by (subst vc_xor.simps) (simp add: nmea_checksum_def)
      next
        case b: (Cons d ds)
        then have "line = [d] @ ds @ 42 # ys @ drop len line" using ln(1) by simp
        with vc_xor_fold [of "[d]" ds "42 # ys @ drop len line" 0] b show ?thesis
          by (simp add: nmea_checksum_def)
      qed
      have c: "rd line (length ?b + 1) = Some c1" "rd line (length ?b + 2) = Some c2"
        using ln(1) ys rd_append_Suc(1) [of ?b 42 c1 "c2 # zs @ drop len line"]
          rd_append_Suc(2) [of ?b 42 c1 c2 "zs @ drop len line"] by simp_all
      have "verifyChecksum line len = Some (checksum_ok ?l)"
        using find xor c True ln(2) Cons ys hexDigit_range [of c2] hex_pair_int [of "hexDigit c2" "hexDigit c1"]
        by (auto simp: verifyChecksum_def checksum_ok_def Let_def)
      then show ?thesis .
    qed
  qed
qed

lemma dm_find_dot_none:
  assumes "46 \<notin> set xs" "0 \<notin> set xs"
  shows "dm_find_dot (pre @ xs @ [0]) (length pre) = Some None"
  using assms
proof (induction xs arbitrary: pre)
  case Nil
  then show ?case by (subst dm_find_dot.simps) (simp add: mem_simps)
next
  case (Cons x xs)
  from Cons.IH [of "pre @ [x]"] Cons.prems show ?case
    by (subst dm_find_dot.simps) (simp add: mem_simps)
qed

lemma not_digits_split:
  assumes "\<not> digits xs"
  obtains ds c v where "xs = ds @ c # v" "digits ds" "\<not> is_digit c"
  using assms by (cases rule: digit_span [of xs]) (metis digits_takeWhile)+

text \<open>A field with a decimal point after at least three characters.\<close>

lemma dm_convert_spec:
  assumes len: "length M = 2" "length D \<le> 3" "D \<noteq> []"
  shows "dm_convert (D @ M @ 46 # F @ [0]) h (length D + 2)
    = Some (if digits D \<and> digits M then (True, hemi_sign h * degmin_value D M (takeWhile is_digit F)) else (False, 0))"
proof -
  let ?f = "D @ M @ 46 # F @ [0]"
  have e: "length D + 2 - 2 = length D" by simp
  show ?thesis
  proof (cases "digits D")
    case False
    then obtain ds c v where d: "D = ds @ c # v" "digits ds" "\<not> is_digit c" by (rule not_digits_split)
    have "dec_from 0 ds < 2147483648" using dec_bounds_le [OF d(2), of 3] d(1) len(2) by (simp add: dec_def)
    then have "dm_digits ?f (length D) 0 0 = Some None"
      using dm_digits_bad [OF d(2,3), of 0 "[]" "length D" "v @ M @ 46 # F @ [0]"] d(1) by simp
    with False show ?thesis by (simp add: dm_convert_def e)
  next
    case True
    note D = dec_bounds_le [OF True len(2)]
    have deg: "dm_digits ?f (length D) 0 0 = Some (Some (dec D))"
      using dm_digits_value [OF True, of 0 "[]" "M @ 46 # F @ [0]"] D by (simp add: dec_def)
    show ?thesis
    proof (cases "digits M")
      case False
      then obtain ds c v where m: "M = ds @ c # v" "digits ds" "\<not> is_digit c" by (rule not_digits_split)
      have "dec_from 0 ds < 2147483648" using dec_bounds_le [OF m(2), of 2] m(1) len(1) by (simp add: dec_def)
      then have "dm_digits ?f (length D + 2) (length D) 0 = Some None"
        using dm_digits_bad [OF m(2,3), of 0 D "length D + 2" "v @ 46 # F @ [0]"] m(1) len(1) by simp
      with False deg show ?thesis by (simp add: dm_convert_def)
    next
      case M: True
      obtain c rest where F: "F @ [0] = takeWhile is_digit F @ c # rest" "c = 0 \<or> \<not> is_digit c"
        by (rule digit_span [of F]) (metis, metis append.assoc append_Cons)
      have "dm_find_dot ?f 0 = Some (Some (length D + 2))"
        using dm_find_dot_found [of "D @ M" "[]" "F @ [0]"] True M len by auto
      moreover obtain x xs where "D = x # xs" "is_digit x" using len(3) True by (cases D) auto
      moreover from this have "\<not> length D + 2 < 3" by simp
      ultimately have "parseDegMin (Some ?f) h = dm_convert ?f h (length D + 2)"
        by (auto simp: parseDegMin_def rd_def)
      moreover have "1 \<le> length D" using len(3) by (cases D) auto
      ultimately show ?thesis
        using parseDegMin_value [OF True _ len(2) M len(1) digits_takeWhile F(2), of F rest h] F(1) True M by simp
    qed
  qed
qed

lemma parseDegMin_spec:
  assumes nul: "0 \<notin> set s" and short: "degmin_short s"
  shows "parseDegMin (Some (s @ [0])) h = Some (degmin_spec s h)"
proof (cases "s = []")
  case True
  then show ?thesis by (simp add: degmin_spec_def parseDegMin_empty)
next
  case False
  let ?a = "takeWhile (\<lambda>c. c \<noteq> 46) s"
  let ?p = "length ?a"
  have c0: "rd (s @ [0]) 0 = Some (hd s)" "hd s \<noteq> 0" using False nul by (cases s; auto simp: rd_def)+
  have na: "46 \<notin> set ?a" "0 \<notin> set ?a" using nul by (auto dest: set_takeWhileD)
  show ?thesis
  proof (cases "46 \<in> set s")
    case no: False
    then have a: "?a = s" by (auto simp: takeWhile_eq_all_conv)
    have "dm_find_dot (s @ [0]) 0 = Some None"
      using dm_find_dot_none [of s "[]"] no nul by simp
    moreover have "degmin_spec s h = (False, 0)" unfolding degmin_spec_def Let_def a by simp
    ultimately show ?thesis using c0 by (simp add: parseDegMin_def)
  next
    case True
    then have p5: "?p \<le> 5" using short by (simp add: degmin_short_def)
    obtain ys F where ys: "s = ys @ 46 # F" "46 \<notin> set ys" using split_list_first [OF True] by blast
    then have "?a = ys" by (subst ys(1), subst takeWhile_append2) auto
    with ys(1) have s: "s = ?a @ 46 # F" by simp
    have p: "?p < length s" using arg_cong [OF s, of length] by simp
    have F: "drop (?p + 1) s = F" by (subst s) simp
    have D: "take (?p - 2) s = take (?p - 2) ?a" by (subst s) simp
    have M: "take 2 (drop (?p - 2) s) = drop (?p - 2) ?a" if "3 \<le> ?p" by (subst s) (use that in simp)
    have tail: "s @ [0] = ?a @ 46 # F @ [0]" using s by (metis append.assoc append_Cons)
    have dot: "dm_find_dot (s @ [0]) 0 = Some (Some ?p)"
      using dm_find_dot_found [of ?a "[]" "F @ [0]"] na p5 by (subst tail) simp
    show ?thesis
    proof (cases "?p < 3")
      case True
      with dot c0 show ?thesis by (simp add: parseDegMin_def degmin_spec_def Let_def)
    next
      case False
      let ?D = "take (?p - 2) ?a" and ?M = "drop (?p - 2) ?a"
      have "s @ [0] = ?D @ ?M @ 46 # F @ [0]"
        using tail append_take_drop_id [of "?p - 2" ?a] by (metis append.assoc)
      moreover have "length ?M = 2" "length ?D \<le> 3" "?D \<noteq> []" "length ?D + 2 = ?p" using False p5 by auto
      ultimately have "dm_convert (s @ [0]) h ?p = Some (if digits ?D \<and> digits ?M
          then (True, hemi_sign h * degmin_value ?D ?M (takeWhile is_digit F)) else (False, 0))"
        using dm_convert_spec [of ?M ?D F h] by metis
      with False p p5 dot c0 M show ?thesis
        by (simp only: parseDegMin_def degmin_spec_def Let_def D F option.case bind.bind_lunit if_False) simp
    qed
  qed
qed

subsection \<open>Properties\<close>

lemma xor_foldl: "foldl (XOR) (a XOR b) xs = foldl (XOR) a xs XOR b" for a b :: u8
proof (induction xs arbitrary: a)
  case (Cons x xs)
  have "(a XOR b) XOR x = (a XOR x) XOR b" by (simp add: xor.assoc xor.commute xor.left_commute)
  then show ?case using Cons by simp
qed simp

lemma nmea_checksum_change: "nmea_checksum (xs @ a # ys) = nmea_checksum (xs @ b # ys) \<longleftrightarrow> a = b"
proof -
  have x: "nmea_checksum (xs @ c # ys) = nmea_checksum (xs @ ys) XOR c" for c
    by (simp add: nmea_checksum_def xor_foldl)
  have "n XOR (n XOR c) = c" for n c :: u8 by (simp flip: xor.assoc)
  then have "n XOR a = n XOR b \<Longrightarrow> a = b" for n by metis
  then show ?thesis by (auto simp: x)
qed

text \<open>
  C31: \<open>verifyChecksum\<close> reads only the first \<open>len\<close> bytes of the line and decides exactly whether
  they hold a star followed by two hexadecimal digits (either case) that spell the XOR of the bytes
  between the first byte and the star.
\<close>

theorem verifyChecksum_total:
  assumes "len \<le> length line"
  shows "verifyChecksum line len = Some (checksum_ok (take len line))"
  by (rule verifyChecksum_spec [OF assms])

lemma verifyChecksum_total_witness: "verifyChecksum (ascii ''$A*41'' @ [0]) 5 = Some True"
  using verifyChecksum_total [of 5 "ascii ''$A*41'' @ [0]"]
  by (simp add: checksum_ok_def nmea_checksum_def hexDigit_def)



text \<open>
  \<open>parseDegMin\<close> on any field that has no decimal point or has it within its first six
  characters: no undefined behaviour, it fails exactly when the point is missing or too early or a
  character before it is no digit, and otherwise yields the value of the digits.
\<close>

theorem parseDegMin_total:
  assumes "0 \<notin> set s" "degmin_short s"
  shows "parseDegMin (Some (s @ 0 # r)) h = Some (degmin_spec s h)"
  using parseDegMin_nul [of s r h] parseDegMin_spec [OF assms] by simp

lemma parseDegMin_total_witness:
  "parseDegMin (Some (ascii ''4807.038'' @ 0 # [78, 0])) 78 = Some (True, 48117300)"
  using parseDegMin_total [of "ascii ''4807.038''" "[78, 0]" 78]
  by (simp add: degmin_short_def degmin_spec_def is_digit_def degmin_value_def frac_value_def dec_def digit_val_def hemi_sign_def)

text \<open>
  C17: The coordinate computed from \<open>D\<close> degrees and \<open>M.F\<close> minutes is, up to its hemisphere sign, the
  exact position in millionths of a degree rounded towards zero (four digits of \<open>F\<close> count), and
  fits a 32-bit integer with room to spare.
\<close>

theorem parseDegMin_exact:
  assumes "digits D" "1 \<le> length D" "length D \<le> 3" "digits M" "length M = 2" "digits F" "c = 0 \<or> \<not> is_digit c"
  shows "\<exists>v. parseDegMin (Some (D @ M @ 46 # F @ c # rest)) hemi
        = Some (True, if hemi = 83 \<or> hemi = 87 then - v else v)
      \<and> 60 * v \<le> (dec D * 600000 + dec M * 10000 + frac_value 4 F) * 100
      \<and> (dec D * 600000 + dec M * 10000 + frac_value 4 F) * 100 < 60 * (v + 1)
      \<and> 0 \<le> v \<and> v < 1002000000"
proof -
  let ?v = "degmin_value D M F"
  have "60 * ?v \<le> (dec D * 600000 + dec M * 10000 + frac_value 4 F) * 100"
    "(dec D * 600000 + dec M * 10000 + frac_value 4 F) * 100 < 60 * (?v + 1)"
    unfolding degmin_value_def by presburger+
  with parseDegMin_value [OF assms, of rest hemi] degmin_value_bounds [OF assms(1,4,6,5,3)] show ?thesis
    by (intro exI [of _ ?v]) (simp add: hemi_sign_def)
qed

lemma parseDegMin_exact_witness:
  "\<exists>v. parseDegMin (Some (ascii ''123'' @ ascii ''07'' @ 46 # ascii ''4231'' @ 0 # [])) 87 = Some (True, - v)
    \<and> 0 \<le> v \<and> v < 1002000000"
  using parseDegMin_exact [of "ascii ''123''" "ascii ''07''" "ascii ''4231''" 0 "[]" 87]
  by (auto simp: is_digit_def)

text \<open>
  \<open>parseFP\<close> with scale 100 on any field whose integer part has at most seven digits: no
  undefined behaviour, it fails exactly on an empty field and on a stray character in the integer
  part, and otherwise yields the signed value in hundredths, cut after two fractional digits.
\<close>

theorem parseFP_total:
  assumes "0 \<notin> set s" "fp_short s"
  shows "parseFP (Some (s @ 0 # r)) 100 = Some (fp_spec s)"
  using parseFP_nul [of s r 100] parseFP_spec [OF assms] by simp

lemma parseFP_total_witness: "parseFP (Some (ascii ''-545.4'' @ 0 # [])) 100 = Some (True, - 54540)"
  using parseFP_total [of "ascii ''-545.4''" "[]"]
  by (simp add: fp_short_def fp_spec_def is_digit_def frac_value_def dec_def digit_val_def)

text \<open>
  \<open>parseU8\<close> and \<open>parseU16\<close> on any field: they look at the first four (six) characters only and
  succeed iff those are digits whose value fits; the empty field counts as 0.
\<close>

theorem parseU8_U16_total:
  assumes "0 \<notin> set s"
  shows "parseU8 (Some (s @ [0])) = Some (u8_spec s) \<and> parseU16 (Some (s @ [0])) = Some (u16_spec s)"
  using parseU8_spec [OF assms] parseU16_spec [OF assms] by simp

lemma parseU8_U16_total_witness: "parseU8 (Some (ascii ''00127'' @ [0])) = Some (True, 12)"
  using parseU8_U16_total [of "ascii ''00127''"] by (simp add: u8_spec_def is_digit_def dec_def digit_val_def)

text \<open>
  Without those limits the digit loops overflow \<open>int32_t\<close>, undefined behaviour that the code
  does not guard against: a latitude of 2148 degrees, an altitude of 21474837 metres.
\<close>

theorem numeric_fields_overflow:
  "parseDegMin (Some (cstr_lit ''214800.00'')) 78 = None \<and> parseFP (Some (cstr_lit ''21474837'')) 100 = None"
  by code_simp

end
