(* ===== verification/GpsTokens.thy ===== *)
theory GpsTokens
  imports GpsParse
begin

text \<open>
  The first half of \<open>parseGGA\<close> in \<open>Components/GpsReceiver/GpsReceiver.cpp\<close>: the line is copied
  into the static array \<open>scratch\<close> and cut at its commas into at most 16 NUL-terminated fields. The
  reference \<open>csv\<close> splits the characters of the line as a list; \<open>gga_tokenise_fields\<close> shows that
  the pointers and the NULs written into the array implement it.
\<close>

subsection \<open>\<open>parseGGA\<close>: copying and splitting the line\<close>

definition MAX_FIELDS :: nat where
  "MAX_FIELDS = 16"

function gga_length :: "bytes \<Rightarrow> nat \<Rightarrow> nat option" where
  "gga_length line line_len = do {
     c \<leftarrow> rd line line_len;
     if c \<noteq> 0 \<and> line_len < NMEA_LINE_BUF_SIZE then gga_length line (Suc line_len)
     else Some line_len }"
  by pat_completeness auto
termination
  by (relation "measure (\<lambda>(line, line_len). NMEA_LINE_BUF_SIZE - line_len)") auto

function gga_copy :: "bytes \<Rightarrow> bytes \<Rightarrow> nat \<Rightarrow> nat \<Rightarrow> bytes option" where
  "gga_copy line scratch copy_len i =
     (if i < copy_len then do {
        c \<leftarrow> rd line i;
        scratch' \<leftarrow> wr scratch i c;
        gga_copy line scratch' copy_len (Suc i) }
      else Some scratch)"
  by pat_completeness auto
termination
  by (relation "measure (\<lambda>(line, scratch, copy_len, i). copy_len - i)") auto

text \<open>
  \<open>flds\<close> (the array \<open>fields\<close>) holds the offsets into \<open>scratch\<close> stored so far; its length is \<open>field_count\<close>.
  \<open>fields[field_count++] = p\<close> is undefined when the array of 16 elements is full.
\<close>

definition store_field :: "nat list \<Rightarrow> nat \<Rightarrow> nat list option" where
  "store_field flds p = (if length flds < MAX_FIELDS then Some (flds @ [p]) else None)"

lemma store_field_room [simp]: "length flds < 16 \<Longrightarrow> store_field flds p = Some (flds @ [p])"
  by (simp add: store_field_def MAX_FIELDS_def)

function gga_split :: "bytes \<Rightarrow> nat \<Rightarrow> nat \<Rightarrow> nat list \<Rightarrow> (bytes \<times> nat list) option" where
  "gga_split scratch copy_len i flds =
     (if i < copy_len \<and> length flds < MAX_FIELDS then do {
        c \<leftarrow> rd scratch i;
        if c = ch CHR '','' then do {
          scratch' \<leftarrow> wr scratch i 0;
          flds' \<leftarrow> store_field flds (i + 1);
          gga_split scratch' copy_len (Suc i) flds' }
        else gga_split scratch copy_len (Suc i) flds }
      else Some (scratch, flds))"
  by pat_completeness auto
termination
  by (relation "measure (\<lambda>(scratch, copy_len, i, flds). copy_len - i)") auto

declare gga_length.simps [simp del] gga_copy.simps [simp del] gga_split.simps [simp del]

definition gga_tokenise :: "bytes \<Rightarrow> bytes \<Rightarrow> (bytes \<times> nat list) option" where
  "gga_tokenise line scratch = do {
     line_len \<leftarrow> gga_length line 0;
     let copy_len = (if line_len < NMEA_LINE_BUF_SIZE - 1 then line_len else NMEA_LINE_BUF_SIZE - 1);
     scratch1 \<leftarrow> gga_copy line scratch copy_len 0;
     scratch2 \<leftarrow> wr scratch1 copy_len 0;
     flds \<leftarrow> store_field [] 0;
     gga_split scratch2 copy_len 0 flds }"

text \<open>The pointer \<open>fields[k]\<close>: an element never stored is indeterminate.\<close>

definition fld :: "bytes \<Rightarrow> nat list \<Rightarrow> nat \<Rightarrow> bytes option" where
  "fld scratch flds k = (if k < length flds then Some (drop (flds ! k) scratch) else None)"

subsection \<open>Splitting at commas\<close>

text \<open>At most \<open>n\<close> cuts: the pieces of \<open>xs\<close> between commas (byte 44), the last one uncut.\<close>

fun csv :: "nat \<Rightarrow> bytes \<Rightarrow> bytes list" where
  "csv 0 xs = [xs]"
| "csv (Suc n) xs =
     (case dropWhile (\<lambda>c. c \<noteq> 44) xs of
        [] \<Rightarrow> [xs]
      | _ # ys \<Rightarrow> takeWhile (\<lambda>c. c \<noteq> 44) xs # csv n ys)"

lemma csv_no_comma: "44 \<notin> set xs \<Longrightarrow> csv n xs = [xs]"
proof (cases n)
  case (Suc m)
  assume "44 \<notin> set xs"
  then have "dropWhile (\<lambda>c. c \<noteq> 44) xs = []" by (auto simp: dropWhile_eq_Nil_conv)
  then show ?thesis unfolding Suc csv.simps by (simp only: list.case)
qed simp

lemma csv_comma: "44 \<notin> set xs \<Longrightarrow> csv (Suc n) (xs @ 44 # ys) = xs # csv n ys"
  by (subst csv.simps, subst dropWhile_append2, force, subst takeWhile_append2, force) simp

lemma csv_nonempty [simp]: "csv n xs \<noteq> []"
  by (cases n) (auto split: list.splits)

lemma gga_length_line:
  assumes "0 \<notin> set L" "length pre + length L \<le> 100"
  shows "gga_length (pre @ L @ 0 # rest) (length pre) = Some (length pre + length L)"
  using assms
proof (induction L arbitrary: pre)
  case Nil
  then show ?case by (subst gga_length.simps) (simp add: mem_simps)
next
  case (Cons x L)
  from Cons.IH [of "pre @ [x]"] Cons.prems show ?case
    by (subst gga_length.simps) (simp add: mem_simps NMEA_LINE_BUF_SIZE_def)
qed

lemma gga_copy_line:
  assumes "length pre + length L \<le> length scratch"
  shows "gga_copy (pre @ L @ rest) (pre @ drop (length pre) scratch) (length pre + length L) (length pre)
    = Some (pre @ L @ drop (length pre + length L) scratch)"
  using assms
proof (induction L arbitrary: pre)
  case Nil
  then show ?case by (subst gga_copy.simps) simp
next
  case (Cons x L)
  then have y: "drop (length pre) scratch = scratch ! length pre # drop (Suc (length pre)) scratch"
    by (intro Cons_nth_drop_Suc [symmetric]) simp
  with Cons.IH [of "pre @ [x]"] Cons.prems show ?case
    by (subst gga_copy.simps) (simp add: mem_simps)
qed

lemma gga_split_pieces:
  assumes "44 \<notin> set cur" "length flds \<le> 16" "length flds \<ge> 1"
  shows "\<exists>scratch' new. gga_split (pre @ cur @ todo @ 0 # post) (length pre + length cur + length todo)
        (length pre + length cur) flds = Some (scratch', flds @ new)
    \<and> length scratch' = length pre + length cur + length todo + 1 + length post
    \<and> take (length pre) scratch' = pre
    \<and> Suc (length new) = length (csv (16 - length flds) (cur @ todo))
    \<and> (\<forall>k < Suc (length new). \<exists>rest. drop ((length pre # new) ! k) scratch'
          = csv (16 - length flds) (cur @ todo) ! k @ 0 # rest)"
  using assms
proof (induction todo arbitrary: pre cur flds)
  case Nil
  then show ?case by (subst gga_split.simps) (simp add: csv_no_comma)
next
  case (Cons c todo)
  let ?i = "length pre + length cur"
  show ?case
  proof (cases "length flds = 16")
    case True
    then show ?thesis by (subst gga_split.simps) (simp add: MAX_FIELDS_def)
  next
    case False
    with Cons.prems have lt: "length flds < 16" by simp
    then obtain n where n: "16 - length flds = Suc n" "16 - length (flds @ [Suc ?i]) = n"
      by (metis Suc_diff_Suc diff_Suc_Suc length_append_singleton)
    have rd: "rd (pre @ cur @ (c # todo) @ 0 # post) ?i = Some c"
      using rd_append [of "pre @ cur" c "todo @ 0 # post"] by simp
    show ?thesis
    proof (cases "c = 44")
      case True
      have wr: "wr (pre @ cur @ (c # todo) @ 0 # post) ?i 0 = Some ((pre @ cur @ [0]) @ [] @ todo @ 0 # post)"
        by (simp add: wr_def list_update_append)
      have "44 \<notin> set []" "length (flds @ [Suc ?i]) \<le> 16" "1 \<le> length (flds @ [Suc ?i])"
        using lt by simp_all
      from Cons.IH [OF this, of "pre @ cur @ [0]"] obtain scratch' new where IH:
        "gga_split ((pre @ cur @ [0]) @ [] @ todo @ 0 # post) (Suc ?i + length todo) (Suc ?i) (flds @ [Suc ?i])
           = Some (scratch', flds @ [Suc ?i] @ new)"
        "length scratch' = Suc ?i + length todo + 1 + length post"
        "take (Suc ?i) scratch' = pre @ cur @ [0]"
        "Suc (length new) = length (csv n todo)"
        "\<forall>k < Suc (length new). \<exists>rest. drop ((Suc ?i # new) ! k) scratch' = csv n todo ! k @ 0 # rest"
        unfolding n by auto
      have cs: "csv (16 - length flds) (cur @ c # todo) = cur # csv n todo"
        using csv_comma [OF Cons.prems(1)] n True by simp
      have sc: "scratch' = pre @ cur @ 0 # drop (Suc ?i) scratch'"
        using IH(3) append_take_drop_id [of "Suc ?i" scratch'] by simp
      have first: "drop (length pre) scratch' = cur @ 0 # drop (Suc ?i) scratch'"
        by (subst sc) simp
      have "take (length pre) scratch' = pre" by (subst sc) simp
      moreover have "\<forall>k < Suc (Suc (length new)). \<exists>rest.
          drop ((length pre # Suc ?i # new) ! k) scratch' = (cur # csv n todo) ! k @ 0 # rest"
        using first IH(5) by (auto simp: less_Suc_eq_0_disj)
      ultimately show ?thesis
        using IH lt rd wr True cs
        by (subst gga_split.simps) (auto simp: MAX_FIELDS_def intro!: exI [of _ scratch'] exI [of _ "Suc ?i # new"])
    next
      case False
      then have "44 \<notin> set (cur @ [c])" using Cons.prems by auto
      from Cons.IH [OF this Cons.prems(2,3), of pre] False lt rd show ?thesis
        by (subst gga_split.simps) (simp add: MAX_FIELDS_def)
    qed
  qed
qed

text \<open>
  The tokeniser on a NUL-terminated line of at most 99 characters: it stays inside both arrays,
  and field \<open>k\<close> points to the NUL-terminated \<open>k\<close>-th piece, whatever \<open>scratch\<close> held before.
\<close>

lemma gga_tokenise_fields:
  assumes "0 \<notin> set L" "length L \<le> 99" "length scratch = 100"
  obtains scratch' flds where "gga_tokenise (L @ 0 # rest) scratch = Some (scratch', flds)"
    "length scratch' = 100" "length flds = length (csv 15 L)"
    "\<And>k. k < length (csv 15 L) \<Longrightarrow> \<exists>r. fld scratch' flds k = Some (csv 15 L ! k @ 0 # r)"
proof -
  have len: "gga_length (L @ 0 # rest) 0 = Some (length L)"
    using gga_length_line [of L "[]" rest] assms by simp
  have clip: "(if length L < NMEA_LINE_BUF_SIZE - 1 then length L else NMEA_LINE_BUF_SIZE - 1) = length L"
    using assms(2) by (simp add: NMEA_LINE_BUF_SIZE_def)
  have copy: "gga_copy (L @ 0 # rest) scratch (length L) 0 = Some (L @ drop (length L) scratch)"
    using gga_copy_line [of "[]" L scratch "0 # rest"] assms by simp
  have wr: "wr (L @ drop (length L) scratch) (length L) 0 = Some (L @ 0 # drop (Suc (length L)) scratch)"
  proof -
    have "drop (length L) scratch = scratch ! length L # drop (Suc (length L)) scratch"
      using assms by (intro Cons_nth_drop_Suc [symmetric]) simp
    then show ?thesis using assms by (simp add: wr_def list_update_append)
  qed
  obtain scratch' new where split:
    "gga_split (L @ 0 # drop (Suc (length L)) scratch) (length L) 0 [0] = Some (scratch', 0 # new)"
    "length scratch' = 100" "Suc (length new) = length (csv 15 L)"
    "\<forall>k < Suc (length new). \<exists>r. drop ((0 # new) ! k) scratch' = csv 15 L ! k @ 0 # r"
    using gga_split_pieces [of "[]" "[0]" "[]" L "drop (Suc (length L)) scratch"] assms by auto
  show ?thesis
    by (rule that [of scratch' "0 # new"])
      (use split len clip copy wr in \<open>auto simp: gga_tokenise_def Let_def fld_def\<close>)
qed

end
