(* ===== verification/Gps.thy ===== *)
theory Gps
  imports GpsTokens Hal
begin

text \<open>
  \<open>Components/GpsReceiver\<close>: the component's fields, the line assembler, the GGA sentence parser
  and the command handlers. What the component sends through its F' ports is appended to
  \<open>gps_out\<close>. \<open>gps_scratch\<close> is the function-local static array of \<open>parseGGA\<close>; \<open>m_lineLen\<close> is a
  \<open>nat\<close>, which the invariant keeps below 100.
\<close>

datatype gps_output =
    TlmFixQuality u8
  | TlmSatCount u8
  | TlmLatitude int
  | TlmLongitude int
  | TlmAltitude int
  | TlmHDOP u16
  | TlmUtcTime u32
  | TlmSentenceCount u32
  | LogNmeaChecksumError bytes
  | LogFixAcquired u8
  | LogFixLost
  | LogUartOverrun u32
  | LogParseError u8
  | GpsCmdOK u32 u32

record gps =
  m_lineBuf :: bytes
  m_lineLen :: nat
  m_enabled :: bool
  m_lastFixQuality :: u8
  m_sentenceCount :: u32
  gps_scratch :: bytes
  gps_out :: "gps_output list"

definition gps_init :: gps where
  "gps_init = \<lparr>m_lineBuf = replicate NMEA_LINE_BUF_SIZE 0, m_lineLen = 0, m_enabled = True,
     m_lastFixQuality = 0, m_sentenceCount = 0, gps_scratch = replicate NMEA_LINE_BUF_SIZE 0, gps_out = []\<rparr>"

definition gps_emit :: "gps_output \<Rightarrow> gps \<Rightarrow> gps" where
  "gps_emit x g = g\<lparr>gps_out := gps_out g @ [x]\<rparr>"

subsection \<open>\<open>parseGGA\<close>: the fields\<close>

function utc_length :: "bytes \<Rightarrow> nat \<Rightarrow> nat option" where
  "utc_length t tlen = do {
     c \<leftarrow> rd t tlen;
     if c \<noteq> 0 \<and> tlen < 16 then utc_length t (Suc tlen) else Some tlen }"
  by pat_completeness auto
termination
  by (relation "measure (\<lambda>(t, tlen). 16 - tlen)") auto

declare utc_length.simps [simp del]

definition utc_pair :: "bytes \<Rightarrow> nat \<Rightarrow> u8 option" where
  "utc_pair t i = do {
     a \<leftarrow> rd t i;
     b \<leftarrow> rd t (i + 1);
     Some (word_of_int ((uint a - uint (ch CHR ''0'')) * 10 + (uint b - uint (ch CHR ''0'')))) }"

definition pack_hms :: "u8 \<Rightarrow> u8 \<Rightarrow> u8 \<Rightarrow> u32" where
  "pack_hms hh mm ss = (push_bit 16 (ucast hh) OR push_bit 8 (ucast mm)) OR ucast ss"

definition gga_utc :: "bytes \<Rightarrow> u32 option" where
  "gga_utc t = do {
     tlen \<leftarrow> utc_length t 0;
     if tlen \<ge> 6 then do {
       hh \<leftarrow> utc_pair t 0;
       mm \<leftarrow> utc_pair t 2;
       ss \<leftarrow> utc_pair t 4;
       Some (pack_hms hh mm ss) }
     else Some (pack_hms 0 0 0) }"

definition gga_hdop :: "int \<Rightarrow> u16" where
  "gga_hdop hdop_i32 = (if hdop_i32 \<ge> 0 \<and> hdop_i32 \<le> 65535 then word_of_int hdop_i32 else 9999)"

text \<open>The end of \<open>parseGGA\<close>: all fields parsed, publish them and track the fix.\<close>

definition gga_publish :: "gps \<Rightarrow> u8 \<Rightarrow> u8 \<Rightarrow> int \<Rightarrow> int \<Rightarrow> int \<Rightarrow> u16 \<Rightarrow> gps" where
  "gga_publish g fix_quality sats lat lon alt_cm hdop_x100 =
     (let g1 = gps_emit (TlmHDOP hdop_x100) (gps_emit (TlmAltitude alt_cm) (gps_emit (TlmLongitude lon)
                 (gps_emit (TlmLatitude lat) (gps_emit (TlmSatCount sats) (gps_emit (TlmFixQuality fix_quality) g)))));
          g2 = (if fix_quality > 0 \<and> m_lastFixQuality g1 = 0 then gps_emit (LogFixAcquired sats) g1
                else if fix_quality = 0 \<and> m_lastFixQuality g1 > 0 then gps_emit LogFixLost g1
                else g1)
      in g2\<lparr>m_lastFixQuality := fix_quality\<rparr>)"

definition gga_fail :: "gps \<Rightarrow> u8 \<Rightarrow> (bool \<times> gps) option" where
  "gga_fail g fieldIndex = Some (False, gps_emit (LogParseError fieldIndex) g)"

definition gga_fields :: "gps \<Rightarrow> bytes \<Rightarrow> nat list \<Rightarrow> (bool \<times> gps) option" where
  "gga_fields g scratch flds = do {
     t \<leftarrow> fld scratch flds 1;
     utc_hms \<leftarrow> gga_utc t;
     let g = gps_emit (TlmUtcTime utc_hms) g;
     f2 \<leftarrow> fld scratch flds 2;
     f3 \<leftarrow> fld scratch flds 3;
     h3 \<leftarrow> rd f3 0;
     (ok2, lat) \<leftarrow> parseDegMin (Some f2) h3;
     if \<not> ok2 then gga_fail g 2
     else do {
       f4 \<leftarrow> fld scratch flds 4;
       f5 \<leftarrow> fld scratch flds 5;
       h5 \<leftarrow> rd f5 0;
       (ok4, lon) \<leftarrow> parseDegMin (Some f4) h5;
       if \<not> ok4 then gga_fail g 4
       else do {
         f6 \<leftarrow> fld scratch flds 6;
         (ok6, fix_quality) \<leftarrow> parseU8 (Some f6);
         if \<not> ok6 then gga_fail g 6
         else do {
           f7 \<leftarrow> fld scratch flds 7;
           (ok7, sats) \<leftarrow> parseU8 (Some f7);
           if \<not> ok7 then gga_fail g 7
           else do {
             f8 \<leftarrow> fld scratch flds 8;
             (ok8, hdop_i32) \<leftarrow> parseFP (Some f8) 100;
             if \<not> ok8 then gga_fail g 8
             else do {
               f9 \<leftarrow> fld scratch flds 9;
               (ok9, alt_cm) \<leftarrow> parseFP (Some f9) 100;
               if \<not> ok9 then gga_fail g 9
               else Some (True, gga_publish g fix_quality sats lat lon alt_cm (gga_hdop hdop_i32)) } } } } } }"

definition parseGGA :: "gps \<Rightarrow> bytes \<Rightarrow> (bool \<times> gps) option" where
  "parseGGA g line = do {
     (scratch, flds) \<leftarrow> gga_tokenise line (gps_scratch g);
     let g = g\<lparr>gps_scratch := scratch\<rparr>;
     if length flds < 10 then gga_fail g 0 else gga_fields g scratch flds }"

subsection \<open>Lines and bytes\<close>

definition is_gga :: "bytes \<Rightarrow> nat \<Rightarrow> bool option" where
  "is_gga buf len =
     (if len \<ge> 6 then do {
        c0 \<leftarrow> rd buf 0; c3 \<leftarrow> rd buf 3; c4 \<leftarrow> rd buf 4; c5 \<leftarrow> rd buf 5;
        Some (c0 = ch CHR ''$'' \<and> c3 = ch CHR ''G'' \<and> c4 = ch CHR ''G'' \<and> c5 = ch CHR ''A'') }
      else Some False)"

definition processLine :: "gps \<Rightarrow> gps option" where
  "processLine g = do {
     buf \<leftarrow> wr (m_lineBuf g) (m_lineLen g) 0;
     let g = g\<lparr>m_lineBuf := buf\<rparr>;
     gga \<leftarrow> is_gga buf (m_lineLen g);
     if \<not> gga then Some g
     else do {
       valid \<leftarrow> verifyChecksum buf (m_lineLen g);
       if \<not> valid then Some (gps_emit (LogNmeaChecksumError (cstr buf)) g)
       else do {
         (parsed, g1) \<leftarrow> parseGGA g buf;
         if parsed then
           let g2 = g1\<lparr>m_sentenceCount := m_sentenceCount g1 + 1\<rparr>
           in Some (gps_emit (TlmSentenceCount (m_sentenceCount g2)) g2)
         else Some g1 } } }"

text \<open>The body of the drain loop for one byte.\<close>

definition gps_byte :: "u8 \<Rightarrow> gps \<Rightarrow> gps option" where
  "gps_byte byte g =
     (if byte = 10 then do {
        g1 \<leftarrow> (if m_lineLen g > 0 then processLine g else Some g);
        Some (g1\<lparr>m_lineLen := 0\<rparr>) }
      else if byte \<noteq> 13 then
        if m_lineLen g < NMEA_LINE_BUF_SIZE - 1 then do {
          buf \<leftarrow> wr (m_lineBuf g) (m_lineLen g) byte;
          Some (g\<lparr>m_lineBuf := buf, m_lineLen := m_lineLen g + 1\<rparr>) }
        else Some ((gps_emit (LogUartOverrun (of_nat (m_lineLen g))) g)\<lparr>m_lineLen := 0\<rparr>)
      else Some g)"

function gps_drain :: "nat \<Rightarrow> nat \<Rightarrow> u8 \<Rightarrow> gps \<Rightarrow> world \<Rightarrow> (gps \<times> world) option" where
  "gps_drain drain_limit drain_count byte g w =
     (if drain_count < drain_limit then do {
        (rc, byte', w1) \<leftarrow> hal_uart_getc HAL_UART1 byte w;
        if rc = HAL_OK then do {
          g1 \<leftarrow> gps_byte byte' g;
          gps_drain drain_limit (Suc drain_count) byte' g1 w1 }
        else Some (g, w1) }
      else Some (g, w))"
  by pat_completeness auto
termination
  by (relation "measure (\<lambda>(drain_limit, drain_count, byte, g, w). drain_limit - drain_count)") auto

declare gps_drain.simps [simp del]

definition gps_schedIn_handler :: "gps \<Rightarrow> world \<Rightarrow> (gps \<times> world) option" where
  "gps_schedIn_handler g w = (if \<not> m_enabled g then Some (g, w) else gps_drain 256 0 0 g w)"

subsection \<open>Command handlers\<close>

definition GPS_RESET_cmdHandler :: "u32 \<Rightarrow> u32 \<Rightarrow> gps \<Rightarrow> world \<Rightarrow> (gps \<times> world) option" where
  "GPS_RESET_cmdHandler opCode cmdSeq g w = do {
     w1 \<leftarrow> hal_uart_rx_flush HAL_UART1 w;
     Some (gps_emit (GpsCmdOK opCode cmdSeq) (g\<lparr>m_lineLen := 0, m_lastFixQuality := 0\<rparr>), w1) }"

definition GPS_SET_ENABLED_cmdHandler :: "u32 \<Rightarrow> u32 \<Rightarrow> bool \<Rightarrow> gps \<Rightarrow> gps" where
  "GPS_SET_ENABLED_cmdHandler opCode cmdSeq enabled g =
     gps_emit (GpsCmdOK opCode cmdSeq) (g\<lparr>m_enabled := enabled\<rparr>)"

subsection \<open>The sentence parser as a function of the comma-separated fields\<close>

text \<open>The packed time of day, from the first six characters of the field.\<close>

fun utc_hms :: "bytes \<Rightarrow> u32" where
  "utc_hms (a # b # c # d # e # f # _) =
     pack_hms (word_of_int (digit_val a * 10 + digit_val b)) (word_of_int (digit_val c * 10 + digit_val d))
       (word_of_int (digit_val e * 10 + digit_val f))"
| "utc_hms _ = pack_hms 0 0 0"

lemma utc_length_line:
  assumes "0 \<notin> set s" "length pre \<le> 16"
  shows "utc_length (pre @ s @ 0 # r) (length pre) = Some (min 16 (length pre + length s))"
  using assms
proof (induction s arbitrary: pre)
  case Nil
  then show ?case by (subst utc_length.simps) (simp add: mem_simps)
next
  case (Cons x s)
  show ?case
  proof (cases "length pre = 16")
    case True
    then show ?thesis by (subst utc_length.simps) (simp add: mem_simps)
  next
    case False
    with Cons.IH [of "pre @ [x]"] Cons.prems show ?thesis
      by (subst utc_length.simps) (simp add: mem_simps)
  qed
qed

lemma gga_utc_line: "0 \<notin> set s \<Longrightarrow> gga_utc (s @ 0 # r) = Some (utc_hms s)"
proof -
  assume s: "0 \<notin> set s"
  then have len: "utc_length (s @ 0 # r) 0 = Some (min 16 (length s))"
    using utc_length_line [of s "[]" r] by simp
  show ?thesis
    by (cases s rule: utc_hms.cases)
      (use len in \<open>auto simp: gga_utc_def utc_pair_def rd_def digit_val_def\<close>)
qed

text \<open>\<open>parseGGA\<close> on the fields \<open>ps\<close> of the sentence, without the scratch array.\<close>

definition gga_eval :: "gps \<Rightarrow> bytes list \<Rightarrow> (bool \<times> gps) option" where
  "gga_eval g ps =
     (if length ps < 10 then gga_fail g 0
      else
        let g = gps_emit (TlmUtcTime (utc_hms (ps ! 1))) g in do {
        (ok2, lat) \<leftarrow> parseDegMin (Some (ps ! 2 @ [0])) (hd (ps ! 3 @ [0]));
        if \<not> ok2 then gga_fail g 2
        else do {
          (ok4, lon) \<leftarrow> parseDegMin (Some (ps ! 4 @ [0])) (hd (ps ! 5 @ [0]));
          if \<not> ok4 then gga_fail g 4
          else do {
            (ok6, fix_quality) \<leftarrow> parseU8 (Some (ps ! 6 @ [0]));
            if \<not> ok6 then gga_fail g 6
            else do {
              (ok7, sats) \<leftarrow> parseU8 (Some (ps ! 7 @ [0]));
              if \<not> ok7 then gga_fail g 7
              else do {
                (ok8, hdop_i32) \<leftarrow> parseFP (Some (ps ! 8 @ [0])) 100;
                if \<not> ok8 then gga_fail g 8
                else do {
                  (ok9, alt_cm) \<leftarrow> parseFP (Some (ps ! 9 @ [0])) 100;
                  if \<not> ok9 then gga_fail g 9
                  else Some (True, gga_publish g fix_quality sats lat lon alt_cm (gga_hdop hdop_i32)) } } } } } })"

lemma rd_hd: "rd (s @ 0 # r) 0 = Some (hd (s @ [0]))"
  by (cases s) (simp_all add: rd_def)

lemma csv_no_nul: "0 \<notin> set xs \<Longrightarrow> p \<in> set (csv n xs) \<Longrightarrow> 0 \<notin> set p"
proof (induction n arbitrary: xs)
  case 0
  then show ?case by simp
next
  case (Suc n)
  show ?case
  proof (cases "dropWhile (\<lambda>c. c \<noteq> 44) xs")
    case Nil
    with Suc.prems show ?thesis by (simp only: csv.simps list.case) simp
  next
    case (Cons y ys)
    then have "set ys \<subseteq> set xs" using set_dropWhileD [of _ "\<lambda>c. c \<noteq> 44" xs] by (auto simp: subset_iff)
    with Suc.prems(1) have ys: "0 \<notin> set ys" by blast
    from Suc.prems(2) consider "p = takeWhile (\<lambda>c. c \<noteq> 44) xs" | "p \<in> set (csv n ys)"
      unfolding csv.simps Cons list.case by auto
    then show ?thesis
      using Suc.IH [OF ys] Suc.prems(1) by cases (auto dest: set_takeWhileD)
  qed
qed

lemma gga_fields_eval:
  assumes flds: "\<And>k. k < length ps \<Longrightarrow> \<exists>r. fld scratch flds k = Some (ps ! k @ 0 # r)"
    and len: "10 \<le> length ps" and nul: "\<And>p. p \<in> set ps \<Longrightarrow> 0 \<notin> set p"
  shows "gga_fields g scratch flds = gga_eval g ps"
proof -
  have "k < length ps" if "k < 10" for k using that len by simp
  then have f: "\<exists>r. fld scratch flds k = Some (ps ! k @ 0 # r)" if "k < 10" for k
    using flds that by blast
  obtain r1 r2 r3 r4 r5 r6 r7 r8 r9 where f1: "fld scratch flds 1 = Some (ps ! 1 @ 0 # r1)"
    and f2: "fld scratch flds 2 = Some (ps ! 2 @ 0 # r2)" and f3: "fld scratch flds 3 = Some (ps ! 3 @ 0 # r3)"
    and f4: "fld scratch flds 4 = Some (ps ! 4 @ 0 # r4)" and f5: "fld scratch flds 5 = Some (ps ! 5 @ 0 # r5)"
    and f6: "fld scratch flds 6 = Some (ps ! 6 @ 0 # r6)" and f7: "fld scratch flds 7 = Some (ps ! 7 @ 0 # r7)"
    and f8: "fld scratch flds 8 = Some (ps ! 8 @ 0 # r8)" and f9: "fld scratch flds 9 = Some (ps ! 9 @ 0 # r9)"
    using f [of 1] f [of 2] f [of 3] f [of 4] f [of 5] f [of 6] f [of 7] f [of 8] f [of 9] by auto
  have "ps ! 1 \<in> set ps" using len by simp
  note utc = gga_utc_line [OF nul [OF this], of r1]
  have ge: "\<not> length ps < 10" using len by simp
  show ?thesis
    unfolding gga_fields_def gga_eval_def f1 f2 f3 f4 f5 f6 f7 f8 f9 bind.bind_lunit utc rd_hd if_not_P [OF ge]
      parseDegMin_nul [of _ r2] parseDegMin_nul [of _ r4] parseU8_nul [of _ r6] parseU8_nul [of _ r7]
      parseFP_nul [of _ r8] parseFP_nul [of _ r9] ..
qed

text \<open>
  \<open>gga_eval\<close> in closed form, for fields whose numbers are short enough (\<open>gga_short\<close>) for the
  \<open>int32_t\<close> arithmetic.
\<close>

definition gga_short :: "bytes list \<Rightarrow> bool" where
  "gga_short ps \<longleftrightarrow> length ps < 10
     \<or> degmin_short (ps ! 2) \<and> degmin_short (ps ! 4) \<and> fp_short (ps ! 8) \<and> fp_short (ps ! 9)"

definition gga_spec :: "gps \<Rightarrow> bytes list \<Rightarrow> bool \<times> gps" where
  "gga_spec g ps =
     (if length ps < 10 then (False, gps_emit (LogParseError 0) g)
      else
        let g = gps_emit (TlmUtcTime (utc_hms (ps ! 1))) g;
            (lat_ok, lat) = degmin_spec (ps ! 2) (hd (ps ! 3 @ [0]));
            (lon_ok, lon) = degmin_spec (ps ! 4) (hd (ps ! 5 @ [0]));
            (q_ok, q) = u8_spec (ps ! 6);
            (s_ok, s) = u8_spec (ps ! 7);
            (hdop_ok, hdop) = fp_spec (ps ! 8);
            (alt_ok, alt) = fp_spec (ps ! 9)
        in if \<not> lat_ok then (False, gps_emit (LogParseError 2) g)
           else if \<not> lon_ok then (False, gps_emit (LogParseError 4) g)
           else if \<not> q_ok then (False, gps_emit (LogParseError 6) g)
           else if \<not> s_ok then (False, gps_emit (LogParseError 7) g)
           else if \<not> hdop_ok then (False, gps_emit (LogParseError 8) g)
           else if \<not> alt_ok then (False, gps_emit (LogParseError 9) g)
           else (True, gga_publish g q s lat lon alt (gga_hdop hdop)))"

lemma gga_eval_spec:
  assumes nul: "\<And>p. p \<in> set ps \<Longrightarrow> 0 \<notin> set p" and short: "gga_short ps"
  shows "gga_eval g ps = Some (gga_spec g ps)"
proof (cases "length ps < 10")
  case True
  then show ?thesis by (simp add: gga_eval_def gga_spec_def gga_fail_def)
next
  case False
  have z: "0 \<notin> set (ps ! k)" if "k < 10" for k using nul [of "ps ! k"] False that by simp
  have sh: "degmin_short (ps ! 2)" "degmin_short (ps ! 4)" "fp_short (ps ! 8)" "fp_short (ps ! 9)"
    using short False by (simp_all add: gga_short_def)
  have p: "parseDegMin (Some (ps ! 2 @ [0])) h = Some (degmin_spec (ps ! 2) h)"
    "parseDegMin (Some (ps ! 4 @ [0])) h = Some (degmin_spec (ps ! 4) h)"
    "parseU8 (Some (ps ! 6 @ [0])) = Some (u8_spec (ps ! 6))" "parseU8 (Some (ps ! 7 @ [0])) = Some (u8_spec (ps ! 7))"
    "parseFP (Some (ps ! 8 @ [0])) 100 = Some (fp_spec (ps ! 8))"
    "parseFP (Some (ps ! 9 @ [0])) 100 = Some (fp_spec (ps ! 9))" for h
    using sh z by (auto intro: parseDegMin_spec parseU8_spec parseFP_spec)
  show ?thesis
    unfolding gga_eval_def gga_spec_def gga_fail_def p bind.bind_lunit if_not_P [OF False] Let_def
    by (auto split: prod.splits)
qed

text \<open>
  The fields cut out of the scratch array are the pieces of the line between its commas, and what
  the array held before does not matter.
\<close>

lemma parseGGA_csv:
  assumes "0 \<notin> set L" "length L \<le> 99" "length (gps_scratch g) = 100"
  obtains scratch' where "length scratch' = 100"
    "parseGGA g (L @ 0 # rest) = gga_eval (g\<lparr>gps_scratch := scratch'\<rparr>) (csv 15 L)"
proof -
  obtain scratch' flds where t: "gga_tokenise (L @ 0 # rest) (gps_scratch g) = Some (scratch', flds)"
    "length scratch' = 100" "length flds = length (csv 15 L)"
    "\<And>k. k < length (csv 15 L) \<Longrightarrow> \<exists>r. fld scratch' flds k = Some (csv 15 L ! k @ 0 # r)"
    by (rule gga_tokenise_fields [OF assms, of rest]) blast
  have "parseGGA g (L @ 0 # rest) = gga_eval (g\<lparr>gps_scratch := scratch'\<rparr>) (csv 15 L)"
  proof (cases "length (csv 15 L) < 10")
    case True
    with t(1,3) show ?thesis by (simp add: parseGGA_def gga_eval_def)
  next
    case False
    with t(1,3) gga_fields_eval [OF t(4)] csv_no_nul [OF assms(1)] show ?thesis
      by (simp add: parseGGA_def not_less)
  qed
  with t(2) show ?thesis by (rule that)
qed

subsection \<open>Well-formed reports\<close>

text \<open>
  A GGA report as a receiver sends it. A coordinate is its degree digits, its two minute digits
  and the fraction of the minutes; HDOP and altitude are a sign, the integer digits and optionally
  a fraction; \<open>fx_rest\<close> are the fields after the altitude (its unit, the geoid separation, ...).
\<close>

record gga_fix =
  fx_talker :: bytes
  fx_time :: bytes
  fx_lat :: "bytes \<times> bytes \<times> bytes"
  fx_ns :: u8
  fx_lon :: "bytes \<times> bytes \<times> bytes"
  fx_ew :: u8
  fx_quality :: bytes
  fx_sats :: bytes
  fx_hdop :: "bool \<times> bytes \<times> bytes option"
  fx_alt :: "bool \<times> bytes \<times> bytes option"
  fx_rest :: "bytes list"

text \<open>A character that neither separates fields nor ends the sentence.\<close>

definition plain :: "u8 \<Rightarrow> bool" where
  "plain c \<longleftrightarrow> c \<noteq> 0 \<and> c \<noteq> 10 \<and> c \<noteq> 13 \<and> c \<noteq> 42 \<and> c \<noteq> 44"

definition coord_text :: "bytes \<times> bytes \<times> bytes \<Rightarrow> bytes" where
  "coord_text = (\<lambda>(D, M, F). D @ M @ 46 # F)"

definition coord_ok :: "bytes \<times> bytes \<times> bytes \<Rightarrow> bool" where
  "coord_ok = (\<lambda>(D, M, F). digits D \<and> 1 \<le> length D \<and> length D \<le> 3 \<and> digits M \<and> length M = 2 \<and> digits F)"

definition u8_ok :: "bytes \<Rightarrow> bool" where
  "u8_ok U \<longleftrightarrow> digits U \<and> length U \<le> 4 \<and> dec U \<le> 255"

definition fx_fields :: "gga_fix \<Rightarrow> bytes list" where
  "fx_fields fx =
     [fx_talker fx @ [71, 71, 65], fx_time fx, coord_text (fx_lat fx), [fx_ns fx], coord_text (fx_lon fx), [fx_ew fx],
      fx_quality fx, fx_sats fx, (case fx_hdop fx of (neg, I, fo) \<Rightarrow> fp_text neg I fo),
      (case fx_alt fx of (neg, I, fo) \<Rightarrow> fp_text neg I fo)] @ fx_rest fx"

definition fx_ok :: "gga_fix \<Rightarrow> bool" where
  "fx_ok fx \<longleftrightarrow> length (fx_talker fx) = 2 \<and> list_all plain (fx_talker fx) \<and> list_all plain (fx_time fx)
     \<and> coord_ok (fx_lat fx) \<and> plain (fx_ns fx) \<and> coord_ok (fx_lon fx) \<and> plain (fx_ew fx)
     \<and> u8_ok (fx_quality fx) \<and> u8_ok (fx_sats fx)
     \<and> (case fx_hdop fx of (neg, I, fo) \<Rightarrow> fp_ok neg I fo) \<and> (case fx_alt fx of (neg, I, fo) \<Rightarrow> fp_ok neg I fo)
     \<and> fx_rest fx \<noteq> [] \<and> length (fx_rest fx) \<le> 6 \<and> list_all (list_all plain) (fx_rest fx)"

fun join_csv :: "bytes list \<Rightarrow> bytes" where
  "join_csv [] = []"
| "join_csv [p] = p"
| "join_csv (p # q # ps) = p @ 44 # join_csv (q # ps)"

text \<open>The telemetry and the event a report stands for, when the last fix quality was \<open>old\<close>.\<close>

definition coord_value :: "bytes \<times> bytes \<times> bytes \<Rightarrow> u8 \<Rightarrow> int" where
  "coord_value c h = (case c of (D, M, F) \<Rightarrow> hemi_sign h * degmin_value D M F)"

definition fp_of :: "bool \<times> bytes \<times> bytes option \<Rightarrow> int" where
  "fp_of v = (case v of (neg, I, fo) \<Rightarrow> fp_value neg I fo)"

definition fix_event :: "u8 \<Rightarrow> u8 \<Rightarrow> u8 \<Rightarrow> gps_output list" where
  "fix_event old new sats =
     (if new > 0 \<and> old = 0 then [LogFixAcquired sats] else if new = 0 \<and> old > 0 then [LogFixLost] else [])"

definition fx_outputs :: "u8 \<Rightarrow> gga_fix \<Rightarrow> gps_output list" where
  "fx_outputs old fx =
     (let quality = word_of_int (dec (fx_quality fx)); sats = word_of_int (dec (fx_sats fx)) in
      [TlmUtcTime (utc_hms (fx_time fx)), TlmFixQuality quality, TlmSatCount sats,
       TlmLatitude (coord_value (fx_lat fx) (fx_ns fx)), TlmLongitude (coord_value (fx_lon fx) (fx_ew fx)),
       TlmAltitude (fp_of (fx_alt fx)), TlmHDOP (gga_hdop (fp_of (fx_hdop fx)))] @ fix_event old quality sats)"

lemma join_csv_append: "ps \<noteq> [] \<Longrightarrow> join_csv ps @ s = join_csv (butlast ps @ [last ps @ s])"
proof (induction ps rule: join_csv.induct)
  case (3 p q ps)
  have "butlast (p # q # ps) = p # butlast (q # ps)" "last (p # q # ps) = last (q # ps)" by simp_all
  moreover obtain y ys where "butlast (q # ps) @ [last (q # ps) @ s] = y # ys"
    by (cases "butlast (q # ps) @ [last (q # ps) @ s]") auto
  ultimately show ?case using 3 by (metis append_Cons append_assoc join_csv.simps(3) list.discI)
qed simp_all

lemma join_csv_Cons: "ps \<noteq> [] \<Longrightarrow> join_csv (p # ps) = p @ 44 # join_csv ps"
  by (cases ps) auto

lemma csv_join: "ps \<noteq> [] \<Longrightarrow> length ps \<le> Suc n \<Longrightarrow> \<forall>p \<in> set ps. 44 \<notin> set p \<Longrightarrow> csv n (join_csv ps) = ps"
proof (induction ps arbitrary: n)
  case (Cons p ps)
  show ?case
  proof (cases "ps = []")
    case True
    with Cons.prems show ?thesis by (simp add: csv_no_comma)
  next
    case False
    then obtain m where "n = Suc m" "length ps \<le> Suc m" using Cons.prems(2) by (cases n) auto
    with Cons.IH [of m] Cons.prems(3) False show ?thesis
      by (simp add: join_csv_Cons csv_comma del: csv.simps)
  qed
qed simp

lemma gga_publish_eq:
  "gga_publish g q s lat lon alt hdop = g\<lparr>gps_out := gps_out g @ [TlmFixQuality q, TlmSatCount s, TlmLatitude lat,
     TlmLongitude lon, TlmAltitude alt, TlmHDOP hdop] @ fix_event (m_lastFixQuality g) q s, m_lastFixQuality := q\<rparr>"
  by (auto simp: gga_publish_def gps_emit_def fix_event_def Let_def word_neq_0_conv)

lemma parseDegMin_coord:
  assumes "coord_ok c"
  shows "parseDegMin (Some (coord_text c @ [0])) h = Some (True, coord_value c h)"
  using assms parseDegMin_value [of _ _ _ 0 "[]" h]
  by (cases c) (simp add: coord_ok_def coord_text_def coord_value_def)

lemma parseU8_ok: "u8_ok U \<Longrightarrow> parseU8 (Some (U @ [0])) = Some (True, word_of_int (dec U))"
  by (simp add: u8_ok_def parseU8_spec u8_spec_def)

lemma parseFP_of: "(case v of (neg, I, fo) \<Rightarrow> fp_ok neg I fo) \<Longrightarrow>
    parseFP (Some ((case v of (neg, I, fo) \<Rightarrow> fp_text neg I fo) @ [0])) 100 = Some (True, fp_of v)"
  using parseFP_value [where rest = "[]"] by (cases v) (simp add: fp_of_def)

lemma gga_eval_fix:
  assumes ok: "fx_ok fx" and ps: "take 9 (tl ps) = take 9 (tl (fx_fields fx))" "10 \<le> length ps"
  shows "gga_eval g ps = Some (True, g\<lparr>gps_out := gps_out g @ fx_outputs (m_lastFixQuality g) fx,
    m_lastFixQuality := word_of_int (dec (fx_quality fx))\<rparr>)"
proof -
  have nth: "ps ! Suc k = fx_fields fx ! Suc k" if "k < 9" for k
  proof -
    have "length (fx_fields fx) \<ge> 10" by (simp add: fx_fields_def)
    with that ps(2) have "ps ! Suc k = take 9 (tl ps) ! k" "fx_fields fx ! Suc k = take 9 (tl (fx_fields fx)) ! k"
      by (simp_all add: nth_tl)
    with ps(1) show ?thesis by simp
  qed
  have p: "ps ! 1 = fx_time fx" "ps ! 2 = coord_text (fx_lat fx)" "ps ! 3 = [fx_ns fx]" "ps ! 4 = coord_text (fx_lon fx)"
    "ps ! 5 = [fx_ew fx]" "ps ! 6 = fx_quality fx" "ps ! 7 = fx_sats fx"
    "ps ! 8 = (case fx_hdop fx of (neg, I, fo) \<Rightarrow> fp_text neg I fo)"
    "ps ! 9 = (case fx_alt fx of (neg, I, fo) \<Rightarrow> fp_text neg I fo)"
    using nth [of 0] nth [of 1] nth [of 2] nth [of 3] nth [of 4] nth [of 5] nth [of 6] nth [of 7] nth [of 8]
    by (simp_all add: fx_fields_def eval_nat_numeral)
  note ok = ok [unfolded fx_ok_def]
  have hd: "hd ([x] @ [0]) = x" for x :: u8 by simp
  have ge: "\<not> length ps < 10" using ps(2) by simp
  have pub: "gps_emit (TlmUtcTime u) g = g\<lparr>gps_out := gps_out g @ [TlmUtcTime u]\<rparr>" for u
    by (simp add: gps_emit_def)
  have parsers:
    "parseDegMin (Some (coord_text (fx_lat fx) @ [0])) (fx_ns fx) = Some (True, coord_value (fx_lat fx) (fx_ns fx))"
    "parseDegMin (Some (coord_text (fx_lon fx) @ [0])) (fx_ew fx) = Some (True, coord_value (fx_lon fx) (fx_ew fx))"
    "parseU8 (Some (fx_quality fx @ [0])) = Some (True, word_of_int (dec (fx_quality fx)))"
    "parseU8 (Some (fx_sats fx @ [0])) = Some (True, word_of_int (dec (fx_sats fx)))"
    "parseFP (Some ((case fx_hdop fx of (neg, I, fo) \<Rightarrow> fp_text neg I fo) @ [0])) 100 = Some (True, fp_of (fx_hdop fx))"
    "parseFP (Some ((case fx_alt fx of (neg, I, fo) \<Rightarrow> fp_text neg I fo) @ [0])) 100 = Some (True, fp_of (fx_alt fx))"
    using ok by (simp_all add: parseDegMin_coord parseU8_ok parseFP_of)
  have "gga_eval g ps = Some (True, gga_publish (gps_emit (TlmUtcTime (utc_hms (fx_time fx))) g)
      (word_of_int (dec (fx_quality fx))) (word_of_int (dec (fx_sats fx)))
      (coord_value (fx_lat fx) (fx_ns fx)) (coord_value (fx_lon fx) (fx_ew fx)) (fp_of (fx_alt fx))
      (gga_hdop (fp_of (fx_hdop fx))))"
    unfolding gga_eval_def p hd if_not_P [OF ge] Let_def parsers bind.bind_lunit prod.case by simp
  also have "\<dots> = Some (True, g\<lparr>gps_out := gps_out g @ fx_outputs (m_lastFixQuality g) fx,
      m_lastFixQuality := word_of_int (dec (fx_quality fx))\<rparr>)"
    by (simp add: gga_publish_eq pub fx_outputs_def Let_def)
  finally show ?thesis .
qed

subsection \<open>Framed reports\<close>

definition fx_line :: "gga_fix \<Rightarrow> bytes" where
  "fx_line fx = nmea_frame (join_csv (fx_fields fx))"

lemma digit_plain: "is_digit c \<Longrightarrow> plain c"
  by (auto simp: is_digit_alt plain_def)

lemma digits_plain: "digits ds \<Longrightarrow> list_all plain ds"
  by (auto simp: list_all_iff digit_plain)

lemma plain_consts [simp]: "plain 45" "plain 46" "plain 71" "plain 65" "plain 36"
  by (simp_all add: plain_def)

lemma coord_plain: "coord_ok c \<Longrightarrow> list_all plain (coord_text c)"
  by (cases c) (simp add: coord_ok_def coord_text_def digits_plain)

lemma fp_plain: "fp_ok neg I fo \<Longrightarrow> list_all plain (fp_text neg I fo)"
  by (cases fo) (simp_all add: fp_ok_def fp_text_def digits_plain)

lemma fx_plain: "fx_ok fx \<Longrightarrow> list_all (list_all plain) (fx_fields fx)"
  by (auto simp: fx_ok_def fx_fields_def u8_ok_def coord_plain fp_plain digits_plain split: prod.splits)

lemma join_csv_chars: "list_all (list_all plain) ps \<Longrightarrow> c \<in> set (join_csv ps) \<Longrightarrow> c = 44 \<or> plain c"
  by (induction ps rule: join_csv.induct) (auto simp: list_all_iff)

lemma plain_no_comma: "list_all plain p \<Longrightarrow> 44 \<notin> set p"
  by (auto simp: list_all_iff plain_def)

lemma hex_char_plain: "n < 16 \<Longrightarrow> plain (hex_char n)"
proof -
  assume "n < 16"
  moreover have "\<forall>n \<in> set [0..<16]. plain (hex_char n)"
    by (simp add: upt_conv_Cons plain_def hex_char_def)
  ultimately show ?thesis by simp
qed

lemma hex_byte_plain: "list_all plain (hex_byte b)"
  using unat_u8_less [of b] by (simp add: hex_byte_def hex_char_plain)

lemma fx_line_chars:
  assumes "fx_ok fx" "c \<in> set (fx_line fx)"
  shows "c \<noteq> 0 \<and> c \<noteq> 10 \<and> c \<noteq> 13"
proof -
  have "c = 36 \<or> c = 42 \<or> c = 44 \<or> plain c"
    using assms join_csv_chars [OF fx_plain [OF assms(1)], of c] hex_byte_plain
    by (auto simp: fx_line_def nmea_frame_def list_all_iff)
  then show ?thesis by (auto simp: plain_def)
qed

lemma fx_body_no_star: "fx_ok fx \<Longrightarrow> 42 \<notin> set (join_csv (fx_fields fx))"
  using join_csv_chars [OF fx_plain, of fx 42] by (auto simp: plain_def)

text \<open>The fields of the framed line: the dollar sign joins the first, the checksum the last.\<close>

lemma fx_line_csv:
  assumes "fx_ok fx"
  shows "take 9 (tl (csv 15 (fx_line fx))) = take 9 (tl (fx_fields fx)) \<and> 10 \<le> length (csv 15 (fx_line fx))"
proof -
  let ?s = "42 # hex_byte (nmea_checksum (join_csv (fx_fields fx)))"
  obtain f0 fs where f: "fx_fields fx = f0 # fs" by (simp add: fx_fields_def)
  let ?ps = "(36 # f0) # fs"
  let ?qs = "butlast ?ps @ [last ?ps @ ?s]"
  have r: "fx_rest fx \<noteq> []" "length (fx_rest fx) \<le> 6" using assms by (simp_all add: fx_ok_def)
  have fs: "length fs \<le> 15" "10 \<le> length fs" "fs \<noteq> []"
    using f r by (auto simp: fx_fields_def Suc_le_eq)
  have "fx_line fx = (36 # join_csv (f0 # fs)) @ ?s"
    by (simp add: fx_line_def nmea_frame_def f)
  also have "36 # join_csv (f0 # fs) = join_csv ?ps" using fs(3) by (simp add: join_csv_Cons)
  finally have line: "fx_line fx = join_csv ?qs" using join_csv_append [of ?ps ?s] by simp
  have "44 \<notin> set p" if "p \<in> set (fx_fields fx)" for p
    using fx_plain [OF assms] that plain_no_comma by (auto simp: list_all_iff)
  then have "\<forall>p \<in> set ?qs. 44 \<notin> set p"
    using fs(3) plain_no_comma [OF hex_byte_plain] by (auto simp: f dest: in_set_butlastD)
  moreover have "length ?qs = length fs + 1" by simp
  ultimately have "csv 15 (fx_line fx) = ?qs"
    unfolding line using fs by (intro csv_join) auto
  moreover have "tl ?qs = butlast fs @ [last fs @ ?s]" using fs(3) by simp
  moreover have "take 9 (butlast fs @ xs) = take 9 fs" for xs
    using fs(2) by (simp add: take_butlast)
  ultimately show ?thesis using fs(2,3) by (simp only: f list.sel) simp
qed

text \<open>What one well-formed report does to the component, apart from its buffers.\<close>

definition fx_effect :: "gga_fix \<Rightarrow> gps \<Rightarrow> gps" where
  "fx_effect fx g = g\<lparr>m_lastFixQuality := word_of_int (dec (fx_quality fx)), m_sentenceCount := m_sentenceCount g + 1,
     gps_out := gps_out g @ fx_outputs (m_lastFixQuality g) fx @ [TlmSentenceCount (m_sentenceCount g + 1)]\<rparr>"

lemma processLine_fix:
  assumes ok: "fx_ok fx" and len: "length (fx_line fx) \<le> 99" and scratch: "length (gps_scratch g) = 100"
    and buf: "m_lineBuf g = fx_line fx @ r" "r \<noteq> []" "m_lineLen g = length (fx_line fx)"
  obtains sc where "length sc = 100"
    "processLine g = Some (fx_effect fx g\<lparr>m_lineBuf := fx_line fx @ 0 # tl r, gps_scratch := sc\<rparr>)"
proof -
  let ?L = "fx_line fx" and ?b = "fx_line fx @ 0 # tl r"
  let ?body = "join_csv (fx_fields fx)"
  let ?g = "g\<lparr>m_lineBuf := ?b\<rparr>"
  have wr: "wr (m_lineBuf g) (m_lineLen g) 0 = Some ?b"
    using buf by (cases r) (simp_all add: wr_def list_update_append)
  have tag: "\<exists>a b rest. ?body = a # b # 71 # 71 # 65 # rest"
  proof -
    obtain a b where "fx_talker fx = [a, b]" using ok by (auto simp: fx_ok_def length_Suc_conv numeral_2_eq_2)
    then show ?thesis by (simp add: fx_fields_def)
  qed
  then have gga: "is_gga ?b (m_lineLen g) = Some True"
    by (auto simp: is_gga_def buf(3) fx_line_def nmea_frame_def hex_byte_def rd_def)
  have "?L = ch CHR ''$'' # ?body @ ch CHR ''*'' # hex_byte (nmea_checksum ?body)" "length ?L = length ?body + 4"
    by (simp_all add: fx_line_def nmea_frame_def hex_byte_def)
  with verifyChecksum_frame [of ?body "nmea_checksum ?body" "0 # tl r"] fx_body_no_star [OF ok]
  have valid: "verifyChecksum ?b (m_lineLen g) = Some True" by (simp add: buf(3) eval_nat_numeral)
  have nul: "0 \<notin> set ?L" using fx_line_chars [OF ok] by blast
  obtain sc where sc: "length sc = 100" "parseGGA ?g ?b = gga_eval (?g\<lparr>gps_scratch := sc\<rparr>) (csv 15 ?L)"
    by (rule parseGGA_csv [OF nul len, of ?g "tl r"]) (use scratch in auto)
  have "processLine g = Some (fx_effect fx g\<lparr>m_lineBuf := ?b, gps_scratch := sc\<rparr>)"
    using gga_eval_fix [OF ok, of "csv 15 ?L" "?g\<lparr>gps_scratch := sc\<rparr>"] fx_line_csv [OF ok]
    by (simp add: processLine_def wr gga valid sc(2) fx_effect_def gps_emit_def)
  with sc(1) show ?thesis by (rule that)
qed

subsection \<open>Properties\<close>

text \<open>
  C30: \<open>parseGGA\<close> on any NUL-terminated line of at most 99 characters: the in-place tokeniser with
  its pointers into the static array cuts the line exactly at its first 15 commas, and what is
  published, which \<open>ParseError\<close> is raised and the returned flag are those of the field list. If
  the coordinates have at most three degree digits and HDOP and altitude at most seven integer
  digits, nothing is undefined.
\<close>

theorem parseGGA_total:
  assumes "0 \<notin> set L" "length L \<le> 99" "length (gps_scratch g) = 100" "gga_short (csv 15 L)"
  shows "\<exists>scratch'. length scratch' = 100
    \<and> parseGGA g (L @ 0 # rest) = Some (gga_spec (g\<lparr>gps_scratch := scratch'\<rparr>) (csv 15 L))"
proof -
  obtain sc where "length sc = 100" "parseGGA g (L @ 0 # rest) = gga_eval (g\<lparr>gps_scratch := sc\<rparr>) (csv 15 L)"
    by (rule parseGGA_csv [OF assms(1-3)])
  then show ?thesis using gga_eval_spec [OF csv_no_nul [OF assms(1)] assms(4)] by auto
qed

lemma parseGGA_total_witness:
  "\<exists>scratch'. parseGGA gps_init (ascii ''$GPGGA,120000,,,,,0'' @ [0])
     = Some (False, gps_init\<lparr>gps_scratch := scratch', gps_out := [LogParseError 0]\<rparr>)"
proof -
  have c: "csv 15 (ascii ''$GPGGA,120000,,,,,0'') = [ascii ''$GPGGA'', ascii ''120000'', [], [], [], [], ascii ''0'']"
    by code_simp
  show ?thesis
    using parseGGA_total [of "ascii ''$GPGGA,120000,,,,,0''" gps_init "[]"] unfolding c
    by (auto simp: gga_short_def gga_spec_def gps_init_def NMEA_LINE_BUF_SIZE_def gps_emit_def)
qed

text \<open>
  A receiver without a fix sends empty coordinates. Such a sentence only sets the UTC time and
  raises \<open>ParseError 2\<close>: the fix quality is not even read, so \<open>FixLost\<close> is never raised for it and
  the component goes on assuming the last fix.
\<close>

theorem empty_latitude_keeps_fix:
  assumes "0 \<notin> set L" "length L \<le> 99" "length (gps_scratch g) = 100"
    and "10 \<le> length (csv 15 L)" "csv 15 L ! 2 = []"
  shows "\<exists>scratch'. parseGGA g (L @ 0 # rest) = Some (False, g\<lparr>gps_scratch := scratch',
      gps_out := gps_out g @ [TlmUtcTime (utc_hms (csv 15 L ! 1)), LogParseError 2]\<rparr>)"
proof -
  obtain sc where "parseGGA g (L @ 0 # rest) = gga_eval (g\<lparr>gps_scratch := sc\<rparr>) (csv 15 L)"
    by (rule parseGGA_csv [OF assms(1-3)])
  with assms(4,5) parseDegMin_empty [of "[]"] show ?thesis
    by (intro exI [of _ sc]) (simp add: gga_eval_def gga_fail_def gps_emit_def not_less)
qed

lemma empty_latitude_keeps_fix_witness:
  "\<exists>scratch'. parseGGA (gps_init\<lparr>m_lastFixQuality := 1\<rparr>) (ascii ''$GPGGA,120000,,,,,0,00,99.99,,,,,,*48'' @ [0])
    = Some (False, gps_init\<lparr>m_lastFixQuality := 1, gps_scratch := scratch', gps_out := [TlmUtcTime 786432, LogParseError 2]\<rparr>)"
proof -
  let ?L = "ascii ''$GPGGA,120000,,,,,0,00,99.99,,,,,,*48''"
  have c: "10 \<le> length (csv 15 ?L)" "csv 15 ?L ! 2 = []" "csv 15 ?L ! 1 = ascii ''120000''"
    by code_simp+
  have "0 \<notin> set ?L" "length ?L \<le> 99" by simp_all
  from empty_latitude_keeps_fix [OF this _ c(1,2), of "gps_init\<lparr>m_lastFixQuality := 1\<rparr>" "[]"]
  show ?thesis
    unfolding c by (simp add: gps_init_def NMEA_LINE_BUF_SIZE_def digit_val_def pack_hms_def)
qed

end
