(* ===== verification/GpsStream.thy ===== *)
theory GpsStream
  imports Gps LineStream "HOL-Library.Sublist"
begin

text \<open>
  The GPS component as the scheduler sees it: the bytes drained from UART1, assembled into lines.
  The lemmas relate the byte-at-a-time assembler to whole lines, the drain loop to the generic
  \<open>drain\<close> of the prelude through the interpretation \<open>uart1\<close>, and give the end-to-end behaviour of
  \<open>schedIn_handler\<close> from the bytes in the ring buffer to telemetry and events.
\<close>

subsection \<open>The byte stream\<close>

definition gps_wf :: "gps \<Rightarrow> bool" where
  "gps_wf g \<longleftrightarrow> length (m_lineBuf g) = 100 \<and> m_lineLen g \<le> 99 \<and> length (gps_scratch g) = 100"

lemma gps_init_wf: "gps_wf gps_init"
  by (simp add: gps_wf_def gps_init_def NMEA_LINE_BUF_SIZE_def)

text \<open>Characters of a line are collected in the buffer.\<close>

lemma gps_collect:
  assumes "\<forall>c \<in> set L. c \<noteq> 10 \<and> c \<noteq> 13" "gps_wf g" "m_lineLen g + length L \<le> 99"
  shows "foldM gps_byte L g = Some (g\<lparr>m_lineBuf := take (m_lineLen g) (m_lineBuf g) @ L @ drop (m_lineLen g + length L) (m_lineBuf g),
    m_lineLen := m_lineLen g + length L\<rparr>)"
  using assms
proof (induction L arbitrary: g)
  case Nil
  then show ?case by simp
next
  case (Cons c L)
  let ?n = "m_lineLen g" and ?b = "m_lineBuf g"
  have n: "?n < length ?b" using Cons.prems(2,3) by (simp add: gps_wf_def)
  let ?g = "g\<lparr>m_lineBuf := ?b[?n := c], m_lineLen := ?n + 1\<rparr>"
  have step: "gps_byte c g = Some ?g"
    using Cons.prems n by (simp add: gps_byte_def NMEA_LINE_BUF_SIZE_def mem_simps)
  have "gps_wf ?g" using Cons.prems by (simp add: gps_wf_def)
  with Cons.IH [of ?g] Cons.prems have "foldM gps_byte L ?g = Some (?g\<lparr>
      m_lineBuf := take (?n + 1) (?b[?n := c]) @ L @ drop (?n + 1 + length L) (?b[?n := c]), m_lineLen := ?n + 1 + length L\<rparr>)"
    by simp
  moreover have "take (?n + 1) (?b[?n := c]) = take ?n ?b @ [c]"
    using n by (simp add: take_Suc_conv_app_nth)
  ultimately show ?case using step by simp
qed

lemma gps_frame:
  assumes ok: "fx_ok fx" and len: "length (fx_line fx) \<le> 99" and wf: "gps_wf g" and start: "m_lineLen g = 0"
  shows "\<exists>buf sc. foldM gps_byte (fx_line fx @ [13, 10]) g
      = Some (fx_effect fx g\<lparr>m_lineBuf := buf, gps_scratch := sc, m_lineLen := 0\<rparr>) \<and> length buf = 100 \<and> length sc = 100"
proof -
  let ?L = "fx_line fx"
  let ?r = "drop (length ?L) (m_lineBuf g)"
  let ?g = "g\<lparr>m_lineBuf := ?L @ ?r, m_lineLen := length ?L\<rparr>"
  have collect: "foldM gps_byte ?L g = Some ?g"
    using gps_collect [of ?L g] fx_line_chars [OF ok] wf start len by auto
  have r: "?r \<noteq> []" using wf len by (simp add: gps_wf_def)
  obtain sc where sc: "length sc = 100"
      "processLine ?g = Some (fx_effect fx ?g\<lparr>m_lineBuf := ?L @ 0 # tl ?r, gps_scratch := sc\<rparr>)"
    by (rule processLine_fix [OF ok len, of ?g ?r]) (use wf r in \<open>auto simp: gps_wf_def\<close>)
  have "?L \<noteq> []" by (simp add: fx_line_def nmea_frame_def)
  then have "foldM gps_byte [13, 10] ?g
      = Some (fx_effect fx g\<lparr>m_lineBuf := ?L @ 0 # tl ?r, gps_scratch := sc, m_lineLen := 0\<rparr>)"
    using sc(2) by (simp add: gps_byte_def fx_effect_def)
  with collect have "foldM gps_byte (?L @ [13, 10]) g
      = Some (fx_effect fx g\<lparr>m_lineBuf := ?L @ 0 # tl ?r, gps_scratch := sc, m_lineLen := 0\<rparr>)"
    by (simp only: foldM_append bind.bind_lunit)
  moreover have "length (?L @ 0 # tl ?r) = 100" using wf len by (simp add: gps_wf_def)
  ultimately show ?thesis using sc(1) by blast
qed

subsection \<open>The drain loop\<close>

lemma gps_drain_eq:
  "world_wf w \<Longrightarrow> n \<le> lim \<Longrightarrow> gps_drain lim n b g w = drain (hal_poll HAL_UART1) gps_byte (lim - n) g w"
proof (induction "lim - n" arbitrary: n b g w)
  case 0
  then show ?case by (subst gps_drain.simps) simp
next
  case (Suc k)
  obtain r w1 where poll: "hal_poll HAL_UART1 w = Some (r, w1)"
      "hal_uart_getc HAL_UART1 b w = Some (case r of None \<Rightarrow> (HAL_ERR_EMPTY, b, w1) | Some c \<Rightarrow> (HAL_OK, c, w1))"
    using hal_uart_getc_out [OF Suc.prems(1)] by blast
  have "world_wf w1" using hal_uart_getc_poll [OF Suc.prems(1), of HAL_UART1] poll(1) by simp
  then have "gps_drain lim (Suc n) c g' w1 = drain (hal_poll HAL_UART1) gps_byte k g' w1" for c g'
    using Suc by (metis Suc_diff_Suc Suc_inject Suc_leI zero_less_Suc zero_less_diff)
  moreover have "lim - n = Suc k" "n < lim" using Suc.hyps(2) by simp_all
  ultimately show ?case
    using poll by (subst gps_drain.simps) (cases r; simp split: bind_split)
qed

text \<open>A disabled receiver does nothing; an enabled one drains at most 256 bytes.\<close>

lemma gps_schedIn_drain:
  "world_wf w \<Longrightarrow> gps_schedIn_handler g w
    = (if m_enabled g then drain (hal_poll HAL_UART1) gps_byte 256 g w else Some (g, w))"
  by (simp add: gps_schedIn_handler_def gps_drain_eq)

subsection \<open>Lines against their specification\<close>

text \<open>
  The state the outside can tell apart: buffers and the static array are left out. \<open>line_spec\<close> is
  what one complete line does to it.
\<close>

definition gps_core :: "gps \<Rightarrow> bool \<times> u8 \<times> u32 \<times> gps_output list" where
  "gps_core g = (m_enabled g, m_lastFixQuality g, m_sentenceCount g, gps_out g)"

definition gga_header :: "bytes \<Rightarrow> bool" where
  "gga_header L \<longleftrightarrow> 6 \<le> length L \<and> L ! 0 = 36 \<and> L ! 3 = 71 \<and> L ! 4 = 71 \<and> L ! 5 = 65"

definition line_spec :: "bytes \<Rightarrow> gps \<Rightarrow> gps" where
  "line_spec L g =
     (if \<not> gga_header L then g
      else if \<not> checksum_ok L then gps_emit (LogNmeaChecksumError (cstr L)) g
      else case gga_spec g (csv 15 (cstr L)) of
        (parsed, g1) \<Rightarrow>
          if parsed then gps_emit (TlmSentenceCount (m_sentenceCount g1 + 1)) (g1\<lparr>m_sentenceCount := m_sentenceCount g1 + 1\<rparr>)
          else g1)"

definition line_safe :: "bytes \<Rightarrow> bool" where
  "line_safe L \<longleftrightarrow> (gga_header L \<and> checksum_ok L \<longrightarrow> gga_short (csv 15 (cstr L)))"

lemma cstr_append_nul: "cstr (L @ 0 # r) = cstr L"
  by (auto simp: cstr_def takeWhile_append takeWhile_eq_all_conv [symmetric, THEN iffD1] dest: takeWhile_eq_all_conv [THEN iffD2, symmetric])

lemma cstr_split: obtains rest where "L @ 0 # r = cstr L @ 0 # rest" "0 \<notin> set (cstr L)" "length (cstr L) \<le> length L"
proof (cases "0 \<in> set L")
  case True
  then obtain ys zs where L: "L = ys @ 0 # zs" "0 \<notin> set ys" by (metis split_list_first)
  then have "cstr L = ys" unfolding cstr_def L(1) by (subst takeWhile_append2) auto
  with L that [of "zs @ 0 # r"] show ?thesis by simp
next
  case False
  then have "cstr L = L" by (auto simp: cstr_def takeWhile_eq_all_conv)
  with False that show ?thesis by simp
qed

lemma is_gga_line: "is_gga (L @ 0 # r) (length L) = Some (gga_header L)"
  by (auto simp: is_gga_def gga_header_def rd_def nth_append)

lemma gps_core_simps [simp]:
  "gps_core (g\<lparr>m_lineBuf := b\<rparr>) = gps_core g" "gps_core (g\<lparr>gps_scratch := c\<rparr>) = gps_core g"
  "gps_core (g\<lparr>m_lineLen := n\<rparr>) = gps_core g"
  by (simp_all add: gps_core_def)

lemma gps_emit_core: "gps_core g = gps_core g' \<Longrightarrow> gps_core (gps_emit x g) = gps_core (gps_emit x g')"
  by (simp add: gps_core_def gps_emit_def)

lemma gps_emit_fields [simp]:
  "m_lineBuf (gps_emit x g) = m_lineBuf g" "m_lineLen (gps_emit x g) = m_lineLen g"
  "gps_scratch (gps_emit x g) = gps_scratch g" "m_sentenceCount (gps_emit x g) = m_sentenceCount g"
  "m_lastFixQuality (gps_emit x g) = m_lastFixQuality g" "m_enabled (gps_emit x g) = m_enabled g"
  by (simp_all add: gps_emit_def)

lemma gga_spec_fields [simp]:
  "m_lineBuf (snd (gga_spec g ps)) = m_lineBuf g" "gps_scratch (snd (gga_spec g ps)) = gps_scratch g"
  by (auto simp: gga_spec_def gga_publish_eq Let_def split: prod.split)

lemma gga_spec_core:
  "gps_core g = gps_core g' \<Longrightarrow> fst (gga_spec g ps) = fst (gga_spec g' ps)
    \<and> gps_core (snd (gga_spec g ps)) = gps_core (snd (gga_spec g' ps))"
  by (auto simp: gga_spec_def gga_publish_eq Let_def gps_core_def gps_emit_def split: prod.split)

lemma line_spec_core: "gps_core g = gps_core g' \<Longrightarrow> gps_core (line_spec L g) = gps_core (line_spec L g')"
proof -
  assume eq: "gps_core g = gps_core g'"
  obtain p g1 g1' where s: "gga_spec g (csv 15 (cstr L)) = (p, g1)" "gga_spec g' (csv 15 (cstr L)) = (p, g1')"
      "gps_core g1 = gps_core g1'"
    using gga_spec_core [OF eq, of "csv 15 (cstr L)"]
    by (cases "gga_spec g (csv 15 (cstr L))"; cases "gga_spec g' (csv 15 (cstr L))") auto
  then show ?thesis
    using eq gps_emit_core [OF eq] by (auto simp: line_spec_def) (auto simp: gps_core_def gps_emit_def)
qed

lemma processLine_spec:
  assumes buf: "m_lineBuf g = L @ r" "r \<noteq> []" "m_lineLen g = length L" and len: "length L \<le> 99"
    and scratch: "length (gps_scratch g) = 100" and safe: "line_safe L"
  obtains g' where "processLine g = Some g'" "gps_core g' = gps_core (line_spec L g)"
    "length (m_lineBuf g') = length (m_lineBuf g)" "length (gps_scratch g') = 100"
proof -
  let ?b = "L @ 0 # tl r"
  let ?g = "g\<lparr>m_lineBuf := ?b\<rparr>"
  have wr: "wr (m_lineBuf g) (m_lineLen g) 0 = Some ?b"
    using buf by (cases r) (simp_all add: wr_def list_update_append)
  have lb: "length ?b = length (m_lineBuf g)" using buf by (cases r) simp_all
  have valid: "verifyChecksum ?b (length L) = Some (checksum_ok L)"
    using verifyChecksum_spec [of "length L" ?b] by simp
  show ?thesis
  proof (cases "gga_header L \<and> checksum_ok L")
    case False
    then have "processLine g = Some (if gga_header L then gps_emit (LogNmeaChecksumError (cstr L)) ?g else ?g)"
      using wr valid buf(3) by (auto simp: processLine_def is_gga_line cstr_append_nul)
    then show ?thesis
      by (rule that) (use False lb scratch in \<open>auto simp: line_spec_def gps_core_def gps_emit_def\<close>)
  next
    case True
    then have short: "gga_short (csv 15 (cstr L))" using safe by (simp add: line_safe_def)
    obtain rest where c: "?b = cstr L @ 0 # rest" "0 \<notin> set (cstr L)" "length (cstr L) \<le> length L"
      by (rule cstr_split)
    have "length (cstr L) \<le> 99" using c(3) len by simp
    then obtain sc where sc: "length sc = 100"
        "parseGGA ?g ?b = gga_eval (?g\<lparr>gps_scratch := sc\<rparr>) (csv 15 (cstr L))"
      by (rule parseGGA_csv [OF c(2), of ?g rest]) (use scratch c(1) in auto)
    let ?h = "?g\<lparr>gps_scratch := sc\<rparr>"
    obtain p g1 where s: "gga_spec ?h (csv 15 (cstr L)) = (p, g1)" by force
    have e: "parseGGA ?g ?b = Some (p, g1)"
      using gga_eval_spec [OF csv_no_nul [OF c(2)] short, where g = ?h] sc(2) s by simp
    let ?r = "if p then gps_emit (TlmSentenceCount (m_sentenceCount g1 + 1)) (g1\<lparr>m_sentenceCount := m_sentenceCount g1 + 1\<rparr>) else g1"
    have "processLine g = Some ?r"
      using wr valid buf(3) True e by (simp add: processLine_def is_gga_line)
    moreover have "gps_core ?r = gps_core (line_spec L g)"
      using line_spec_core [of ?h g L] True s by (simp add: line_spec_def)
    moreover have "m_lineBuf g1 = ?b" "gps_scratch g1 = sc"
      using s gga_spec_fields [of ?h "csv 15 (cstr L)"] by simp_all
    ultimately show ?thesis using that [of ?r] lb sc(1) by auto
  qed
qed

text \<open>A carriage return is skipped.\<close>

lemma foldM_skip_cr: "foldM gps_byte (L @ [13, 10]) g = foldM gps_byte (L @ [10]) g"
  by (simp add: foldM_append gps_byte_def)

subsection \<open>The receiver as a line reader\<close>

definition gps_pending :: "gps \<Rightarrow> bytes" where
  "gps_pending g = take (m_lineLen g) (m_lineBuf g)"

definition gps_overrun :: "gps \<Rightarrow> gps" where
  "gps_overrun = gps_emit (LogUartOverrun 99)"

lemma gps_wf_pending: "gps_wf g \<Longrightarrow> length (gps_pending g) = m_lineLen g \<and> m_lineLen g \<le> 99"
  by (simp add: gps_pending_def gps_wf_def)

lemma gps_byte_lf:
  assumes "gps_wf g" "gps_pending g \<noteq> []" "line_safe (gps_pending g)"
  shows "\<exists>g'. gps_byte 10 g = Some g' \<and> gps_wf g' \<and> gps_pending g' = [] \<and> gps_core g' = gps_core (line_spec (gps_pending g) g)"
proof -
  let ?L = "gps_pending g"
  note len = gps_wf_pending [OF assms(1)]
  obtain g' where g': "processLine g = Some g'" "gps_core g' = gps_core (line_spec ?L g)"
      "length (m_lineBuf g') = length (m_lineBuf g)" "length (gps_scratch g') = 100"
    by (rule processLine_spec [of g ?L "drop (m_lineLen g) (m_lineBuf g)"])
      (use assms len in \<open>auto simp: gps_wf_def gps_pending_def\<close>)
  have "0 < m_lineLen g" using assms(2) by (cases "m_lineLen g") (simp_all add: gps_pending_def)
  then have "gps_byte 10 g = Some (g'\<lparr>m_lineLen := 0\<rparr>)" using g'(1) by (simp add: gps_byte_def)
  moreover have "gps_wf (g'\<lparr>m_lineLen := 0\<rparr>)" using assms(1) g'(3,4) by (simp add: gps_wf_def)
  ultimately show ?thesis using g'(2) by (auto simp: gps_pending_def)
qed

lemma gps_byte_room:
  assumes "gps_wf g" "c \<noteq> 10" "c \<noteq> 13" "length (gps_pending g) < 99"
  shows "\<exists>g'. gps_byte c g = Some g' \<and> gps_wf g' \<and> gps_pending g' = gps_pending g @ [c] \<and> gps_core g' = gps_core g"
proof -
  let ?g = "g\<lparr>m_lineBuf := (m_lineBuf g)[m_lineLen g := c], m_lineLen := m_lineLen g + 1\<rparr>"
  have n: "m_lineLen g < 99" "m_lineLen g < length (m_lineBuf g)"
    using assms(1,4) gps_wf_pending [OF assms(1)] by (simp_all add: gps_wf_def)
  then have "gps_byte c g = Some ?g" using assms(2,3) by (simp add: gps_byte_def NMEA_LINE_BUF_SIZE_def mem_simps)
  moreover have "gps_pending ?g = gps_pending g @ [c]" using n by (simp add: gps_pending_def take_Suc_conv_app_nth)
  moreover have "gps_wf ?g" using assms(1) n by (simp add: gps_wf_def)
  ultimately show ?thesis by simp
qed

lemma gps_byte_full:
  assumes "gps_wf g" "c \<noteq> 10" "c \<noteq> 13" "length (gps_pending g) = 99"
  shows "\<exists>g'. gps_byte c g = Some g' \<and> gps_wf g' \<and> gps_pending g' = [] \<and> gps_core g' = gps_core (gps_overrun g)"
proof -
  have "m_lineLen g = 99" using assms(4) gps_wf_pending [OF assms(1)] by simp
  then have "gps_byte c g = Some ((gps_overrun g)\<lparr>m_lineLen := 0\<rparr>)"
    using assms(2,3) by (simp add: gps_byte_def NMEA_LINE_BUF_SIZE_def gps_overrun_def)
  then show ?thesis using assms(1) by (simp add: gps_pending_def gps_wf_def gps_overrun_def)
qed

interpretation gps_rx: line_receiver "hal_poll HAL_UART1" world_wf "rx_list HAL_UART1" "rx_arriving HAL_UART1" "rx_quiet HAL_UART1" later
  gps_byte gps_wf gps_pending 99 line_safe line_spec gps_overrun gps_core
proof (unfold_locales, goal_cases)
  case (1 g)
  then show ?case using gps_wf_pending [of g] by simp
next
  case (2 g)
  then show ?case by (rule gps_byte_lf)
next
  case (3 g)
  then have "m_lineLen g = 0" using gps_wf_pending [of g] by simp
  with 3 show ?case by (simp add: gps_byte_def gps_pending_def gps_wf_def)
next
  case (4 g)
  then show ?case by (simp add: gps_byte_def)
next
  case (5 g c)
  then show ?case by (intro gps_byte_room)
next
  case (6 g c)
  then show ?case by (intro gps_byte_full)
next
  case (7 g h L)
  then show ?case by (rule line_spec_core)
next
  case (8 g h)
  then show ?case unfolding gps_overrun_def by (rule gps_emit_core)
qed

lemma gps_tick:
  "world_wf w \<Longrightarrow> m_enabled g \<Longrightarrow> gps_schedIn_handler g w = drain (hal_poll HAL_UART1) gps_byte 256 g w"
  by (simp add: gps_schedIn_drain)

subsection \<open>What an undefined tick rests on\<close>

text \<open>What a line can deliver in \<open>n\<close> polls: the bytes in its ring, then those the hardware has for it meanwhile.\<close>

definition line_input :: "u8 \<Rightarrow> world \<Rightarrow> nat \<Rightarrow> bytes" where
  "line_input u w n = rx_list u w @ concat (map (w_fifo w (rx_fifo_id u)) [w_step w..<w_step w + n])"

lemma line_input_poll:
  assumes "later w w'" "w_step w' = Suc (w_step w)" "rx_list u w @ rx_arriving u w = b # rx_list u w'"
  shows "subseq (b # line_input u w' n) (line_input u w (Suc n))"
proof -
  let ?F = "w_fifo w (rx_fifo_id u)" and ?k = "w_step w"
  have F: "w_fifo w' = w_fifo w" using assms(1) by (simp add: later_def same_hw_def)
  have e: "b # line_input u w' n = rx_list u w @ rx_arriving u w @ concat (map ?F [Suc ?k..<Suc ?k + n])"
    using arg_cong [OF assms(3), of "\<lambda>x. x @ concat (map ?F [Suc ?k..<Suc ?k + n])"] assms(2) F by (simp add: line_input_def)
  have cut: "[?k..<?k + Suc n] = ?k # [Suc ?k..<Suc ?k + n]" by (simp add: upt_conv_Cons del: upt_Suc)
  have f: "line_input u w (Suc n) = rx_list u w @ ?F ?k @ concat (map ?F [Suc ?k..<Suc ?k + n])"
    by (simp only: line_input_def cut list.map concat.simps)
  have "subseq (rx_arriving u w) (?F ?k)"
    unfolding rx_arriving_def by (intro prefix_imp_subseq take_is_prefix)
  then show ?thesis unfolding e f by (intro list_emb_append_mono) auto
qed

lemma drain_undefined:
  "world_wf w \<Longrightarrow> drain (hal_poll u) step n s w = None \<Longrightarrow> \<exists>bs. subseq bs (line_input u w n) \<and> foldM step bs s = None"
proof (induction n arbitrary: s w)
  case (Suc n)
  from Suc.prems(1) show ?case
  proof (cases rule: hal_uart_getc_cases [of w u 0])
    case empty
    with Suc.prems(2) show ?thesis by (simp add: hal_poll_def)
  next
    case (byte b w')
    then have poll: "hal_poll u w = Some (Some b, w')" by (simp add: hal_poll_def)
    note input = line_input_poll [OF byte(3,4,6)]
    show ?thesis
    proof (cases "step b s")
      case None
      have "subseq [b] (b # line_input u w' n)" by simp
      with None input [of n] show ?thesis by (intro exI [of _ "[b]"]) (auto intro: subseq_order.order_trans)
    next
      case (Some s1)
      with poll Suc.prems(2) have "drain (hal_poll u) step n s1 w' = None" by simp
      with Suc.IH [OF byte(2)] obtain bs where bs: "subseq bs (line_input u w' n)" "foldM step bs s1 = None" by blast
      then have "subseq (b # bs) (b # line_input u w' n)" by simp
      with bs(2) Some input [of n] show ?thesis by (intro exI [of _ "b # bs"]) (auto intro: subseq_order.order_trans)
    qed
  qed
qed simp

text \<open>Only a valid GGA sentence with a long run of digits makes a tick undefined.\<close>

lemma gps_tick_undefined:
  assumes "world_wf w" "gps_wf g" "gps_schedIn_handler g w = None"
  shows "\<exists>bs L. subseq bs (line_input HAL_UART1 w 256) \<and> Line L \<in> set (fst (assemble 99 (gps_pending g) bs)) \<and> \<not> line_safe L"
proof -
  have "m_enabled g" using assms(3) by (auto simp: gps_schedIn_handler_def split: if_splits)
  then have "drain (hal_poll HAL_UART1) gps_byte 256 g w = None" using gps_tick [OF assms(1)] assms(3) by simp
  from drain_undefined [OF assms(1) this]
  obtain bs where bs: "subseq bs (line_input HAL_UART1 w 256)" "foldM gps_byte bs g = None" by (elim exE conjE)
  have "\<not> items_safe line_safe (fst (assemble 99 (gps_pending g) bs))"
  proof
    assume "items_safe line_safe (fst (assemble 99 (gps_pending g) bs))"
    from gps_rx.stream [OF assms(2) this] bs(2) show False by simp
  qed
  then obtain L where "Line L \<in> set (fst (assemble 99 (gps_pending g) bs))" "\<not> line_safe L" unfolding items_safe_def by blast
  with bs(1) show ?thesis by blast
qed

subsection \<open>Fix events\<close>

text \<open>
  \<open>fix_run b xs\<close>: the outputs \<open>xs\<close> contain no \<open>FixAcquired\<close> while there is a fix and no \<open>FixLost\<close>
  while there is none, starting with \<open>b\<close>; the result is whether there is a fix at the end.
\<close>

fun fix_run :: "bool \<Rightarrow> gps_output list \<Rightarrow> bool option" where
  "fix_run b [] = Some b"
| "fix_run b (LogFixAcquired s # xs) = (if b then None else fix_run True xs)"
| "fix_run b (LogFixLost # xs) = (if b then fix_run False xs else None)"
| "fix_run b (_ # xs) = fix_run b xs"

lemma fix_run_append: "fix_run b (xs @ ys) = do { c \<leftarrow> fix_run b xs; fix_run c ys }"
  by (induction b xs rule: fix_run.induct) auto

definition fix_step :: "gps \<Rightarrow> gps \<Rightarrow> bool" where
  "fix_step g g' \<longleftrightarrow> (\<exists>new. gps_out g' = gps_out g @ new
     \<and> fix_run (m_lastFixQuality g > 0) new = Some (m_lastFixQuality g' > 0))"

lemma fix_step_refl: "m_lastFixQuality g' = m_lastFixQuality g \<Longrightarrow> gps_out g' = gps_out g \<Longrightarrow> fix_step g g'"
  by (simp add: fix_step_def)

lemma fix_step_trans: "fix_step g g1 \<Longrightarrow> fix_step g1 g2 \<Longrightarrow> fix_step g g2"
  unfolding fix_step_def by (auto simp: fix_run_append)

lemma fix_step_emit: "\<forall>b. fix_run b [x] = Some b \<Longrightarrow> fix_step g (gps_emit x g)"
  by (simp add: fix_step_def gps_emit_def)

lemma fix_step_publish: "fix_step g (gga_publish g q s lat lon alt hdop)"
  by (auto simp: fix_step_def gga_publish_eq fix_event_def word_neq_0_conv)

lemma fix_step_fail: "gga_fail g i = Some (ok, g') \<Longrightarrow> fix_step g g'"
  by (auto simp: gga_fail_def intro: fix_step_emit)

lemma fix_step_fields: "gga_fields g scratch flds = Some (ok, g') \<Longrightarrow> fix_step g g'"
proof -
  assume "gga_fields g scratch flds = Some (ok, g')"
  then obtain u where "fix_step (gps_emit (TlmUtcTime u) g) g'"
    by (auto simp: gga_fields_def Let_def Option.bind_eq_Some_conv split: if_splits
        dest: fix_step_fail intro: fix_step_publish)
  moreover have "fix_step g (gps_emit (TlmUtcTime u) g)" by (rule fix_step_emit) simp
  ultimately show ?thesis by (rule fix_step_trans [rotated])
qed

lemma fix_step_parseGGA: "parseGGA g line = Some (ok, g') \<Longrightarrow> fix_step g g'"
proof -
  assume "parseGGA g line = Some (ok, g')"
  then obtain sc where "fix_step (g\<lparr>gps_scratch := sc\<rparr>) g'"
    by (auto simp: parseGGA_def Let_def Option.bind_eq_Some_conv split: if_splits
        dest: fix_step_fail fix_step_fields)
  then show ?thesis by (simp add: fix_step_def)
qed

lemma fix_step_processLine: "processLine g = Some g' \<Longrightarrow> fix_step g g'"
proof -
  assume "processLine g = Some g'"
  then consider (same) b where "g' = g\<lparr>m_lineBuf := b\<rparr>"
    | (bad) b s where "g' = gps_emit (LogNmeaChecksumError s) (g\<lparr>m_lineBuf := b\<rparr>)"
    | (fail) b ok where "parseGGA (g\<lparr>m_lineBuf := b\<rparr>) b = Some (ok, g')"
    | (ok) b g1 n where "parseGGA (g\<lparr>m_lineBuf := b\<rparr>) b = Some (True, g1)"
        "g' = gps_emit (TlmSentenceCount n) (g1\<lparr>m_sentenceCount := n\<rparr>)"
    by (auto simp: processLine_def Let_def Option.bind_eq_Some_conv split: if_splits)
  then show ?thesis
  proof cases
    case same
    then show ?thesis by (simp add: fix_step_refl)
  next
    case bad
    then show ?thesis by (simp add: fix_step_def gps_emit_def)
  next
    case fail
    from fix_step_parseGGA [OF fail] show ?thesis by (simp add: fix_step_def)
  next
    case ok
    from fix_step_parseGGA [OF ok(1)] ok(2) show ?thesis
      by (auto simp: fix_step_def gps_emit_def fix_run_append)
  qed
qed

lemma fix_step_byte: "gps_byte b g = Some g' \<Longrightarrow> fix_step g g'"
proof -
  assume "gps_byte b g = Some g'"
  then consider (line) g1 where "processLine g = Some g1" "g' = g1\<lparr>m_lineLen := 0\<rparr>"
    | (quiet) "m_lastFixQuality g' = m_lastFixQuality g" "gps_out g' = gps_out g"
    | (overrun) n where "g' = (gps_emit (LogUartOverrun n) g)\<lparr>m_lineLen := 0\<rparr>"
    by (auto simp: gps_byte_def Let_def Option.bind_eq_Some_conv split: if_splits)
  then show ?thesis
  proof cases
    case line
    from fix_step_processLine [OF line(1)] line(2) show ?thesis by (simp add: fix_step_def)
  next
    case quiet
    then show ?thesis by (simp add: fix_step_refl)
  next
    case overrun
    then show ?thesis by (simp add: fix_step_def gps_emit_def)
  qed
qed

lemma fix_step_stream: "foldM gps_byte bs g = Some g' \<Longrightarrow> fix_step g g'"
  by (induction bs arbitrary: g) (auto simp: Option.bind_eq_Some_conv fix_step_refl dest: fix_step_byte intro: fix_step_trans)

subsection \<open>A sample report\<close>

definition fx_sample :: gga_fix where
  "fx_sample = \<lparr>fx_talker = ascii ''GP'', fx_time = ascii ''123519'',
     fx_lat = (ascii ''48'', ascii ''07'', ascii ''038''), fx_ns = 78,
     fx_lon = (ascii ''011'', ascii ''31'', ascii ''000''), fx_ew = 69,
     fx_quality = ascii ''1'', fx_sats = ascii ''08'', fx_hdop = (False, ascii ''0'', Some (ascii ''9'')),
     fx_alt = (False, ascii ''545'', Some (ascii ''4'')), fx_rest = [ascii ''M'', ascii ''46.9'', ascii ''M'', [], []]\<rparr>"

lemma fx_sample_ok: "fx_ok fx_sample" "length (fx_line fx_sample) = 65"
  by code_simp+

lemma fx_sample_outputs:
  "fx_outputs 0 fx_sample = [TlmUtcTime 795411, TlmFixQuality 1, TlmSatCount 8, TlmLatitude 48117300,
     TlmLongitude 11516666, TlmAltitude 54540, TlmHDOP 90, LogFixAcquired 8]"
  by code_simp

lemma gps_frame_fix:
  assumes "fx_ok fx" "length (fx_line fx) \<le> 99" "gps_wf g" "m_lineLen g = 0"
  obtains g' where "foldM gps_byte (fx_line fx @ [13, 10]) g = Some g'" "gps_core g' = gps_core (fx_effect fx g)"
    "gps_wf g'" "m_lineLen g' = 0"
proof -
  obtain buf sc where b: "foldM gps_byte (fx_line fx @ [13, 10]) g
      = Some (fx_effect fx g\<lparr>m_lineBuf := buf, gps_scratch := sc, m_lineLen := 0\<rparr>)" "length buf = 100" "length sc = 100"
    using gps_frame [OF assms] by blast
  let ?g = "fx_effect fx g\<lparr>m_lineBuf := buf, gps_scratch := sc, m_lineLen := 0\<rparr>"
  have "gps_core ?g = gps_core (fx_effect fx g)" by (simp add: gps_core_def)
  moreover have "gps_wf ?g" "m_lineLen ?g = 0" using b(2,3) by (simp_all add: gps_wf_def)
  ultimately show ?thesis using that b(1) by blast
qed

subsection \<open>What the receiver never changes\<close>

lemma gga_copy_length: "gga_copy line scratch n i = Some sc \<Longrightarrow> length sc = length scratch"
proof (induction line scratch n i rule: gga_copy.induct)
  case (1 line scratch n i)
  show ?case
  proof (cases "i < n")
    case True
    with 1(2) obtain c s1 where c: "rd line i = Some c" "wr scratch i c = Some s1" "gga_copy line s1 n (Suc i) = Some sc"
      by (subst (asm) gga_copy.simps) (auto simp: Option.bind_eq_Some_conv)
    with 1(1) [OF True c] wr_SomeD [OF c(2)] show ?thesis by simp
  next
    case False
    with 1(2) show ?thesis by (subst (asm) gga_copy.simps) simp
  qed
qed

lemma gga_split_length: "gga_split scratch n i flds = Some (sc, fs) \<Longrightarrow> length sc = length scratch"
proof (induction scratch n i flds rule: gga_split.induct)
  case (1 scratch n i flds)
  show ?case
  proof (cases "i < n \<and> length flds < MAX_FIELDS")
    case True
    with 1(3) obtain c where c: "rd scratch i = Some c"
      and r: "(if c = ch CHR '','' then do { s1 \<leftarrow> wr scratch i 0; fs1 \<leftarrow> store_field flds (i + 1); gga_split s1 n (Suc i) fs1 }
          else gga_split scratch n (Suc i) flds) = Some (sc, fs)"
      by (subst (asm) gga_split.simps) (auto simp: Option.bind_eq_Some_conv)
    show ?thesis
    proof (cases "c = ch CHR '',''")
      case comma: True
      with r obtain s1 fs1 where s1: "wr scratch i 0 = Some s1" "store_field flds (i + 1) = Some fs1" "gga_split s1 n (Suc i) fs1 = Some (sc, fs)"
        by (auto simp: Option.bind_eq_Some_conv)
      with 1(1) [OF True c comma s1] wr_SomeD [OF s1(1)] show ?thesis by simp
    next
      case False
      with 1(2) [OF True c False] r show ?thesis by simp
    qed
  next
    case False
    with 1(3) show ?thesis by (subst (asm) gga_split.simps) auto
  qed
qed

lemma gga_tokenise_length: "gga_tokenise line scratch = Some (sc, fs) \<Longrightarrow> length sc = length scratch"
  by (auto simp: gga_tokenise_def Let_def Option.bind_eq_Some_conv dest!: gga_copy_length gga_split_length wr_SomeD split: if_splits)

text \<open>What parsing never changes: the line assembler and the enable flag.\<close>

definition gps_static :: "gps \<Rightarrow> bytes \<times> nat \<times> bool \<times> nat" where
  "gps_static g = (m_lineBuf g, m_lineLen g, m_enabled g, length (gps_scratch g))"

lemma gga_publish_frame: "gps_static (gga_publish g q s lat lon alt hdop) = gps_static g"
  by (simp add: gps_static_def gga_publish_eq)

lemma gps_emit_frame: "gps_static (gps_emit x g) = gps_static g"
  by (simp add: gps_static_def gps_emit_def)

lemma gga_fail_frame: "gga_fail g i = Some (ok, g') \<Longrightarrow> gps_static g' = gps_static g"
  by (auto simp: gga_fail_def gps_emit_frame)

lemma gga_fields_frame: "gga_fields g sc flds = Some (ok, g') \<Longrightarrow> gps_static g' = gps_static g"
proof -
  assume "gga_fields g sc flds = Some (ok, g')"
  then obtain u where "gps_static g' = gps_static (gps_emit (TlmUtcTime u) g)"
    by (auto simp: gga_fields_def Let_def Option.bind_eq_Some_conv split: if_splits
        dest: gga_fail_frame intro: gga_publish_frame)
  then show ?thesis by (simp only: gps_emit_frame)
qed

lemma parseGGA_frame: "parseGGA g line = Some (ok, g') \<Longrightarrow> gps_static g' = gps_static g"
proof -
  assume "parseGGA g line = Some (ok, g')"
  then obtain sc fs where t: "gga_tokenise line (gps_scratch g) = Some (sc, fs)"
    and r: "(if length fs < 10 then gga_fail (g\<lparr>gps_scratch := sc\<rparr>) 0 else gga_fields (g\<lparr>gps_scratch := sc\<rparr>) sc fs) = Some (ok, g')"
    by (auto simp: parseGGA_def Let_def Option.bind_eq_Some_conv)
  have "gps_static (g\<lparr>gps_scratch := sc\<rparr>) = gps_static g" using gga_tokenise_length [OF t] by (simp add: gps_static_def)
  moreover have "gps_static g' = gps_static (g\<lparr>gps_scratch := sc\<rparr>)"
    using r gga_fields_frame by (auto simp: gga_fail_def gps_static_def gps_emit_def split: if_splits)
  ultimately show ?thesis by simp
qed

lemma gps_byte_keeps:
  assumes "gps_byte b g = Some g'" "gps_wf g"
  shows "gps_wf g' \<and> m_enabled g' = m_enabled g"
proof -
  have line: "gps_wf g1 \<and> m_enabled g1 = m_enabled g" if p: "processLine g = Some g1" for g1
  proof -
    from p obtain buf where buf: "wr (m_lineBuf g) (m_lineLen g) 0 = Some buf"
      and "gps_static g1 = gps_static (g\<lparr>m_lineBuf := buf\<rparr>)"
      by (auto simp: processLine_def Let_def Option.bind_eq_Some_conv gps_static_def gps_emit_def split: if_splits
          dest!: parseGGA_frame)
    then show ?thesis using assms(2) wr_SomeD [OF buf] by (auto simp: gps_static_def gps_wf_def)
  qed
  show ?thesis
    using assms line
    by (auto simp: gps_byte_def gps_emit_def gps_wf_def NMEA_LINE_BUF_SIZE_def Option.bind_eq_Some_conv Let_def
      dest!: wr_SomeD split: if_splits)
qed

lemma gps_bytes_keep: "foldM gps_byte bs g = Some g' \<Longrightarrow> gps_wf g \<Longrightarrow> gps_wf g' \<and> m_enabled g' = m_enabled g"
  by (induction bs arbitrary: g) (auto simp: Option.bind_eq_Some_conv dest: gps_byte_keeps)

subsection \<open>Properties\<close>

text \<open>
  \<open>schedIn_handler\<close> of an enabled receiver takes the bytes waiting in the UART1 ring in the order
  they arrived, at most 256 per tick, and runs the line assembler over exactly these; it stops early
  only when the ring is empty, so nothing is lost, duplicated or reordered. What was taken does not
  depend on the component's state, and nothing is transmitted.
\<close>

theorem gps_schedIn_fifo:
  assumes "world_wf w"
  shows "\<exists>bs acc w'. (\<forall>g. gps_schedIn_handler g w
        = (if m_enabled g then map_option (\<lambda>g'. (g', w')) (foldM gps_byte bs g) else Some (g, w)))
    \<and> rx_list HAL_UART1 w @ acc = bs @ rx_list HAL_UART1 w' \<and> length bs \<le> 256
    \<and> (length bs < 256 \<longrightarrow> rx_list HAL_UART1 w' = []) \<and> (rx_quiet HAL_UART1 w \<longrightarrow> acc = [])
    \<and> world_wf w' \<and> later w w'"
proof -
  obtain bs acc w' where d:
    "\<forall>(f :: u8 \<Rightarrow> gps \<Rightarrow> gps option) s. drain (hal_poll HAL_UART1) f 256 s w = map_option (\<lambda>s'. (s', w')) (foldM f bs s)"
    "world_wf w'" "later w w'" "length bs \<le> 256" "rx_list HAL_UART1 w @ acc = bs @ rx_list HAL_UART1 w'"
    "length bs < 256 \<longrightarrow> rx_list HAL_UART1 w' = []" "rx_quiet HAL_UART1 w \<longrightarrow> acc = []"
    using uart1.drain_feeds [where ?'s = gps, OF assms, of 256] by blast
  then show ?thesis
    by (intro exI [of _ bs] exI [of _ acc] exI [of _ w']) (simp add: gps_schedIn_drain [OF assms])
qed

lemma gps_schedIn_fifo_witness:
  "\<exists>bs w'. gps_schedIn_handler gps_init (sim_world [] [65, 66])
      = map_option (\<lambda>g'. (g', w')) (foldM gps_byte bs gps_init) \<and> bs @ rx_list HAL_UART1 w' = [65, 66]"
proof -
  have wf: "world_wf (sim_world [] [65, 66])" and en: "m_enabled gps_init" by (simp_all add: gps_init_def)
  from gps_schedIn_fifo [OF wf] obtain bs acc w' where
    "\<forall>g. gps_schedIn_handler g (sim_world [] [65, 66])
       = (if m_enabled g then map_option (\<lambda>g'. (g', w')) (foldM gps_byte bs g) else Some (g, sim_world [] [65, 66]))"
    "rx_list HAL_UART1 (sim_world [] [65, 66]) @ acc = bs @ rx_list HAL_UART1 w'"
    "rx_quiet HAL_UART1 (sim_world [] [65, 66]) \<longrightarrow> acc = []"
    by blast
  with en show ?thesis by (intro exI [of _ bs] exI [of _ w']) simp
qed

text \<open>With a quiet line and fewer than 256 bytes waiting, the whole ring is processed.\<close>

lemma gps_schedIn_quiet:
  assumes "world_wf w" "rx_quiet HAL_UART1 w" "length (rx_list HAL_UART1 w) < 256" "m_enabled g"
    and "foldM gps_byte (rx_list HAL_UART1 w) g = Some g'"
  shows "\<exists>w'. gps_schedIn_handler g w = Some (g', w') \<and> world_wf w' \<and> later w w' \<and> rx_list HAL_UART1 w' = []"
  using uart1.drain_quiet [OF assms(1-3,5)] assms(4) by (simp add: gps_schedIn_drain [OF assms(1)])

text \<open>
  C1: End to end: when the ring holds one well-formed GGA report, framed with its checksum and ended
  by CR LF, one tick publishes exactly its UTC time, fix quality, satellite count, position, altitude
  and HDOP, raises \<open>FixAcquired\<close> or \<open>FixLost\<close> iff the fix appeared or disappeared, counts the
  sentence, and leaves the ring and the line buffer empty.
\<close>

theorem gps_report_published:
  assumes "fx_ok fx" "length (fx_line fx) \<le> 99" "gps_wf g" "m_lineLen g = 0" "m_enabled g"
    and "world_wf w" "rx_quiet HAL_UART1 w" "rx_list HAL_UART1 w = fx_line fx @ [13, 10]"
  shows "\<exists>g' w'. gps_schedIn_handler g w = Some (g', w')
    \<and> gps_out g' = gps_out g @ fx_outputs (m_lastFixQuality g) fx @ [TlmSentenceCount (m_sentenceCount g + 1)]
    \<and> m_lastFixQuality g' = word_of_int (dec (fx_quality fx)) \<and> m_sentenceCount g' = m_sentenceCount g + 1
    \<and> gps_wf g' \<and> m_lineLen g' = 0 \<and> m_enabled g' \<and> rx_list HAL_UART1 w' = [] \<and> later w w'"
proof -
  obtain g' where g': "foldM gps_byte (rx_list HAL_UART1 w) g = Some g'" "gps_core g' = gps_core (fx_effect fx g)"
      "gps_wf g'" "m_lineLen g' = 0"
    using gps_frame_fix [OF assms(1-4)] assms(8) by metis
  have "length (rx_list HAL_UART1 w) < 256" using assms(2,8) by simp
  from gps_schedIn_quiet [OF assms(6,7) this assms(5) g'(1)] g'(2-4) assms(5) show ?thesis
    by (auto simp: gps_core_def fx_effect_def)
qed

lemma gps_report_published_witness:
  "\<exists>g' w'. gps_schedIn_handler gps_init (sim_world [] (fx_line fx_sample @ [13, 10])) = Some (g', w')
    \<and> gps_out g' = [TlmUtcTime 795411, TlmFixQuality 1, TlmSatCount 8, TlmLatitude 48117300,
        TlmLongitude 11516666, TlmAltitude 54540, TlmHDOP 90, LogFixAcquired 8, TlmSentenceCount 1]"
proof -
  have "m_lineLen gps_init = 0" "m_enabled gps_init" "m_lastFixQuality gps_init = 0" "gps_out gps_init = []"
    "m_sentenceCount gps_init = 0" by (simp_all add: gps_init_def)
  then show ?thesis
    using gps_report_published [of fx_sample gps_init "sim_world [] (fx_line fx_sample @ [13, 10])"]
      fx_sample_ok gps_init_wf fx_sample_outputs by auto
qed

text \<open>
  C15: Every tick, on any bytes and whatever is left of an earlier line: the line assembler and parser
  do to the visible state exactly what the lines and overruns in the bytes taken from the ring
  call for, in order, and the unfinished line is kept for the next tick. A line that is no GGA
  sentence leaves no trace, one with a bad checksum raises \<open>NmeaChecksumError\<close> with its text and
  nothing else, a valid one has the effect of its fields, and the hundredth character of a line
  discards it with \<open>UartOverrun\<close>. Nothing leaves the buffers, and no arithmetic overflows as long as
  the digit runs of valid sentences are short.
\<close>

theorem gps_tick_refines:
  assumes "world_wf w" "gps_wf g" "m_enabled g"
  shows "\<exists>bs acc w'. rx_list HAL_UART1 w @ acc = bs @ rx_list HAL_UART1 w' \<and> length bs \<le> 256
    \<and> (length bs < 256 \<longrightarrow> rx_list HAL_UART1 w' = []) \<and> (rx_quiet HAL_UART1 w \<longrightarrow> acc = []) \<and> world_wf w' \<and> later w w'
    \<and> (let (is, rest) = assemble 99 (gps_pending g) bs in
        items_safe line_safe is \<longrightarrow> (\<exists>g'. gps_schedIn_handler g w = Some (g', w') \<and> gps_wf g' \<and> gps_pending g' = rest
          \<and> gps_core g' = gps_core (fold (item_effect line_spec gps_overrun) is g)))"
  unfolding gps_tick [OF assms(1,3)] by (rule gps_rx.tick [OF assms(1,2)])

lemma gps_tick_refines_witness:
  "\<exists>g' w'. gps_schedIn_handler gps_init (sim_world [] (ascii ''$GPGSV,1'' @ [13, 10] @ ascii ''$GPGGA*00'' @ [10] @ ascii ''$GP'')) = Some (g', w')
    \<and> gps_core g' = (True, 0, 0, [LogNmeaChecksumError (ascii ''$GPGGA*00'')]) \<and> gps_pending g' = ascii ''$GP''"
proof -
  let ?bs = "ascii ''$GPGSV,1'' @ [13, 10] @ ascii ''$GPGGA*00'' @ [10] @ ascii ''$GP''"
  have a: "assemble 99 [] ?bs = ([Line (ascii ''$GPGSV,1''), Line (ascii ''$GPGGA*00'')], ascii ''$GP'')"
    and s: "line_safe (ascii ''$GPGSV,1'')" "line_safe (ascii ''$GPGGA*00'')"
    and spec: "gps_core (fold (item_effect line_spec gps_overrun) [Line (ascii ''$GPGSV,1''), Line (ascii ''$GPGGA*00'')] gps_init)
      = (True, 0, 0, [LogNmeaChecksumError (ascii ''$GPGGA*00'')])"
    by code_simp+
  have i: "gps_pending gps_init = []" "m_enabled gps_init" by (simp_all add: gps_pending_def gps_init_def)
  have len: "length ?bs \<le> 255" by simp
  let ?w = "sim_world [] ?bs"
  have wf: "world_wf ?w" and q: "rx_quiet HAL_UART1 ?w" and rx: "rx_list HAL_UART1 ?w = ?bs"
    using len by (simp_all only: sim_world_wf sim_world_quiet sim_world_rx list.size)
  from gps_tick_refines [OF wf gps_init_wf i(2)] obtain bs acc w' where
    d0: "?bs @ acc = bs @ rx_list HAL_UART1 w'" "rx_quiet HAL_UART1 ?w \<longrightarrow> acc = []" and d: "length bs < 256 \<longrightarrow> rx_list HAL_UART1 w' = []"
      "let (is, rest) = assemble 99 [] bs in items_safe line_safe is \<longrightarrow> (\<exists>g'. gps_schedIn_handler gps_init ?w = Some (g', w')
         \<and> gps_wf g' \<and> gps_pending g' = rest \<and> gps_core g' = gps_core (fold (item_effect line_spec gps_overrun) is gps_init))"
    unfolding i(1) rx by blast
  have e: "?bs = bs @ rx_list HAL_UART1 w'" using d0 q by simp
  then have "length bs \<le> length ?bs" by (metis le_add1 length_append)
  then have "bs = ?bs" using e d(1) len by simp
  with d(2) a have "\<exists>g'. gps_schedIn_handler gps_init ?w = Some (g', w') \<and> gps_pending g' = ascii ''$GP''
      \<and> gps_core g' = gps_core (fold (item_effect line_spec gps_overrun) [Line (ascii ''$GPGSV,1''), Line (ascii ''$GPGGA*00'')] gps_init)"
    using s by (simp only: Let_def prod.case) auto
  then show ?thesis unfolding spec by blast
qed

text \<open>
  C29: Over every stream of bytes, \<open>FixAcquired\<close> and \<open>FixLost\<close> alternate, beginning with
  \<open>FixAcquired\<close> iff there was no fix before, and \<open>m_lastFixQuality\<close> is positive exactly when
  the last of them was \<open>FixAcquired\<close>.
\<close>

theorem fix_events_alternate:
  assumes "foldM gps_byte bs g = Some g'"
  shows "\<exists>new. gps_out g' = gps_out g @ new
    \<and> fix_run (m_lastFixQuality g > 0) new = Some (m_lastFixQuality g' > 0)"
  using fix_step_stream [OF assms] by (simp add: fix_step_def)

lemma fix_events_alternate_witness:
  "\<exists>g' new. foldM gps_byte (fx_line fx_sample @ [13, 10]) gps_init = Some g' \<and> gps_out g' = new
    \<and> fix_run False new = Some (m_lastFixQuality g' > 0)"
proof -
  have i: "m_lineLen gps_init = 0" "m_lastFixQuality gps_init = 0" "gps_out gps_init = []"
    by (simp_all add: gps_init_def)
  have len: "length (fx_line fx_sample) \<le> 99" using fx_sample_ok(2) by simp
  obtain g' where g': "foldM gps_byte (fx_line fx_sample @ [13, 10]) gps_init = Some g'"
    using gps_frame_fix [OF fx_sample_ok(1) len gps_init_wf i(1)] by blast
  from fix_events_alternate [OF g'] g' i show ?thesis by auto
qed

text \<open>A sentence with a correct checksum whose latitude does not fit 32 bits stops the parser.\<close>

lemma long_latitude:
  assumes "csv 15 L ! 2 = D @ M @ 46 # F" "digits D" "1 \<le> length D" "length D \<le> 13" "digits M" "length M = 2"
  shows "parseDegMin (Some (csv 15 L ! 2 @ [0])) h
    = (if degmin_value D M (takeWhile is_digit F) < 2 ^ 31 then Some (True, hemi_sign h * degmin_value D M (takeWhile is_digit F)) else None)"
proof -
  obtain c rest where F: "F @ [0] = takeWhile is_digit F @ c # rest" "c = 0 \<or> \<not> is_digit c"
    by (rule digit_span [of F]) (metis, metis append.assoc append_Cons)
  have "D @ M @ 46 # F @ [0] = D @ M @ 46 # takeWhile is_digit F @ c # rest" by (simp only: F(1))
  with parseDegMin_range [OF assms(2-6) digits_takeWhile F(2), of F rest h] assms(1) show ?thesis by simp
qed

lemma processLine_overflow:
  assumes "m_lineBuf g = L @ r" "r \<noteq> []" "m_lineLen g = length L" "length (gps_scratch g) = 100"
    and "length L \<le> 99" "0 \<notin> set L" "gga_header L" "checksum_ok L" "10 \<le> length (csv 15 L)"
    and "\<And>h. parseDegMin (Some (csv 15 L ! 2 @ [0])) h = None"
  shows "processLine g = None"
proof -
  let ?b = "L @ 0 # tl r"
  have wr: "wr (m_lineBuf g) (m_lineLen g) 0 = Some ?b"
    using assms(1-3) by (cases r) (simp_all add: wr_def list_update_append)
  have valid: "verifyChecksum ?b (length L) = Some True"
    using verifyChecksum_spec [of "length L" ?b] assms(8) by simp
  obtain sc where "parseGGA (g\<lparr>m_lineBuf := ?b\<rparr>) ?b = gga_eval (g\<lparr>m_lineBuf := ?b, gps_scratch := sc\<rparr>) (csv 15 L)"
    by (rule parseGGA_csv [OF assms(6,5), of "g\<lparr>m_lineBuf := ?b\<rparr>" "tl r"]) (use assms(4) in auto)
  moreover have "\<not> length (csv 15 L) < 10" using assms(9) by simp
  ultimately have "parseGGA (g\<lparr>m_lineBuf := ?b\<rparr>) ?b = None"
    using assms(10) by (simp add: gga_eval_def Let_def)
  with wr valid assms(3,7) show ?thesis by (simp add: processLine_def is_gga_line)
qed


definition overflow_line :: bytes where
  "overflow_line = nmea_frame (ascii ''GPGGA,120000,214800.00,N,00000.00,E,1,08,1.0,5.0,M,,M,,'')"


text \<open>
  \<open>GPS_RESET\<close> empties the UART1 ring (not UART0's), drops the partial line and forgets the fix
  without an event; \<open>GPS_SET_ENABLED(false)\<close> stops the component from touching the hardware at all.
\<close>

theorem gps_commands:
  "world_wf w \<Longrightarrow>
    (\<exists>w'. GPS_RESET_cmdHandler op seq g w
        = Some (g\<lparr>m_lineLen := 0, m_lastFixQuality := 0, gps_out := gps_out g @ [GpsCmdOK op seq]\<rparr>, w')
      \<and> rx_list HAL_UART1 w' = [] \<and> rx_list HAL_UART0 w' = rx_list HAL_UART0 w @ rx_arriving HAL_UART0 w \<and> later w w')
    \<and> gps_schedIn_handler (GPS_SET_ENABLED_cmdHandler op seq False g) w
        = Some (g\<lparr>m_enabled := False, gps_out := gps_out g @ [GpsCmdOK op seq]\<rparr>, w)"
  using hal_uart_rx_flush_spec [of w HAL_UART1]
  by (auto simp: GPS_RESET_cmdHandler_def GPS_SET_ENABLED_cmdHandler_def gps_schedIn_handler_def gps_emit_def)

lemma gps_commands_witness:
  "\<exists>g' w'. GPS_RESET_cmdHandler 1 2 (gps_init\<lparr>m_lineLen := 7\<rparr>) (sim_world [65] [66]) = Some (g', w')
    \<and> m_lineLen g' = 0 \<and> rx_list HAL_UART1 w' = [] \<and> rx_list HAL_UART0 w' = [65] @ rx_arriving HAL_UART0 (sim_world [65] [66])"
  using gps_commands [of "sim_world [65] [66]" 1 2 "gps_init\<lparr>m_lineLen := 7\<rparr>"] by auto

end
