(* ===== verification/RingConc.thy ===== *)
theory RingConc
  imports RingBuf "HOL-Library.Sublist"
begin

text \<open>
  The ring buffer of \<open>hal/rp2040_uart.c\<close> under interrupts. \<open>RingBuf\<close> runs every operation without
  interruption; on the target the receive interrupt may run between any two accesses of
  \<open>uart_getc_nb\<close>, \<open>uart_rx_available\<close> or \<open>uart_rx_flush\<close> to the shared indices, while the interrupt handler itself is not
  preempted by the task (one core, no critical section in the code). Here the task-side operations
  are cut at their accesses to \<open>head\<close>, \<open>tail\<close> and \<open>buf\<close>, and the interrupt may occur at every cut.
\<close>

text \<open>Where the task is: the value its local variable \<open>head\<close> or the loaded byte has.\<close>

datatype task_pc =
    Idle
  | GetHead u32
  | GetByte u8
  | FlushHead u32
  | AvailHead u32 nat

record ring_run =
  rr_rb :: ringbuf
  rr_pc :: task_pc
  rr_accepted :: bytes
  rr_taken :: bytes
  rr_results :: "(int \<times> u8) list"
  rr_counts :: "(u32 \<times> nat \<times> nat) list"

text \<open>The bytes from the tail up to the index \<open>h\<close>.\<close>

definition rb_upto :: "u32 \<Rightarrow> ringbuf \<Rightarrow> bytes" where
  "rb_upto h rb = take ((unat h + 256 - unat (rb_tail rb)) mod 256) (rb_list rb)"

text \<open>
  \<open>rr_accepted\<close> and \<open>rr_taken\<close> record the bytes the interrupt stored and those the task returned or
  flushed; \<open>rr_results\<close> the return code and byte of every completed \<open>uart_getc_nb\<close>; \<open>rr_counts\<close> the result of
  every completed \<open>uart_rx_available\<close> with the number of bytes in the ring when it loaded \<open>head\<close> and when it
  returned. Which of the two indices \<open>uart_rx_available\<close> loads first is left open by C; nothing but the
  task changes \<open>tail\<close>, so only the time of the load of \<open>head\<close> matters.
\<close>

inductive ring_step :: "ring_run \<Rightarrow> ring_run \<Rightarrow> bool" where
  isr: "rx_push b (rr_rb s) = Some rb \<Longrightarrow>
    ring_step s (s\<lparr>rr_rb := rb, rr_accepted := rr_accepted s @ (if rb_head rb = rb_head (rr_rb s) then [] else [b])\<rparr>)"
| get_load: "rr_pc s = Idle \<Longrightarrow> ring_step s (s\<lparr>rr_pc := GetHead (rb_head (rr_rb s))\<rparr>)"
| get_empty: "rr_pc s = GetHead h \<Longrightarrow> rb_tail (rr_rb s) = h \<Longrightarrow>
    ring_step s (s\<lparr>rr_pc := Idle, rr_results := rr_results s @ [(HAL_ERR_EMPTY, 0)]\<rparr>)"
| get_read: "rr_pc s = GetHead h \<Longrightarrow> rb_tail (rr_rb s) \<noteq> h \<Longrightarrow>
    rd (rb_buf (rr_rb s)) (unat (rb_tail (rr_rb s))) = Some b \<Longrightarrow> ring_step s (s\<lparr>rr_pc := GetByte b\<rparr>)"
| get_commit: "rr_pc s = GetByte b \<Longrightarrow>
    ring_step s (s\<lparr>rr_pc := Idle, rr_rb := (rr_rb s)\<lparr>rb_tail := (rb_tail (rr_rb s) + 1) AND RING_MASK\<rparr>,
      rr_taken := rr_taken s @ [b], rr_results := rr_results s @ [(HAL_OK, b)]\<rparr>)"
| flush_load: "rr_pc s = Idle \<Longrightarrow> ring_step s (s\<lparr>rr_pc := FlushHead (rb_head (rr_rb s))\<rparr>)"
| flush_store: "rr_pc s = FlushHead h \<Longrightarrow>
    ring_step s (s\<lparr>rr_pc := Idle, rr_rb := (rr_rb s)\<lparr>rb_tail := h\<rparr>, rr_taken := rr_taken s @ rb_upto h (rr_rb s)\<rparr>)"
| avail_load: "rr_pc s = Idle \<Longrightarrow> ring_step s (s\<lparr>rr_pc := AvailHead (rb_head (rr_rb s)) (rb_count (rr_rb s))\<rparr>)"
| avail_return: "rr_pc s = AvailHead h n \<Longrightarrow>
    ring_step s (s\<lparr>rr_pc := Idle,
      rr_counts := rr_counts s @ [((h - rb_tail (rr_rb s)) AND RING_MASK, n, rb_count (rr_rb s))]\<rparr>)"

inductive_cases ring_stepE: "ring_step s s'"

definition ring_start :: ring_run where
  "ring_start = \<lparr>rr_rb = rb_load [], rr_pc = Idle, rr_accepted = [], rr_taken = [], rr_results = [], rr_counts = []\<rparr>"

inductive ring_reachable :: "ring_run \<Rightarrow> bool" where
  start: "ring_reachable ring_start"
| step: "ring_reachable s \<Longrightarrow> ring_step s s' \<Longrightarrow> ring_reachable s'"

subsection \<open>The invariant\<close>

text \<open>An index loaded from \<open>head\<close> earlier still lies between the tail and the head.\<close>

definition old_head :: "u32 \<Rightarrow> ringbuf \<Rightarrow> bool" where
  "old_head h rb \<longleftrightarrow> h < 256 \<and> (unat h + 256 - unat (rb_tail rb)) mod 256 \<le> rb_count rb"

definition pc_ok :: "task_pc \<Rightarrow> ringbuf \<Rightarrow> bool" where
  "pc_ok pc rb =
     (case pc of
        Idle \<Rightarrow> True
      | GetHead h \<Rightarrow> old_head h rb
      | GetByte b \<Rightarrow> (\<exists>bs. rb_list rb = b # bs)
      | FlushHead h \<Rightarrow> old_head h rb
      | AvailHead h n \<Rightarrow> old_head h rb \<and> n = (unat h + 256 - unat (rb_tail rb)) mod 256)"

text \<open>The bytes \<open>uart_getc_nb\<close> has returned.\<close>

definition got_bytes :: "ring_run \<Rightarrow> bytes" where
  "got_bytes s = map snd (filter (\<lambda>r. fst r = HAL_OK) (rr_results s))"

lemma got_bytes_same: "rr_results s' = rr_results s \<Longrightarrow> got_bytes s' = got_bytes s"
  by (simp add: got_bytes_def)

lemma got_bytes_snoc:
  "rr_results s' = rr_results s @ [(rc, b)] \<Longrightarrow> got_bytes s' = got_bytes s @ (if rc = HAL_OK then [b] else [])"
  by (simp add: got_bytes_def)

definition ring_inv :: "ring_run \<Rightarrow> bool" where
  "ring_inv s \<longleftrightarrow> rb_wf (rr_rb s) \<and> rr_accepted s = rr_taken s @ rb_list (rr_rb s) \<and> pc_ok (rr_pc s) (rr_rb s)
     \<and> subseq (got_bytes s) (rr_taken s) \<and> (\<forall>(r, n, m) \<in> set (rr_counts s). unat r = n \<and> n \<le> m)"

lemma old_head_now: "rb_wf rb \<Longrightarrow> old_head (rb_head rb) rb"
  by (simp add: old_head_def rb_count_def rb_wf_def)

lemma rx_push_cases:
  assumes "rb_wf rb"
  obtains (full) "rx_push b rb = Some rb" | (room) rb' where "rx_push b rb = Some rb'" "rb_wf rb'"
      "rb_list rb' = rb_list rb @ [b]" "rb_tail rb' = rb_tail rb" "rb_head rb' \<noteq> rb_head rb"
proof (cases "rb_count rb < 255")
  case True
  then obtain rb' where r: "rx_push b rb = Some rb'" "rb_wf rb'" "rb_list rb' = rb_list rb @ [b]"
    by (rule rx_push_room [OF assms])
  have t: "rb_tail rb' = rb_tail rb" using r(1) by (auto simp: rx_push_def Let_def split: if_splits bind_splits)
  have "rb_head rb' \<noteq> rb_head rb"
  proof
    assume "rb_head rb' = rb_head rb"
    with t have "rb_count rb' = rb_count rb" by (simp add: rb_count_def)
    with arg_cong [OF r(3), of length] show False by simp
  qed
  with r t room show ?thesis by blast
next
  case False
  then have "rb_count rb = 255" using rb_count_less [of rb] by linarith
  with assms full show ?thesis by (simp add: rx_push_full)
qed

lemma old_head_mono:
  "old_head h rb \<Longrightarrow> rb_tail rb' = rb_tail rb \<Longrightarrow> rb_count rb \<le> rb_count rb' \<Longrightarrow> old_head h rb'"
  by (simp add: old_head_def)

lemma rb_list_hd:
  assumes "rb_wf rb" "rb_list rb = b # bs"
  shows "rd (rb_buf rb) (unat (rb_tail rb)) = Some b
    \<and> rb_wf (rb\<lparr>rb_tail := (rb_tail rb + 1) AND RING_MASK\<rparr>) \<and> rb_list (rb\<lparr>rb_tail := (rb_tail rb + 1) AND RING_MASK\<rparr>) = bs"
proof -
  obtain rb' where r: "uart_getc_nb rb (Some 0) = Some (HAL_OK, Some b, rb')" "rb_wf rb'" "rb_list rb' = bs"
    by (rule uart_getc_nb_cons [OF assms, of 0])
  then show ?thesis
    by (auto simp: uart_getc_nb_def Let_def Option.bind_eq_Some_conv split: if_splits)
qed

lemma old_head_empty:
  assumes "rb_wf rb" "old_head h rb" "rb_list rb = []"
  shows "rb_tail rb = h"
proof -
  have "(unat h + 256 - unat (rb_tail rb)) mod 256 = 0"
    using assms(2) arg_cong [OF assms(3), of length] by (simp add: old_head_def)
  moreover have "unat h < 256" "unat (rb_tail rb) < 256"
    using assms(1,2) by (simp_all add: old_head_def rb_wf_def unat_less_256)
  ultimately have "unat h = unat (rb_tail rb)" by (auto simp: mod_if split: if_splits)
  then show ?thesis by (simp add: word_unat_eq_iff)
qed

lemma ring_diff: "a < 256 \<Longrightarrow> b < 256 \<Longrightarrow> (a + 256 - b) mod 256 = (if b \<le> a then a - b else a + 256 - b)" for a b :: nat
  by (auto simp: mod_if)

lemma ring_diff_sub:
  assumes "h < 256" "t < 256" "H < 256" "(h + 256 - t) mod 256 \<le> (H + 256 - t) mod 256"
  shows "(H + 256 - h) mod 256 = (H + 256 - t) mod 256 - (h + 256 - t) mod (256::nat)"
  using assms by (simp add: ring_diff split: if_splits)

lemma flush_to_old_head:
  assumes "rb_wf rb" "old_head h rb"
  shows "rb_wf (rb\<lparr>rb_tail := h\<rparr>) \<and> rb_list rb = rb_upto h rb @ rb_list (rb\<lparr>rb_tail := h\<rparr>)"
proof
  show wf: "rb_wf (rb\<lparr>rb_tail := h\<rparr>)" using assms by (simp add: rb_wf_def old_head_def)
  let ?t = "unat (rb_tail rb)" and ?k = "(unat h + 256 - unat (rb_tail rb)) mod 256" and ?H = "unat (rb_head rb)"
  have b: "unat h < 256" "?t < 256" "?H < 256" using assms by (simp_all add: old_head_def rb_wf_def unat_less_256)
  have k: "?k \<le> rb_count rb" using assms(2) by (simp add: old_head_def)
  have h: "(?t + ?k) mod 256 = unat h" using b by (auto simp: mod_if)
  have c: "rb_count (rb\<lparr>rb_tail := h\<rparr>) = rb_count rb - ?k"
    using ring_diff_sub [OF b(1,2,3)] k by (simp add: rb_count_def)
  have "rb_list (rb\<lparr>rb_tail := h\<rparr>) = drop ?k (rb_list rb)"
  proof (rule nth_equalityI)
    show "length (rb_list (rb\<lparr>rb_tail := h\<rparr>)) = length (drop ?k (rb_list rb))" using c by simp
    fix i
    assume i: "i < length (rb_list (rb\<lparr>rb_tail := h\<rparr>))"
    then have i': "i < rb_count rb - ?k" using c by simp
    have "(unat h + i) mod 256 = (?t + (?k + i)) mod 256"
      by (metis h add.assoc mod_add_left_eq)
    moreover have "?k + i < rb_count rb" using i' by linarith
    then have "rb_list rb ! (?k + i) = rb_buf rb ! ((?t + (?k + i)) mod 256)"
      by (simp add: rb_list_def)
    ultimately show "rb_list (rb\<lparr>rb_tail := h\<rparr>) ! i = drop ?k (rb_list rb) ! i"
      using i k by (simp add: rb_list_def [of "rb\<lparr>rb_tail := h\<rparr>"])
  qed
  then show "rb_list rb = rb_upto h rb @ rb_list (rb\<lparr>rb_tail := h\<rparr>)" by (simp add: rb_upto_def)
qed

lemma ring_inv_step: "ring_inv s \<Longrightarrow> ring_step s s' \<Longrightarrow> ring_inv s'"
proof -
  assume inv: "ring_inv s" and "ring_step s s'"
  note i = inv [unfolded ring_inv_def]
  have same: "subseq (got_bytes s) (rr_taken s)" and
    more: "subseq (got_bytes s) (rr_taken s @ xs)" "subseq (got_bytes s @ [b]) (rr_taken s @ [b])" for xs b
    using i by (auto intro: subseq_rev_drop_many list_emb_append_mono)
  note got = got_bytes_same [of s' s] got_bytes_snoc [of s' s]
  from \<open>ring_step s s'\<close> show ?thesis
  proof cases
    case (isr b rb)
    show ?thesis
    proof -
      consider (full) "rx_push b (rr_rb s) = Some (rr_rb s)"
        | (room) rb' where "rx_push b (rr_rb s) = Some rb'" "rb_wf rb'" "rb_list rb' = rb_list (rr_rb s) @ [b]"
          "rb_tail rb' = rb_tail (rr_rb s)" "rb_head rb' \<noteq> rb_head (rr_rb s)"
        by (rule rx_push_cases [OF conjunct1 [OF i], of b]) blast+
      then show ?thesis
      proof cases
      case full
      with isr i got show ?thesis by (simp add: ring_inv_def)
    next
      case (room rb')
      then have "rb' = rb" using isr by simp
      moreover have "rb_count (rr_rb s) \<le> rb_count rb'" using arg_cong [OF room(3), of length] by simp
      then have "pc_ok (rr_pc s) rb'"
        using i room old_head_mono [of _ "rr_rb s" rb'] by (auto simp: pc_ok_def split: task_pc.splits)
      ultimately show ?thesis using isr i room got by (simp add: ring_inv_def)
      qed
    qed
  next
    case get_load
    with i got show ?thesis by (simp add: ring_inv_def pc_ok_def old_head_now HAL_OK_def)
  next
    case (get_empty h)
    with i got show ?thesis by (simp add: ring_inv_def pc_ok_def HAL_ERR_EMPTY_def HAL_OK_def)
  next
    case (get_read h b)
    with i have "rb_list (rr_rb s) \<noteq> []" using old_head_empty [of "rr_rb s" h] by (auto simp: pc_ok_def)
    then obtain c cs where l: "rb_list (rr_rb s) = c # cs" by (cases "rb_list (rr_rb s)") auto
    with rb_list_hd [OF conjunct1 [OF i] l] get_read i got show ?thesis by (simp add: ring_inv_def pc_ok_def HAL_ERR_EMPTY_def HAL_OK_def)
  next
    case (get_commit b)
    then obtain bs where l: "rb_list (rr_rb s) = b # bs" using i by (auto simp: pc_ok_def)
    with rb_list_hd [OF conjunct1 [OF i] l] get_commit i got more(2) show ?thesis by (simp add: ring_inv_def pc_ok_def HAL_ERR_EMPTY_def HAL_OK_def)
  next
    case flush_load
    with i got show ?thesis by (simp add: ring_inv_def pc_ok_def old_head_now HAL_OK_def)
  next
    case (flush_store h)
    then have "old_head h (rr_rb s)" using i by (simp add: pc_ok_def)
    with flush_to_old_head [of "rr_rb s" h] flush_store i got more(1) show ?thesis by (simp add: ring_inv_def pc_ok_def HAL_ERR_EMPTY_def HAL_OK_def)
  next
    case avail_load
    with i got show ?thesis by (simp add: ring_inv_def pc_ok_def old_head_now rb_count_def)
  next
    case (avail_return h n)
    then have "old_head h (rr_rb s)" "n = (unat h + 256 - unat (rb_tail (rr_rb s))) mod 256" using i by (simp_all add: pc_ok_def)
    moreover from this have "unat ((h - rb_tail (rr_rb s)) AND RING_MASK) = n"
      using i unat_diff_RING [of h "rb_tail (rr_rb s)"] by (simp add: old_head_def rb_wf_def)
    ultimately show ?thesis using avail_return i got by (simp add: ring_inv_def pc_ok_def old_head_def)
  qed
qed

lemma ring_reachable_inv: "ring_reachable s \<Longrightarrow> ring_inv s"
proof (induction rule: ring_reachable.induct)
  case start
  then show ?case using rb_load_list [of "[]"] by (simp add: ring_inv_def ring_start_def pc_ok_def got_bytes_def)
next
  case (step s s')
  then show ?case by (blast intro: ring_inv_step)
qed

subsection \<open>Properties\<close>

text \<open>Run without interruption, the steps of the task are \<open>uart_getc_nb\<close>.\<close>

lemma getc_uninterrupted:
  assumes "rr_pc s = Idle" "uart_getc_nb (rr_rb s) (Some 0) = Some (rc, Some b, rb)"
  shows "ring_step\<^sup>*\<^sup>* s \<lparr>rr_rb = rb, rr_pc = Idle, rr_accepted = rr_accepted s,
    rr_taken = rr_taken s @ (if rc = HAL_OK then [b] else []), rr_results = rr_results s @ [(rc, b)],
    rr_counts = rr_counts s\<rparr>"
    (is "ring_step\<^sup>*\<^sup>* s ?u")
proof (cases "rb_tail (rr_rb s) = rb_head (rr_rb s)")
  case True
  let ?s = "s\<lparr>rr_pc := GetHead (rb_head (rr_rb s))\<rparr>"
  have r: "rc = HAL_ERR_EMPTY" "b = 0" "rb = rr_rb s"
    using assms(2) True by (simp_all add: uart_getc_nb_def Let_def)
  have 1: "ring_step s ?s" by (rule get_load [OF assms(1)])
  have "ring_step ?s (?s\<lparr>rr_pc := Idle, rr_results := rr_results ?s @ [(HAL_ERR_EMPTY, 0)]\<rparr>)"
    by (rule get_empty) (use True in simp_all)
  also have "?s\<lparr>rr_pc := Idle, rr_results := rr_results ?s @ [(HAL_ERR_EMPTY, 0)]\<rparr> = ?u"
    by (simp add: r HAL_ERR_EMPTY_def HAL_OK_def)
  finally show ?thesis using 1 by (meson converse_rtranclp_into_rtranclp r_into_rtranclp)
next
  case False
  let ?s = "s\<lparr>rr_pc := GetHead (rb_head (rr_rb s))\<rparr>" and ?t = "s\<lparr>rr_pc := GetByte b\<rparr>"
  have g: "rd (rb_buf (rr_rb s)) (unat (rb_tail (rr_rb s))) = Some b" "rc = HAL_OK"
    "rb = (rr_rb s)\<lparr>rb_tail := (rb_tail (rr_rb s) + 1) AND RING_MASK\<rparr>"
    using assms(2) False by (auto simp: uart_getc_nb_def Let_def Option.bind_eq_Some_conv)
  have 1: "ring_step s ?s" by (rule get_load [OF assms(1)])
  have "ring_step ?s (?s\<lparr>rr_pc := GetByte b\<rparr>)" by (rule get_read) (use False g in simp_all)
  then have 2: "ring_step ?s ?t" by simp
  have "ring_step ?t (?t\<lparr>rr_pc := Idle, rr_rb := (rr_rb ?t)\<lparr>rb_tail := (rb_tail (rr_rb ?t) + 1) AND RING_MASK\<rparr>,
      rr_taken := rr_taken ?t @ [b], rr_results := rr_results ?t @ [(HAL_OK, b)]\<rparr>)"
    by (rule get_commit) simp
  then have "ring_step ?t ?u" by (cases s) (simp add: g)
  with 1 2 show ?thesis by (meson converse_rtranclp_into_rtranclp r_into_rtranclp)
qed

text \<open>
  C3: Interrupts at any point of \<open>uart_getc_nb\<close>, \<open>uart_rx_available\<close> or \<open>uart_rx_flush\<close>, in any number, lose, duplicate,
  corrupt or reorder nothing: the bytes the interrupt stored are always the bytes the task has taken
  followed by the contents of the ring, the bytes returned are among those taken and in their order,
  the indices stay inside the buffer, and a count reported as available is the number of bytes that
  were waiting during the call and never more than are there afterwards. No critical section is needed.
\<close>

theorem ring_interrupt_safe:
  assumes "ring_reachable s"
  shows "rr_accepted s = rr_taken s @ rb_list (rr_rb s) \<and> subseq (got_bytes s) (rr_taken s)
    \<and> rb_head (rr_rb s) < 256 \<and> rb_tail (rr_rb s) < 256 \<and> length (rb_buf (rr_rb s)) = 256
    \<and> length (rb_list (rr_rb s)) \<le> 255
    \<and> (\<forall>(r, before, after) \<in> set (rr_counts s). unat r = before \<and> before \<le> after)"
  using ring_reachable_inv [OF assms] rb_count_less [of "rr_rb s"]
  by (simp add: ring_inv_def rb_wf_def del: rb_count_less)

text \<open>The same for \<open>uart_rx_available\<close>.\<close>

lemma available_uninterrupted:
  assumes "rr_pc s = Idle"
  shows "ring_step\<^sup>*\<^sup>* s (s\<lparr>rr_counts := rr_counts s @ [(uart_rx_available (rr_rb s), rb_count (rr_rb s), rb_count (rr_rb s))]\<rparr>)"
proof -
  let ?s = "s\<lparr>rr_pc := AvailHead (rb_head (rr_rb s)) (rb_count (rr_rb s))\<rparr>"
  have 1: "ring_step s ?s" by (rule avail_load [OF assms])
  have "ring_step ?s (?s\<lparr>rr_pc := Idle, rr_counts := rr_counts ?s
      @ [((rb_head (rr_rb s) - rb_tail (rr_rb ?s)) AND RING_MASK, rb_count (rr_rb s), rb_count (rr_rb ?s))]\<rparr>)"
    by (rule avail_return) simp
  then have "ring_step ?s (s\<lparr>rr_counts := rr_counts s @ [(uart_rx_available (rr_rb s), rb_count (rr_rb s), rb_count (rr_rb s))]\<rparr>)"
    using assms by (cases s) (simp add: uart_rx_available_def)
  with 1 show ?thesis by (meson converse_rtranclp_into_rtranclp r_into_rtranclp)
qed

text \<open>A run in which the interrupt comes between the two accesses to the tail.\<close>

lemma ring_run_example: "\<exists>s. ring_reachable s \<and> got_bytes s = [65] \<and> rr_accepted s = [65, 66]"
proof -
  have wf0: "rb_wf (rb_load [])" "rb_count (rb_load []) < 255" "rb_list (rb_load []) = []"
    using rb_load_list [of "[]"] by (simp_all add: rb_count_def rb_load_def)
  obtain r1 where r1: "rx_push 65 (rb_load []) = Some r1" "rb_wf r1" "rb_list r1 = [65]" "rb_head r1 \<noteq> rb_head (rb_load [])"
    using rx_push_cases [OF wf0(1), of 65] rx_push_room [OF wf0(1,2), of 65] wf0(3) by (metis append_Nil list.discI option.inject)
  have c1: "rb_count r1 < 255" using arg_cong [OF r1(3), of length] by simp
  have h1: "rb_tail r1 \<noteq> rb_head r1" using rb_list_eq_Nil [OF r1(2)] r1(3) by simp
  obtain r2 where r2: "rx_push 66 r1 = Some r2" "rb_wf r2" "rb_list r2 = [65, 66]" "rb_head r2 \<noteq> rb_head r1" "rb_tail r2 = rb_tail r1"
    using rx_push_cases [OF r1(2), of 66] rx_push_room [OF r1(2) c1, of 66] r1(3)
    by (metis append_Cons append_Nil list.discI list.inject option.inject)
  let ?s1 = "ring_start\<lparr>rr_rb := r1, rr_accepted := [65]\<rparr>"
  have "ring_step ring_start ?s1"
    using ring_step.isr [of 65 ring_start r1] r1(1,4) by (simp add: ring_start_def)
  then have s1: "ring_reachable ?s1" by (rule ring_reachable.step [OF ring_reachable.start])
  let ?s2 = "?s1\<lparr>rr_pc := GetHead (rb_head r1)\<rparr>"
  have "ring_step ?s1 ?s2" using get_load [of ?s1] by (simp add: ring_start_def)
  with s1 have s2: "ring_reachable ?s2" by (rule ring_reachable.step)
  let ?s3 = "?s2\<lparr>rr_pc := GetByte 65\<rparr>"
  have "ring_step ?s2 ?s3" using get_read [of ?s2 "rb_head r1" 65] h1 rb_list_hd [OF r1(2,3)] by simp
  with s2 have s3: "ring_reachable ?s3" by (rule ring_reachable.step)
  let ?s4 = "?s3\<lparr>rr_rb := r2, rr_accepted := [65, 66]\<rparr>"
  have "ring_step ?s3 ?s4" using ring_step.isr [of 66 ?s3 r2] r2(1,4) by simp
  with s3 have s4: "ring_reachable ?s4" by (rule ring_reachable.step)
  let ?s5 = "?s4\<lparr>rr_pc := Idle, rr_rb := r2\<lparr>rb_tail := (rb_tail r2 + 1) AND RING_MASK\<rparr>, rr_taken := rr_taken ?s4 @ [65],
    rr_results := rr_results ?s4 @ [(HAL_OK, 65)]\<rparr>"
  have "ring_step ?s4 ?s5" using get_commit [of ?s4 65] by simp
  with s4 have "ring_reachable ?s5" by (rule ring_reachable.step)
  moreover have "got_bytes ?s5 = [65]" "rr_accepted ?s5 = [65, 66]" by (simp_all add: got_bytes_def ring_start_def)
  ultimately show ?thesis by blast
qed

lemma ring_interrupt_safe_witness:
  "\<exists>s. ring_reachable s \<and> got_bytes s = [65] \<and> [65, 66] = rr_taken s @ rb_list (rr_rb s)"
proof -
  obtain s where s: "ring_reachable s" "got_bytes s = [65]" "rr_accepted s = [65, 66]" using ring_run_example by blast
  with ring_interrupt_safe [OF s(1)] show ?thesis by auto
qed

end
