(* ===== verification/AtomicMem.thy ===== *)
theory AtomicMem
  imports Prelude
begin

text \<open>
  The atomic runtime \<open>Os/atomic.c\<close>: the \<open>__atomic_*\<close> helpers GCC calls for 1-, 2- and 4-byte
  \<open>std::atomic\<close> operations, made atomic by masking interrupts with PRIMASK on the single core.

  The state is PRIMASK and a byte-addressed little-endian memory. Interrupts are a parameter:
  \<open>isr n m\<close> is what the handlers pending before the \<open>n\<close>-th instruction of interest do to the memory,
  and they run there iff PRIMASK is clear, so at any point the mask leaves open. An access that is not
  aligned faults: it is \<open>None\<close>. \<open>atomically\<close> is the specification: the operation as one step. The
  locale \<open>atomic_cell\<close> holds the laws of one access width and the lemmas the operations of that width
  share; it is interpreted for the three widths.
\<close>

type_synonym mem = "u32 \<Rightarrow> u8"
type_synonym isr = "nat \<Rightarrow> mem \<Rightarrow> mem"

record cpu =
  c_primask :: bool
  c_mem :: mem
  c_step :: nat

definition step_irq :: "isr \<Rightarrow> cpu \<Rightarrow> cpu" where
  "step_irq isr s = s\<lparr>c_mem := (if c_primask s then c_mem s else isr (c_step s) (c_mem s)), c_step := Suc (c_step s)\<rparr>"

text \<open>\<open>mrs pm, PRIMASK\<close> and \<open>cpsid i\<close>: an interrupt may come before either.\<close>

definition primask_save_disable :: "isr \<Rightarrow> cpu \<Rightarrow> u32 \<times> cpu" where
  "primask_save_disable isr s =
     (let s1 = step_irq isr s;
          pm = (if c_primask s1 then 1 else 0);
          s2 = step_irq isr s1
      in (pm, s2\<lparr>c_primask := True\<rparr>))"

definition primask_restore :: "isr \<Rightarrow> u32 \<Rightarrow> cpu \<Rightarrow> cpu" where
  "primask_restore isr pm s = (step_irq isr s)\<lparr>c_primask := bit pm 0\<rparr>"

subsection \<open>Memory accesses\<close>

definition get8 :: "mem \<Rightarrow> u32 \<Rightarrow> u8" where
  "get8 m p = m p"

definition put8 :: "mem \<Rightarrow> u32 \<Rightarrow> u8 \<Rightarrow> mem" where
  "put8 m p v = m(p := v)"

definition get16 :: "mem \<Rightarrow> u32 \<Rightarrow> u16" where
  "get16 m p = ucast (m p) OR push_bit 8 (ucast (m (p + 1)))"

definition put16 :: "mem \<Rightarrow> u32 \<Rightarrow> u16 \<Rightarrow> mem" where
  "put16 m p v = m(p := ucast v, p + 1 := ucast (drop_bit 8 v))"

definition get32 :: "mem \<Rightarrow> u32 \<Rightarrow> u32" where
  "get32 m p = ucast (get16 m p) OR push_bit 16 (ucast (get16 m (p + 2)))"

definition put32 :: "mem \<Rightarrow> u32 \<Rightarrow> u32 \<Rightarrow> mem" where
  "put32 m p v = put16 (put16 m p (ucast v)) (p + 2) (ucast (drop_bit 16 v))"

definition aligned :: "nat \<Rightarrow> u32 \<Rightarrow> bool" where
  "aligned n p \<longleftrightarrow> unat p mod n = 0"

definition load8 :: "isr \<Rightarrow> u32 \<Rightarrow> cpu \<Rightarrow> (u8 \<times> cpu) option" where
  "load8 isr p s = (let s1 = step_irq isr s in Some (get8 (c_mem s1) p, s1))"

definition store8 :: "isr \<Rightarrow> u32 \<Rightarrow> u8 \<Rightarrow> cpu \<Rightarrow> cpu option" where
  "store8 isr p v s = (let s1 = step_irq isr s in Some (s1\<lparr>c_mem := put8 (c_mem s1) p v\<rparr>))"

definition load16 :: "isr \<Rightarrow> u32 \<Rightarrow> cpu \<Rightarrow> (u16 \<times> cpu) option" where
  "load16 isr p s = (if aligned 2 p then let s1 = step_irq isr s in Some (get16 (c_mem s1) p, s1) else None)"

definition store16 :: "isr \<Rightarrow> u32 \<Rightarrow> u16 \<Rightarrow> cpu \<Rightarrow> cpu option" where
  "store16 isr p v s =
     (if aligned 2 p then let s1 = step_irq isr s in Some (s1\<lparr>c_mem := put16 (c_mem s1) p v\<rparr>) else None)"

definition load32 :: "isr \<Rightarrow> u32 \<Rightarrow> cpu \<Rightarrow> (u32 \<times> cpu) option" where
  "load32 isr p s = (if aligned 4 p then let s1 = step_irq isr s in Some (get32 (c_mem s1) p, s1) else None)"

definition store32 :: "isr \<Rightarrow> u32 \<Rightarrow> u32 \<Rightarrow> cpu \<Rightarrow> cpu option" where
  "store32 isr p v s =
     (if aligned 4 p then let s1 = step_irq isr s in Some (s1\<lparr>c_mem := put32 (c_mem s1) p v\<rparr>) else None)"

subsection \<open>1-byte operations\<close>

definition atomic_load_1 :: "isr \<Rightarrow> u32 \<Rightarrow> int \<Rightarrow> cpu \<Rightarrow> (u8 \<times> cpu) option" where
  "atomic_load_1 isr p m s = do {
     let (pm, s) = primask_save_disable isr s;
     (v, s) \<leftarrow> load8 isr p s;
     Some (v, primask_restore isr pm s) }"

definition atomic_store_1 :: "isr \<Rightarrow> u32 \<Rightarrow> u8 \<Rightarrow> int \<Rightarrow> cpu \<Rightarrow> cpu option" where
  "atomic_store_1 isr p v m s = do {
     let (pm, s) = primask_save_disable isr s;
     s \<leftarrow> store8 isr p v s;
     Some (primask_restore isr pm s) }"

definition atomic_exchange_1 :: "isr \<Rightarrow> u32 \<Rightarrow> u8 \<Rightarrow> int \<Rightarrow> cpu \<Rightarrow> (u8 \<times> cpu) option" where
  "atomic_exchange_1 isr p v m s = do {
     let (pm, s) = primask_save_disable isr s;
     (old, s) \<leftarrow> load8 isr p s;
     s \<leftarrow> store8 isr p v s;
     Some (old, primask_restore isr pm s) }"

definition atomic_compare_exchange_1 ::
  "isr \<Rightarrow> u32 \<Rightarrow> u32 \<Rightarrow> u8 \<Rightarrow> bool \<Rightarrow> int \<Rightarrow> int \<Rightarrow> cpu \<Rightarrow> (bool \<times> cpu) option" where
  "atomic_compare_exchange_1 isr p exp des weak sm fm s = do {
     let (pm, s) = primask_save_disable isr s;
     (cur, s) \<leftarrow> load8 isr p s;
     (e, s) \<leftarrow> load8 isr exp s;
     let ok = (cur = e);
     s \<leftarrow> (if ok then store8 isr p des s else store8 isr exp cur s);
     Some (ok, primask_restore isr pm s) }"

definition atomic_fetch_add_1 :: "isr \<Rightarrow> u32 \<Rightarrow> u8 \<Rightarrow> int \<Rightarrow> cpu \<Rightarrow> (u8 \<times> cpu) option" where
  "atomic_fetch_add_1 isr p v m s = do {
     let (pm, s) = primask_save_disable isr s;
     (old, s) \<leftarrow> load8 isr p s;
     s \<leftarrow> store8 isr p (old + v) s;
     Some (old, primask_restore isr pm s) }"

definition atomic_fetch_sub_1 :: "isr \<Rightarrow> u32 \<Rightarrow> u8 \<Rightarrow> int \<Rightarrow> cpu \<Rightarrow> (u8 \<times> cpu) option" where
  "atomic_fetch_sub_1 isr p v m s = do {
     let (pm, s) = primask_save_disable isr s;
     (old, s) \<leftarrow> load8 isr p s;
     s \<leftarrow> store8 isr p (old - v) s;
     Some (old, primask_restore isr pm s) }"

definition atomic_fetch_and_1 :: "isr \<Rightarrow> u32 \<Rightarrow> u8 \<Rightarrow> int \<Rightarrow> cpu \<Rightarrow> (u8 \<times> cpu) option" where
  "atomic_fetch_and_1 isr p v m s = do {
     let (pm, s) = primask_save_disable isr s;
     (old, s) \<leftarrow> load8 isr p s;
     s \<leftarrow> store8 isr p (old AND v) s;
     Some (old, primask_restore isr pm s) }"

definition atomic_fetch_or_1 :: "isr \<Rightarrow> u32 \<Rightarrow> u8 \<Rightarrow> int \<Rightarrow> cpu \<Rightarrow> (u8 \<times> cpu) option" where
  "atomic_fetch_or_1 isr p v m s = do {
     let (pm, s) = primask_save_disable isr s;
     (old, s) \<leftarrow> load8 isr p s;
     s \<leftarrow> store8 isr p (old OR v) s;
     Some (old, primask_restore isr pm s) }"

subsection \<open>2-byte operations\<close>

definition atomic_load_2 :: "isr \<Rightarrow> u32 \<Rightarrow> int \<Rightarrow> cpu \<Rightarrow> (u16 \<times> cpu) option" where
  "atomic_load_2 isr p m s = do {
     let (pm, s) = primask_save_disable isr s;
     (v, s) \<leftarrow> load16 isr p s;
     Some (v, primask_restore isr pm s) }"

definition atomic_store_2 :: "isr \<Rightarrow> u32 \<Rightarrow> u16 \<Rightarrow> int \<Rightarrow> cpu \<Rightarrow> cpu option" where
  "atomic_store_2 isr p v m s = do {
     let (pm, s) = primask_save_disable isr s;
     s \<leftarrow> store16 isr p v s;
     Some (primask_restore isr pm s) }"

definition atomic_exchange_2 :: "isr \<Rightarrow> u32 \<Rightarrow> u16 \<Rightarrow> int \<Rightarrow> cpu \<Rightarrow> (u16 \<times> cpu) option" where
  "atomic_exchange_2 isr p v m s = do {
     let (pm, s) = primask_save_disable isr s;
     (old, s) \<leftarrow> load16 isr p s;
     s \<leftarrow> store16 isr p v s;
     Some (old, primask_restore isr pm s) }"

definition atomic_compare_exchange_2 ::
  "isr \<Rightarrow> u32 \<Rightarrow> u32 \<Rightarrow> u16 \<Rightarrow> bool \<Rightarrow> int \<Rightarrow> int \<Rightarrow> cpu \<Rightarrow> (bool \<times> cpu) option" where
  "atomic_compare_exchange_2 isr p exp des weak sm fm s = do {
     let (pm, s) = primask_save_disable isr s;
     (cur, s) \<leftarrow> load16 isr p s;
     (e, s) \<leftarrow> load16 isr exp s;
     let ok = (cur = e);
     s \<leftarrow> (if ok then store16 isr p des s else store16 isr exp cur s);
     Some (ok, primask_restore isr pm s) }"

definition atomic_fetch_add_2 :: "isr \<Rightarrow> u32 \<Rightarrow> u16 \<Rightarrow> int \<Rightarrow> cpu \<Rightarrow> (u16 \<times> cpu) option" where
  "atomic_fetch_add_2 isr p v m s = do {
     let (pm, s) = primask_save_disable isr s;
     (old, s) \<leftarrow> load16 isr p s;
     s \<leftarrow> store16 isr p (old + v) s;
     Some (old, primask_restore isr pm s) }"

definition atomic_fetch_sub_2 :: "isr \<Rightarrow> u32 \<Rightarrow> u16 \<Rightarrow> int \<Rightarrow> cpu \<Rightarrow> (u16 \<times> cpu) option" where
  "atomic_fetch_sub_2 isr p v m s = do {
     let (pm, s) = primask_save_disable isr s;
     (old, s) \<leftarrow> load16 isr p s;
     s \<leftarrow> store16 isr p (old - v) s;
     Some (old, primask_restore isr pm s) }"

definition atomic_fetch_and_2 :: "isr \<Rightarrow> u32 \<Rightarrow> u16 \<Rightarrow> int \<Rightarrow> cpu \<Rightarrow> (u16 \<times> cpu) option" where
  "atomic_fetch_and_2 isr p v m s = do {
     let (pm, s) = primask_save_disable isr s;
     (old, s) \<leftarrow> load16 isr p s;
     s \<leftarrow> store16 isr p (old AND v) s;
     Some (old, primask_restore isr pm s) }"

definition atomic_fetch_or_2 :: "isr \<Rightarrow> u32 \<Rightarrow> u16 \<Rightarrow> int \<Rightarrow> cpu \<Rightarrow> (u16 \<times> cpu) option" where
  "atomic_fetch_or_2 isr p v m s = do {
     let (pm, s) = primask_save_disable isr s;
     (old, s) \<leftarrow> load16 isr p s;
     s \<leftarrow> store16 isr p (old OR v) s;
     Some (old, primask_restore isr pm s) }"

subsection \<open>4-byte operations\<close>

definition atomic_load_4 :: "isr \<Rightarrow> u32 \<Rightarrow> int \<Rightarrow> cpu \<Rightarrow> (u32 \<times> cpu) option" where
  "atomic_load_4 isr p m s = do {
     let (pm, s) = primask_save_disable isr s;
     (v, s) \<leftarrow> load32 isr p s;
     Some (v, primask_restore isr pm s) }"

definition atomic_store_4 :: "isr \<Rightarrow> u32 \<Rightarrow> u32 \<Rightarrow> int \<Rightarrow> cpu \<Rightarrow> cpu option" where
  "atomic_store_4 isr p v m s = do {
     let (pm, s) = primask_save_disable isr s;
     s \<leftarrow> store32 isr p v s;
     Some (primask_restore isr pm s) }"

definition atomic_exchange_4 :: "isr \<Rightarrow> u32 \<Rightarrow> u32 \<Rightarrow> int \<Rightarrow> cpu \<Rightarrow> (u32 \<times> cpu) option" where
  "atomic_exchange_4 isr p v m s = do {
     let (pm, s) = primask_save_disable isr s;
     (old, s) \<leftarrow> load32 isr p s;
     s \<leftarrow> store32 isr p v s;
     Some (old, primask_restore isr pm s) }"

definition atomic_compare_exchange_4 ::
  "isr \<Rightarrow> u32 \<Rightarrow> u32 \<Rightarrow> u32 \<Rightarrow> bool \<Rightarrow> int \<Rightarrow> int \<Rightarrow> cpu \<Rightarrow> (bool \<times> cpu) option" where
  "atomic_compare_exchange_4 isr p exp des weak sm fm s = do {
     let (pm, s) = primask_save_disable isr s;
     (cur, s) \<leftarrow> load32 isr p s;
     (e, s) \<leftarrow> load32 isr exp s;
     let ok = (cur = e);
     s \<leftarrow> (if ok then store32 isr p des s else store32 isr exp cur s);
     Some (ok, primask_restore isr pm s) }"

definition atomic_fetch_add_4 :: "isr \<Rightarrow> u32 \<Rightarrow> u32 \<Rightarrow> int \<Rightarrow> cpu \<Rightarrow> (u32 \<times> cpu) option" where
  "atomic_fetch_add_4 isr p v m s = do {
     let (pm, s) = primask_save_disable isr s;
     (old, s) \<leftarrow> load32 isr p s;
     s \<leftarrow> store32 isr p (old + v) s;
     Some (old, primask_restore isr pm s) }"

definition atomic_fetch_sub_4 :: "isr \<Rightarrow> u32 \<Rightarrow> u32 \<Rightarrow> int \<Rightarrow> cpu \<Rightarrow> (u32 \<times> cpu) option" where
  "atomic_fetch_sub_4 isr p v m s = do {
     let (pm, s) = primask_save_disable isr s;
     (old, s) \<leftarrow> load32 isr p s;
     s \<leftarrow> store32 isr p (old - v) s;
     Some (old, primask_restore isr pm s) }"

definition atomic_fetch_and_4 :: "isr \<Rightarrow> u32 \<Rightarrow> u32 \<Rightarrow> int \<Rightarrow> cpu \<Rightarrow> (u32 \<times> cpu) option" where
  "atomic_fetch_and_4 isr p v m s = do {
     let (pm, s) = primask_save_disable isr s;
     (old, s) \<leftarrow> load32 isr p s;
     s \<leftarrow> store32 isr p (old AND v) s;
     Some (old, primask_restore isr pm s) }"

definition atomic_fetch_or_4 :: "isr \<Rightarrow> u32 \<Rightarrow> u32 \<Rightarrow> int \<Rightarrow> cpu \<Rightarrow> (u32 \<times> cpu) option" where
  "atomic_fetch_or_4 isr p v m s = do {
     let (pm, s) = primask_save_disable isr s;
     (old, s) \<leftarrow> load32 isr p s;
     s \<leftarrow> store32 isr p (old OR v) s;
     Some (old, primask_restore isr pm s) }"

subsection \<open>Aligned cells\<close>

lemma aligned_offset:
  assumes "aligned n p" "n dvd 4294967296" "k < n"
  shows "unat (p + of_nat k) = unat p + k"
proof -
  have "unat p < 4294967296" using unsigned_less [of p] by simp
  moreover have "n dvd unat p" using assms(1) by (simp add: aligned_def dvd_eq_mod_eq_0)
  moreover obtain c where c: "4294967296 = n * c" using assms(2) by (rule dvdE)
  ultimately obtain d where d: "unat p = n * d" "n * d < n * c" by (metis dvdE)
  then have "n * Suc d \<le> n * c" by (metis Suc_leI mult_le_mono2 mult_less_cancel1)
  then have "unat p + k < 4294967296" using d c assms(3) by simp
  then show ?thesis by (simp add: unat_word_ariths unat_of_nat)
qed

lemma aligned_disjoint:
  assumes "aligned n p" "aligned n q" "p \<noteq> q" "n dvd 4294967296" "j < n" "k < n"
  shows "p + of_nat j \<noteq> q + of_nat k"
proof
  assume "p + of_nat j = q + of_nat k"
  then have "unat p + j = unat q + k" using assms by (metis aligned_offset)
  moreover obtain d e where "unat p = n * d" "unat q = n * e"
    using assms(1,2) by (auto simp: aligned_def mod_eq_0_iff_dvd elim!: dvdE)
  moreover have "(n * d + j) div n = d" "(n * e + k) div n = e"
    using assms(5,6) by (simp_all add: div_mult_self2)
  ultimately have "unat p = unat q" by metis
  with assms(3) show False by (simp add: word_unat_eq_iff)
qed

lemmas aligned2 = aligned_disjoint [where n = 2, of _ _ 0 0, simplified] aligned_disjoint [where n = 2, of _ _ 0 1, simplified]
  aligned_disjoint [where n = 2, of _ _ 1 0, simplified] aligned_disjoint [where n = 2, of _ _ 1 1, simplified]

lemma get16_put16: "get16 (put16 m p v) p = v"
proof (rule bit_word_eqI)
  show "bit (get16 (put16 m p v) p) n \<longleftrightarrow> bit v n" if "n < LENGTH(16)" for n
    using that by (cases "n < 8") (auto simp: get16_def put16_def bit_simps not_less le_iff_add)
qed

lemma get16_put16_other: "aligned 2 p \<Longrightarrow> aligned 2 q \<Longrightarrow> p \<noteq> q \<Longrightarrow> get16 (put16 m p v) q = get16 m q"
  using aligned2 [of p q] by (auto simp: get16_def put16_def)

lemma aligned4: "aligned 4 p \<Longrightarrow> aligned 2 p \<and> aligned 2 (p + 2)"
  using aligned_offset [of 4 p 2] by (auto simp: aligned_def mod_eq_0_iff_dvd dest: dvd_trans [of 2 4])

lemma get32_put32: "aligned 4 p \<Longrightarrow> get32 (put32 m p v) p = v"
proof (rule bit_word_eqI)
  assume "aligned 4 p"
  then have "get16 (put16 (put16 m p a) (p + 2) b) p = a" for a b
    using aligned4 [of p] by (simp add: get16_put16_other get16_put16)
  then show "bit (get32 (put32 m p v) p) n \<longleftrightarrow> bit v n" if "n < LENGTH(32)" for n
    using that by (cases "n < 16") (auto simp: get32_def put32_def get16_put16 bit_simps not_less le_iff_add)
qed

lemma get32_put32_other:
  assumes "aligned 4 p" "aligned 4 q" "p \<noteq> q"
  shows "get32 (put32 m p v) q = get32 m q"
proof -
  have "p + 2 \<noteq> q" "p \<noteq> q + 2" "p + 2 \<noteq> q + 2"
    using aligned_disjoint [OF assms, of 2 0] aligned_disjoint [OF assms, of 0 2] assms(3) by simp_all
  then show ?thesis
    using aligned4 [OF assms(1)] aligned4 [OF assms(2)] assms(3)
    by (simp add: get32_def put32_def get16_put16_other)
qed

subsection \<open>One access width: what the operations share\<close>

text \<open>
  The specification: the interrupts that come before the mask takes effect, then the operation \<open>f\<close>
  on the memory as one step, PRIMASK as it was; \<open>k\<close> counts the masked instructions.
\<close>

definition atomically :: "isr \<Rightarrow> (mem \<Rightarrow> 'r \<times> mem) \<Rightarrow> nat \<Rightarrow> cpu \<Rightarrow> 'r \<times> cpu" where
  "atomically isr f k s =
     (let s1 = step_irq isr (step_irq isr s); (r, m) = f (c_mem s1)
      in (r, s1\<lparr>c_mem := m, c_step := c_step s1 + k\<rparr>))"

locale atomic_cell =
  fixes get :: "mem \<Rightarrow> u32 \<Rightarrow> 'w::len word"
    and put :: "mem \<Rightarrow> u32 \<Rightarrow> 'w word \<Rightarrow> mem"
    and ld :: "isr \<Rightarrow> u32 \<Rightarrow> cpu \<Rightarrow> ('w word \<times> cpu) option"
    and st :: "isr \<Rightarrow> u32 \<Rightarrow> 'w word \<Rightarrow> cpu \<Rightarrow> cpu option"
    and fits :: "u32 \<Rightarrow> bool"
  assumes get_put: "fits p \<Longrightarrow> get (put m p v) p = v"
    and get_put_other: "fits p \<Longrightarrow> fits q \<Longrightarrow> p \<noteq> q \<Longrightarrow> get (put m p v) q = get m q"
    and ld: "ld isr p s = (if fits p then Some (get (c_mem (step_irq isr s)) p, step_irq isr s) else None)"
    and st: "st isr p v s =
      (if fits p then Some ((step_irq isr s)\<lparr>c_mem := put (c_mem (step_irq isr s)) p v\<rparr>) else None)"
begin

lemma load_atomic:
  "(do { let (pm, s) = primask_save_disable isr s; (v, s) \<leftarrow> ld isr p s; Some (v, primask_restore isr pm s) })
   = (if fits p then Some (atomically isr (\<lambda>m. (get m p, m)) 2 s) else None)"
  by (cases "c_primask s")
    (simp_all add: primask_save_disable_def primask_restore_def atomically_def ld step_irq_def Let_def)

lemma store_atomic:
  "(do { let (pm, s) = primask_save_disable isr s; s \<leftarrow> st isr p v s; Some (primask_restore isr pm s) })
   = (if fits p then Some (snd (atomically isr (\<lambda>m. ((), put m p v)) 2 s)) else None)"
  by (cases "c_primask s")
    (simp_all add: primask_save_disable_def primask_restore_def atomically_def st step_irq_def Let_def)

lemma rmw_atomic:
  "(do { let (pm, s) = primask_save_disable isr s; (old, s) \<leftarrow> ld isr p s; s \<leftarrow> st isr p (f old) s;
         Some (old, primask_restore isr pm s) })
   = (if fits p then Some (atomically isr (\<lambda>m. (get m p, put m p (f (get m p)))) 3 s) else None)"
  by (cases "c_primask s")
    (simp_all add: primask_save_disable_def primask_restore_def atomically_def ld st step_irq_def Let_def)

lemma cas_atomic:
  "(do { let (pm, s) = primask_save_disable isr s; (cur, s) \<leftarrow> ld isr p s; (e, s) \<leftarrow> ld isr q s;
         let ok = (cur = e); s \<leftarrow> (if ok then st isr p des s else st isr q cur s);
         Some (ok, primask_restore isr pm s) })
   = (if fits p \<and> fits q
      then Some (atomically isr (\<lambda>m. if get m p = get m q then (True, put m p des) else (False, put m q (get m p))) 4 s)
      else None)"
  by (cases "c_primask s")
    (simp_all add: primask_save_disable_def primask_restore_def atomically_def ld st step_irq_def Let_def)

text \<open>
  Additions by the task, each atomic, and additions by the interrupts to the same cell: none is lost.
\<close>

lemma counter:
  assumes "fits p" "\<And>n m. get (isr n m) p = get m p + k n" "\<not> c_primask s"
    and add: "\<And>v s. add v s = (if fits p then Some (atomically isr (\<lambda>m. (get m p, put m p (get m p + v))) 3 s) else None)"
  shows "\<exists>s'. foldM (\<lambda>v s. map_option snd (add v s)) vs s = Some s' \<and> \<not> c_primask s'
    \<and> get (c_mem s') p = get (c_mem s) p + sum_list vs
        + (\<Sum>i<length vs. k (c_step s + 5 * i) + k (c_step s + 5 * i + 1))"
  using assms(3)
proof (induction vs arbitrary: s)
  case Nil
  then show ?case by simp
next
  case (Cons v vs)
  let ?s = "snd (atomically isr (\<lambda>m. (get m p, put m p (get m p + v))) 3 s)"
  have s: "\<not> c_primask ?s" "c_step ?s = c_step s + 5"
    "get (c_mem ?s) p = get (c_mem s) p + v + (k (c_step s) + k (c_step s + 1))"
    using Cons.prems by (simp_all add: atomically_def step_irq_def Let_def assms(1,2) get_put)
  from Cons.IH [OF s(1)] obtain s' where s': "foldM (\<lambda>v s. map_option snd (add v s)) vs ?s = Some s'" "\<not> c_primask s'"
    "get (c_mem s') p = get (c_mem ?s) p + sum_list vs
        + (\<Sum>i<length vs. k (c_step ?s + 5 * i) + k (c_step ?s + 5 * i + 1))" by blast
  have "(\<Sum>i<length (v # vs). k (c_step s + 5 * i) + k (c_step s + 5 * i + 1))
      = k (c_step s) + k (c_step s + 1) + (\<Sum>i<length vs. k (c_step ?s + 5 * i) + k (c_step ?s + 5 * i + 1))"
    unfolding length_Cons sum.lessThan_Suc_shift s(2) by (simp add: ac_simps)
  then show ?case using s' s assms(1) by (simp add: add algebra_simps)
qed

end

interpretation cell1: atomic_cell get8 put8 load8 store8 "\<lambda>_. True"
  by unfold_locales (auto simp: get8_def put8_def load8_def store8_def Let_def)

interpretation cell2: atomic_cell get16 put16 load16 store16 "aligned 2"
  by unfold_locales (auto simp: get16_put16 get16_put16_other load16_def store16_def Let_def)

interpretation cell4: atomic_cell get32 put32 load32 store32 "aligned 4"
  by unfold_locales (auto simp: get32_put32 get32_put32_other load32_def store32_def Let_def)

subsection \<open>The operations as atomic steps\<close>

text \<open>What an operation does: the value it returns and the memory it leaves. A store returns nothing; here its argument.\<close>

datatype aop = Load | Store | Exchange | FetchAdd | FetchSub | FetchAnd | FetchOr

fun aop_value :: "aop \<Rightarrow> 'w::len word \<Rightarrow> 'w word \<Rightarrow> 'w word" where
  "aop_value Load old v = old"
| "aop_value Store old v = v"
| "aop_value Exchange old v = v"
| "aop_value FetchAdd old v = old + v"
| "aop_value FetchSub old v = old - v"
| "aop_value FetchAnd old v = (old AND v)"
| "aop_value FetchOr old v = (old OR v)"

definition aop_effect ::
  "(mem \<Rightarrow> u32 \<Rightarrow> 'w::len word) \<Rightarrow> (mem \<Rightarrow> u32 \<Rightarrow> 'w word \<Rightarrow> mem) \<Rightarrow> aop \<Rightarrow> u32 \<Rightarrow> 'w word \<Rightarrow> mem \<Rightarrow> 'w word \<times> mem" where
  "aop_effect get put op p v m =
     (if op = Store then v else get m p, if op = Load then m else put m p (aop_value op (get m p) v))"

definition aop_instrs :: "aop \<Rightarrow> nat" where
  "aop_instrs op = (if op = Load \<or> op = Store then 2 else 3)"

fun run_aop_1 :: "isr \<Rightarrow> aop \<Rightarrow> u32 \<Rightarrow> u8 \<Rightarrow> int \<Rightarrow> cpu \<Rightarrow> (u8 \<times> cpu) option" where
  "run_aop_1 isr Load p v m s = atomic_load_1 isr p m s"
| "run_aop_1 isr Store p v m s = map_option (\<lambda>s. (v, s)) (atomic_store_1 isr p v m s)"
| "run_aop_1 isr Exchange p v m s = atomic_exchange_1 isr p v m s"
| "run_aop_1 isr FetchAdd p v m s = atomic_fetch_add_1 isr p v m s"
| "run_aop_1 isr FetchSub p v m s = atomic_fetch_sub_1 isr p v m s"
| "run_aop_1 isr FetchAnd p v m s = atomic_fetch_and_1 isr p v m s"
| "run_aop_1 isr FetchOr p v m s = atomic_fetch_or_1 isr p v m s"

fun run_aop_2 :: "isr \<Rightarrow> aop \<Rightarrow> u32 \<Rightarrow> u16 \<Rightarrow> int \<Rightarrow> cpu \<Rightarrow> (u16 \<times> cpu) option" where
  "run_aop_2 isr Load p v m s = atomic_load_2 isr p m s"
| "run_aop_2 isr Store p v m s = map_option (\<lambda>s. (v, s)) (atomic_store_2 isr p v m s)"
| "run_aop_2 isr Exchange p v m s = atomic_exchange_2 isr p v m s"
| "run_aop_2 isr FetchAdd p v m s = atomic_fetch_add_2 isr p v m s"
| "run_aop_2 isr FetchSub p v m s = atomic_fetch_sub_2 isr p v m s"
| "run_aop_2 isr FetchAnd p v m s = atomic_fetch_and_2 isr p v m s"
| "run_aop_2 isr FetchOr p v m s = atomic_fetch_or_2 isr p v m s"

fun run_aop_4 :: "isr \<Rightarrow> aop \<Rightarrow> u32 \<Rightarrow> u32 \<Rightarrow> int \<Rightarrow> cpu \<Rightarrow> (u32 \<times> cpu) option" where
  "run_aop_4 isr Load p v m s = atomic_load_4 isr p m s"
| "run_aop_4 isr Store p v m s = map_option (\<lambda>s. (v, s)) (atomic_store_4 isr p v m s)"
| "run_aop_4 isr Exchange p v m s = atomic_exchange_4 isr p v m s"
| "run_aop_4 isr FetchAdd p v m s = atomic_fetch_add_4 isr p v m s"
| "run_aop_4 isr FetchSub p v m s = atomic_fetch_sub_4 isr p v m s"
| "run_aop_4 isr FetchAnd p v m s = atomic_fetch_and_4 isr p v m s"
| "run_aop_4 isr FetchOr p v m s = atomic_fetch_or_4 isr p v m s"

lemma run_aop_1_atomic:
  "run_aop_1 isr op p v m s = (if True then Some (atomically isr (aop_effect get8 put8 op p v) (aop_instrs op) s) else None)"
  by (cases op)
    (simp_all only: run_aop_1.simps atomic_load_1_def atomic_store_1_def atomic_exchange_1_def atomic_fetch_add_1_def
      atomic_fetch_sub_1_def atomic_fetch_and_1_def atomic_fetch_or_1_def cell1.load_atomic cell1.store_atomic
      cell1.rmw_atomic, simp_all add: aop_effect_def [abs_def] aop_instrs_def atomically_def Let_def)

lemma run_aop_2_atomic:
  "run_aop_2 isr op p v m s = (if aligned 2 p then Some (atomically isr (aop_effect get16 put16 op p v) (aop_instrs op) s) else None)"
  by (cases op)
    (simp_all only: run_aop_2.simps atomic_load_2_def atomic_store_2_def atomic_exchange_2_def atomic_fetch_add_2_def
      atomic_fetch_sub_2_def atomic_fetch_and_2_def atomic_fetch_or_2_def cell2.load_atomic cell2.store_atomic
      cell2.rmw_atomic, simp_all add: aop_effect_def [abs_def] aop_instrs_def atomically_def Let_def)

lemma run_aop_4_atomic:
  "run_aop_4 isr op p v m s = (if aligned 4 p then Some (atomically isr (aop_effect get32 put32 op p v) (aop_instrs op) s) else None)"
  by (cases op)
    (simp_all only: run_aop_4.simps atomic_load_4_def atomic_store_4_def atomic_exchange_4_def atomic_fetch_add_4_def
      atomic_fetch_sub_4_def atomic_fetch_and_4_def atomic_fetch_or_4_def cell4.load_atomic cell4.store_atomic
      cell4.rmw_atomic, simp_all add: aop_effect_def [abs_def] aop_instrs_def atomically_def Let_def)

text \<open>
  C25: Every load, store, exchange and fetch operation of every width behaves as one atomic step:
  interrupts, whatever they do to memory, come before its masked section or after it, the value
  returned and the memory left are those of the operation, arithmetic wraps at the width, and
  PRIMASK is restored, so an operation called with interrupts disabled leaves them disabled. A
  misaligned access faults.
\<close>

theorem atomic_operations:
  "run_aop_1 isr op p v1 m s = Some (atomically isr (aop_effect get8 put8 op p v1) (aop_instrs op) s)
    \<and> run_aop_2 isr op p v2 m s
      = (if aligned 2 p then Some (atomically isr (aop_effect get16 put16 op p v2) (aop_instrs op) s) else None)
    \<and> run_aop_4 isr op p v4 m s
      = (if aligned 4 p then Some (atomically isr (aop_effect get32 put32 op p v4) (aop_instrs op) s) else None)"
  by (simp add: run_aop_1_atomic run_aop_2_atomic run_aop_4_atomic)

definition cas_effect ::
  "(mem \<Rightarrow> u32 \<Rightarrow> 'w::len word) \<Rightarrow> (mem \<Rightarrow> u32 \<Rightarrow> 'w word \<Rightarrow> mem) \<Rightarrow> u32 \<Rightarrow> u32 \<Rightarrow> 'w word \<Rightarrow> mem \<Rightarrow> bool \<times> mem" where
  "cas_effect get put p e des m = (if get m p = get m e then (True, put m p des) else (False, put m e (get m p)))"

text \<open>
  Compare-and-exchange of every width is one atomic step too: it stores the desired value iff the
  cell holds the expected one, and otherwise copies the cell's value to the expected location. It
  is strong: \<open>weak\<close> and the memory orders make no difference, and it never fails spuriously.
\<close>

theorem atomic_compare_exchange:
  "atomic_compare_exchange_1 isr p e d1 weak sm fm s = Some (atomically isr (cas_effect get8 put8 p e d1) 4 s)
    \<and> atomic_compare_exchange_2 isr p e d2 weak sm fm s
      = (if aligned 2 p \<and> aligned 2 e then Some (atomically isr (cas_effect get16 put16 p e d2) 4 s) else None)
    \<and> atomic_compare_exchange_4 isr p e d4 weak sm fm s
      = (if aligned 4 p \<and> aligned 4 e then Some (atomically isr (cas_effect get32 put32 p e d4) 4 s) else None)"
  unfolding atomic_compare_exchange_1_def atomic_compare_exchange_2_def atomic_compare_exchange_4_def
    cell1.cas_atomic cell2.cas_atomic cell4.cas_atomic cas_effect_def [abs_def] by simp

text \<open>
  No update is lost: when the task adds \<open>vs\<close> to a 4-byte counter with \<open>__atomic_fetch_add_4\<close>
  and the interrupts add to the same counter, at whatever points they come, the counter ends with
  its old value plus everything both have added, modulo \<open>2^32\<close>.
\<close>

theorem atomic_counter:
  assumes "aligned 4 p" "\<forall>n m. get32 (isr n m) p = get32 m p + k n" "\<not> c_primask s"
  shows "\<exists>s'. foldM (\<lambda>v s. map_option snd (atomic_fetch_add_4 isr p v mo s)) vs s = Some s' \<and> \<not> c_primask s'
    \<and> get32 (c_mem s') p = get32 (c_mem s) p + sum_list vs
        + (\<Sum>i<length vs. k (c_step s + 5 * i) + k (c_step s + 5 * i + 1))"
  using assms
  by (intro cell4.counter) (simp_all only: atomic_fetch_add_4_def cell4.rmw_atomic simp_thms)

lemma atomic_counter_witness:
  "\<exists>s'. foldM (\<lambda>v s. map_option snd (atomic_fetch_add_4 (\<lambda>n m. put32 m 8 (get32 m 8 + of_nat n)) 8 v 0 s)) [5, 7]
      \<lparr>c_primask = False, c_mem = (\<lambda>_. 0), c_step = 0\<rparr> = Some s' \<and> get32 (c_mem s') 8 = 12 + (0 + 1 + 5 + 6)"
proof -
  let ?isr = "\<lambda>n m. put32 m 8 (get32 m 8 + of_nat n)" and ?s = "\<lparr>c_primask = False, c_mem = (\<lambda>_. 0), c_step = 0\<rparr>"
  have a: "aligned 4 8" and z: "get32 (\<lambda>_. 0) 8 = 0" by (simp_all add: aligned_def get32_def get16_def)
  have "\<exists>s'. foldM (\<lambda>v s. map_option snd (atomic_fetch_add_4 ?isr 8 v 0 s)) [5, 7] ?s = Some s' \<and> \<not> c_primask s'
      \<and> get32 (c_mem s') 8 = get32 (c_mem ?s) 8 + sum_list [5, 7]
        + (\<Sum>i<length [5, 7 :: u32]. of_nat (c_step ?s + 5 * i) + of_nat (c_step ?s + 5 * i + 1))"
    by (rule atomic_counter) (simp_all add: a get32_put32)
  then show ?thesis by (auto simp: z numeral_2_eq_2 simp del: foldM.simps)
qed

end
