(* ===== verification/OsTask.thy ===== *)
theory OsTask
  imports Prelude
begin

text \<open>
  \<open>Os/Baremetal/Mutex.cpp\<close>, \<open>Task.cpp\<close> and \<open>File.cpp\<close>: the interrupt-masking mutex, the cooperative
  task table and the file stubs. A failed \<open>FW_ASSERT\<close> is the result \<open>AssertFailed\<close>; the state beside
  it is the state at the assertion. \<open>irq_mask\<close> is what \<open>save_and_disable_interrupts\<close> of the pico-sdk
  returns: PRIMASK, 1 when interrupts are masked. The routine of a task is a parameter.
\<close>

datatype 'a os_ret = AssertFailed | Ret 'a

subsection \<open>Interrupt masking\<close>

record irq_state =
  irq_mask :: u32

definition save_and_disable_interrupts :: "'m irq_state_scheme \<Rightarrow> u32 \<times> 'm irq_state_scheme" where
  "save_and_disable_interrupts s = (irq_mask s, s\<lparr>irq_mask := 1\<rparr>)"

definition restore_interrupts :: "u32 \<Rightarrow> 'm irq_state_scheme \<Rightarrow> 'm irq_state_scheme" where
  "restore_interrupts irq s = s\<lparr>irq_mask := irq\<rparr>"

subsection \<open>\<open>Os::Mutex\<close>\<close>

record mutex_state = irq_state +
  s_saved_irq :: u32
  s_lock_depth :: u32

definition mutex_init :: "u32 \<Rightarrow> mutex_state" where
  "mutex_init irq = \<lparr>irq_mask = irq, s_saved_irq = 0, s_lock_depth = 0\<rparr>"

definition Mutex_lock :: "'m mutex_state_scheme \<Rightarrow> unit os_ret \<times> 'm mutex_state_scheme" where
  "Mutex_lock s =
     (let s1 = (if s_lock_depth s = 0
                then let (irq, s') = save_and_disable_interrupts s in s'\<lparr>s_saved_irq := irq\<rparr>
                else s);
          s2 = s1\<lparr>s_lock_depth := s_lock_depth s1 + 1\<rparr>
      in if s_lock_depth s2 < 32 then (Ret (), s2) else (AssertFailed, s2))"

definition Mutex_unLock :: "'m mutex_state_scheme \<Rightarrow> unit os_ret \<times> 'm mutex_state_scheme" where
  "Mutex_unLock s =
     (if s_lock_depth s > 0
      then let s1 = s\<lparr>s_lock_depth := s_lock_depth s - 1\<rparr>
           in (Ret (), if s_lock_depth s1 = 0 then restore_interrupts (s_saved_irq s1) s1 else s1)
      else (AssertFailed, s))"

datatype mutex_call = Lock | UnLock

fun mutex_run :: "mutex_call list \<Rightarrow> 'm mutex_state_scheme \<Rightarrow> unit os_ret \<times> 'm mutex_state_scheme" where
  "mutex_run [] s = (Ret (), s)"
| "mutex_run (c # cs) s =
     (case (case c of Lock \<Rightarrow> Mutex_lock s | UnLock \<Rightarrow> Mutex_unLock s) of
        (AssertFailed, s') \<Rightarrow> (AssertFailed, s')
      | (Ret _, s') \<Rightarrow> mutex_run cs s')"

text \<open>The nesting depth after a sequence of calls; \<open>None\<close> when a lock is the 32nd or an unlock has no lock.\<close>

fun nesting :: "nat \<Rightarrow> mutex_call list \<Rightarrow> nat option" where
  "nesting d [] = Some d"
| "nesting d (Lock # cs) = (if d < 31 then nesting (Suc d) cs else None)"
| "nesting d (UnLock # cs) = (if d > 0 then nesting (d - 1) cs else None)"

text \<open>At depth \<open>d\<close>, entered with the mask \<open>irq\<close>.\<close>

definition mutex_at :: "u32 \<Rightarrow> nat \<Rightarrow> 'm mutex_state_scheme \<Rightarrow> bool" where
  "mutex_at irq d s \<longleftrightarrow> d < 32 \<and> s_lock_depth s = of_nat d
     \<and> irq_mask s = (if d = 0 then irq else 1) \<and> (d > 0 \<longrightarrow> s_saved_irq s = irq)"

lemma depth_eq_0: "d < 32 \<Longrightarrow> (of_nat d :: u32) = 0 \<longleftrightarrow> d = 0"
  by (simp add: word_unat_eq_iff unat_of_nat)

lemma depth_less_32: "d < 32 \<Longrightarrow> (of_nat d + 1 :: u32) < 32 \<longleftrightarrow> Suc d < 32"
  by (simp add: word_less_nat_alt unat_word_ariths unat_of_nat)

lemma Mutex_lock_at:
  assumes "mutex_at irq d s"
  shows "if d < 31 then \<exists>s'. Mutex_lock s = (Ret (), s') \<and> mutex_at irq (Suc d) s'
    else \<exists>s'. Mutex_lock s = (AssertFailed, s')"
  using assms depth_eq_0 [of d] depth_less_32 [of d]
  by (auto simp: mutex_at_def Mutex_lock_def save_and_disable_interrupts_def Let_def add.commute)

lemma Mutex_unLock_at:
  assumes "mutex_at irq d s"
  shows "if d > 0 then \<exists>s'. Mutex_unLock s = (Ret (), s') \<and> mutex_at irq (d - 1) s'
    else Mutex_unLock s = (AssertFailed, s)"
  using assms depth_eq_0 [of d] depth_eq_0 [of "d - 1"]
  by (cases d) (auto simp: mutex_at_def Mutex_unLock_def restore_interrupts_def Let_def word_gt_0)

lemma mutex_run_at:
  "mutex_at irq d s \<Longrightarrow>
    (case nesting d cs of
       None \<Rightarrow> fst (mutex_run cs s) = AssertFailed
     | Some d' \<Rightarrow> fst (mutex_run cs s) = Ret () \<and> mutex_at irq d' (snd (mutex_run cs s)))"
proof (induction d cs arbitrary: s rule: nesting.induct)
  case (1 d)
  then show ?case by simp
next
  case (2 d cs)
  show ?case
  proof (cases "d < 31")
    case True
    with Mutex_lock_at [OF 2(2)] obtain s' where "Mutex_lock s = (Ret (), s')" "mutex_at irq (Suc d) s'" by auto
    with 2(1) [OF True, of s'] True show ?thesis by (simp split: option.splits)
  next
    case False
    with Mutex_lock_at [OF 2(2)] show ?thesis by auto
  qed
next
  case (3 d cs)
  show ?case
  proof (cases "d > 0")
    case True
    with Mutex_unLock_at [OF 3(2)] obtain s' where "Mutex_unLock s = (Ret (), s')" "mutex_at irq (d - 1) s'" by auto
    with 3(1) [OF True, of s'] True show ?thesis by (simp split: option.splits)
  next
    case False
    with Mutex_unLock_at [OF 3(2)] show ?thesis by auto
  qed
qed

text \<open>
  Whatever the sequence of \<open>lock\<close> and \<open>unLock\<close> calls, on any mutexes: an assertion fails exactly
  at the 32nd nested lock or at an unlock without a lock; otherwise interrupts are masked while the
  nesting depth is positive, and once it is back at zero they are as they were before the first lock.
\<close>

theorem mutex_nesting:
  "case nesting 0 cs of
     None \<Rightarrow> fst (mutex_run cs (mutex_init irq)) = AssertFailed
   | Some d \<Rightarrow> fst (mutex_run cs (mutex_init irq)) = Ret ()
       \<and> s_lock_depth (snd (mutex_run cs (mutex_init irq))) = of_nat d
       \<and> irq_mask (snd (mutex_run cs (mutex_init irq))) = (if d = 0 then irq else 1)"
  using mutex_run_at [of irq 0 "mutex_init irq" cs]
  by (simp add: mutex_at_def mutex_init_def split: option.splits)

subsection \<open>\<open>Os::Task\<close>\<close>

datatype task_status = TASK_OK | TASK_UNKNOWN_ERROR

record task_entry =
  te_routine :: u32
  te_arg :: u32
  te_active :: bool

record task_table =
  s_tasks :: "task_entry list"
  s_task_count :: u32

record task_obj =
  tk_handle :: u32
  tk_identifier :: int
  tk_affinity :: int
  tk_started :: bool
  tk_suspendedOnPurpose :: bool

definition MAX_TASKS :: nat where "MAX_TASKS = 8"

definition task_obj_init :: task_obj where
  "task_obj_init = \<lparr>tk_handle = 0, tk_identifier = 0, tk_affinity = - 1, tk_started = False, tk_suspendedOnPurpose = False\<rparr>"

definition Task_start ::
  "u32 \<Rightarrow> u32 \<Rightarrow> task_obj \<Rightarrow> 'w task_table_scheme \<Rightarrow> (task_status os_ret \<times> task_obj \<times> 'w task_table_scheme) option" where
  "Task_start routine arg tk w =
     (if routine = 0 then Some (AssertFailed, tk, w)
      else if s_task_count w \<ge> of_nat MAX_TASKS then Some (Ret TASK_UNKNOWN_ERROR, tk, w)
      else if unat (s_task_count w) < length (s_tasks w) then
        let w1 = w\<lparr>s_tasks := (s_tasks w)[unat (s_task_count w) := \<lparr>te_routine = routine, te_arg = arg, te_active = True\<rparr>]\<rparr>
        in Some (Ret TASK_OK, tk\<lparr>tk_handle := s_task_count w1, tk_started := True\<rparr>, w1\<lparr>s_task_count := s_task_count w1 + 1\<rparr>)
      else None)"

text \<open>
  The loop of \<open>dispatch_all\<close>: \<open>call r a\<close> is the call of the routine \<open>r\<close> with the argument \<open>a\<close>; it may
  start tasks, and the loop reads \<open>s_task_count\<close> again at every turn.
\<close>

function dispatch_from ::
  "(u32 \<Rightarrow> u32 \<Rightarrow> 'w task_table_scheme \<Rightarrow> 'w task_table_scheme option) \<Rightarrow> u32 \<Rightarrow> 'w task_table_scheme \<Rightarrow> 'w task_table_scheme option" where
  "dispatch_from call i w =
     (if i < s_task_count w then
        if unat i < length (s_tasks w) then do {
          let e = s_tasks w ! unat i;
          w1 \<leftarrow> (if te_active e then call (te_routine e) (te_arg e) w else Some w);
          dispatch_from call (i + 1) w1 }
        else None
      else Some w)"
  by pat_completeness auto
termination
proof (relation "measure (\<lambda>(call, i, w). 2 ^ 32 - unat i)")
  fix call :: "u32 \<Rightarrow> u32 \<Rightarrow> 'w task_table_scheme \<Rightarrow> 'w task_table_scheme option"
    and i :: u32 and w w1 :: "'w task_table_scheme"
  assume "i < s_task_count w"
  then have "unat i + 1 < 4294967296" using unat_u32 [of "s_task_count w"] by (simp add: word_less_nat_alt)
  then have "unat (i + 1) = unat i + 1" by (rule unat_u32_succ)
  moreover have "unat i < 2 ^ 32" using unat_u32 [of i] by simp
  ultimately show "((call, i + 1, w1), call, i, w) \<in> measure (\<lambda>(call, i, w). 2 ^ 32 - unat i)" by simp
qed simp

declare dispatch_from.simps [simp del]

definition Task_dispatch_all ::
  "(u32 \<Rightarrow> u32 \<Rightarrow> 'w task_table_scheme \<Rightarrow> 'w task_table_scheme option) \<Rightarrow> 'w task_table_scheme \<Rightarrow> 'w task_table_scheme option" where
  "Task_dispatch_all call w = dispatch_from call 0 w"

text \<open>The status \<open>delay\<close> returns and the milliseconds it passes to \<open>sleep_ms\<close>.\<close>

definition Task_delay :: "u32 \<Rightarrow> task_status \<times> u32" where
  "Task_delay milliseconds = (let ms = (if milliseconds > 1000 then 1000 else milliseconds) in (TASK_OK, ms))"

subsection \<open>Every task runs once per dispatch, in the order of registration\<close>

definition task_list :: "'w task_table_scheme \<Rightarrow> task_entry list" where
  "task_list w = take (unat (s_task_count w)) (s_tasks w)"

definition tasks_wf :: "'w task_table_scheme \<Rightarrow> bool" where
  "tasks_wf w \<longleftrightarrow> length (s_tasks w) = 8 \<and> s_task_count w \<le> 8"

definition task_calls :: "task_entry list \<Rightarrow> (u32 \<times> u32) list" where
  "task_calls es = map (\<lambda>e. (te_routine e, te_arg e)) (filter te_active es)"

lemma tasks_wf_length: "tasks_wf w \<Longrightarrow> length (task_list w) = unat (s_task_count w) \<and> unat (s_task_count w) \<le> 8"
  by (auto simp: tasks_wf_def task_list_def word_le_nat_alt)

lemma Task_start_spec:
  assumes "tasks_wf w"
  shows "\<exists>r tk' w'. Task_start routine arg tk w = Some (r, tk', w') \<and> tasks_wf w'
    \<and> (if routine = 0 then r = AssertFailed \<and> w' = w
       else if length (task_list w) = 8 then r = Ret TASK_UNKNOWN_ERROR \<and> w' = w
       else r = Ret TASK_OK \<and> tk_started tk' \<and> unat (tk_handle tk') = length (task_list w)
         \<and> task_list w' = task_list w @ [\<lparr>te_routine = routine, te_arg = arg, te_active = True\<rparr>])"
proof -
  let ?n = "unat (s_task_count w)"
  have n: "?n \<le> 8" "length (s_tasks w) = 8" "length (task_list w) = ?n"
    using assms tasks_wf_length [OF assms] by (simp_all add: tasks_wf_def)
  have full: "s_task_count w \<ge> of_nat MAX_TASKS \<longleftrightarrow> ?n = 8"
    using n(1) by (auto simp: MAX_TASKS_def word_le_nat_alt)
  have "?n < 8 \<Longrightarrow> unat (s_task_count w + 1) = Suc ?n" using unat_u32_succ [of "s_task_count w"] by simp
  then show ?thesis
    using n full by (auto simp: Task_start_def Let_def tasks_wf_def task_list_def word_le_nat_alt take_Suc_conv_app_nth)
qed

text \<open>
  What the loop needs of a routine: it returns, keeps the table well formed, and at most adds tasks.
  \<open>calls\<close> reads the log of the calls from the rest of the state.
\<close>

definition routine_ok ::
  "(u32 \<Rightarrow> u32 \<Rightarrow> 'w task_table_scheme \<Rightarrow> 'w task_table_scheme option) \<Rightarrow> ('w task_table_scheme \<Rightarrow> (u32 \<times> u32) list) \<Rightarrow> bool" where
  "routine_ok call calls \<longleftrightarrow>
     (\<forall>r a w. tasks_wf w \<longrightarrow>
        (\<exists>w' new. call r a w = Some w' \<and> tasks_wf w' \<and> task_list w' = task_list w @ new \<and> calls w' = calls w @ [(r, a)]))"

lemma task_calls_simps [simp]:
  "task_calls [] = []" "task_calls (xs @ ys) = task_calls xs @ task_calls ys"
  "task_calls [e] = (if te_active e then [(te_routine e, te_arg e)] else [])"
  by (simp_all add: task_calls_def)

lemma dispatch_from_runs:
  assumes "routine_ok call calls" "tasks_wf w" "unat i \<le> length (task_list w)"
    and "calls w = old @ task_calls (take (unat i) (task_list w))"
  shows "\<exists>w' new. dispatch_from call i w = Some w' \<and> tasks_wf w' \<and> task_list w' = task_list w @ new
    \<and> calls w' = old @ task_calls (task_list w')"
  using assms
proof (induction call i w rule: dispatch_from.induct)
  case (1 call i w)
  have wf: "length (task_list w) = unat (s_task_count w)" "unat (s_task_count w) \<le> 8" "length (s_tasks w) = 8"
    using tasks_wf_length [OF 1(3)] 1(3) by (simp_all add: tasks_wf_def)
  show ?case
  proof (cases "i < s_task_count w")
    case False
    with wf 1(4) have "unat i = length (task_list w)" by (simp add: word_less_nat_alt)
    with False 1(3,5) show ?thesis by (subst dispatch_from.simps) (intro exI [of _ w] exI [of _ "[]"], simp)
  next
    case True
    then have i: "unat i < length (task_list w)" "unat i < length (s_tasks w)" "unat (i + 1) = Suc (unat i)"
      using wf unat_u32_succ [of i] by (simp_all add: word_less_nat_alt)
    let ?e = "s_tasks w ! unat i"
    have e: "task_list w ! unat i = ?e" using i by (simp add: task_list_def)
    have "\<exists>w1 new. (if te_active ?e then call (te_routine ?e) (te_arg ?e) w else Some w) = Some w1 \<and> tasks_wf w1
        \<and> task_list w1 = task_list w @ new \<and> calls w1 = calls w @ task_calls [?e]"
    proof (cases "te_active ?e")
      case True
      with 1(2) 1(3) obtain w1 new where "call (te_routine ?e) (te_arg ?e) w = Some w1" "tasks_wf w1"
        "task_list w1 = task_list w @ new" "calls w1 = calls w @ [(te_routine ?e, te_arg ?e)]"
        unfolding routine_ok_def by metis
      with True show ?thesis by auto
    qed (use 1(3) in auto)
    then obtain w1 new where w1: "(if te_active ?e then call (te_routine ?e) (te_arg ?e) w else Some w) = Some w1"
      "tasks_wf w1" "task_list w1 = task_list w @ new" "calls w1 = calls w @ task_calls [?e]" by blast
    have "take (Suc (unat i)) (task_list w1) = take (unat i) (task_list w) @ [?e]"
      using i(1) e by (simp add: w1(3) take_Suc_conv_app_nth)
    then have "calls w1 = old @ task_calls (take (unat (i + 1)) (task_list w1))"
      using w1(4) 1(5) by (simp only: i(3) task_calls_simps append_assoc)
    with 1(1) [OF True i(2) refl w1(1) 1(2) w1(2)] i w1(3) obtain w' new' where
      "dispatch_from call (i + 1) w1 = Some w'" "tasks_wf w'" "task_list w' = task_list w1 @ new'"
      "calls w' = old @ task_calls (task_list w')" by auto
    with True i(2) w1 show ?thesis
      by (subst dispatch_from.simps) (intro exI [of _ w'] exI [of _ "new @ new'"], simp add: Let_def)
  qed
qed

text \<open>
  One \<open>dispatch_all\<close> calls every active task of the table exactly once, in the order of their
  registration, those that routines start during the dispatch included, and stays inside the table
  of eight, provided the routines return.
\<close>

theorem task_dispatch_once:
  assumes "tasks_wf w" "routine_ok call calls"
  shows "\<exists>w' new. Task_dispatch_all call w = Some w' \<and> tasks_wf w' \<and> task_list w' = task_list w @ new
    \<and> calls w' = calls w @ task_calls (task_list w')"
  using dispatch_from_runs [OF assms(2,1), of 0 "calls w"] by (simp add: Task_dispatch_all_def)

text \<open>Two routines: the first starts the second when the table has room.\<close>

record logged_table = task_table +
  lt_calls :: "(u32 \<times> u32) list"

definition spawn :: "u32 \<Rightarrow> u32 \<Rightarrow> logged_table \<Rightarrow> logged_table option" where
  "spawn r a w =
     (let w = w\<lparr>lt_calls := lt_calls w @ [(r, a)]\<rparr> in
      if r = 1 then map_option (\<lambda>(st, tk, w). w) (Task_start 2 9 task_obj_init w) else Some w)"

lemma spawn_ok: "routine_ok spawn lt_calls"
  unfolding routine_ok_def
proof (intro allI impI)
  fix r a and w :: logged_table
  assume wf: "tasks_wf w"
  let ?w = "w\<lparr>lt_calls := lt_calls w @ [(r, a)]\<rparr>"
  have same: "tasks_wf ?w" "task_list ?w = task_list w" using wf by (simp_all add: tasks_wf_def task_list_def)
  have log: "Task_start 2 9 tk ?w = Some (st, tk', w') \<Longrightarrow> lt_calls w' = lt_calls ?w" for tk st tk' w'
    by (auto simp: Task_start_def Let_def split: if_splits)
  show "\<exists>w' new. spawn r a w = Some w' \<and> tasks_wf w' \<and> task_list w' = task_list w @ new \<and> lt_calls w' = lt_calls w @ [(r, a)]"
    using Task_start_spec [OF same(1), of 2 9 task_obj_init] same log
    by (cases "r = 1") (auto simp: spawn_def Let_def split: if_splits)
qed

lemma task_dispatch_once_witness:
  "\<exists>w'. Task_dispatch_all spawn
      \<lparr>s_tasks = replicate 8 \<lparr>te_routine = 1, te_arg = 7, te_active = True\<rparr>, s_task_count = 1, lt_calls = []\<rparr> = Some w'
    \<and> lt_calls w' = task_calls (task_list w') \<and> tasks_wf w'"
proof -
  let ?w = "\<lparr>s_tasks = replicate 8 \<lparr>te_routine = 1, te_arg = 7, te_active = True\<rparr>, s_task_count = 1, lt_calls = []\<rparr>"
  have "tasks_wf ?w" by (simp add: tasks_wf_def)
  from task_dispatch_once [OF this spawn_ok] show ?thesis by auto
qed

subsection \<open>\<open>Os::File\<close>\<close>

text \<open>There is no file system: every operation reports \<open>OTHER_ERROR\<close> and transfers nothing.\<close>

datatype file_status = OTHER_ERROR
datatype file_mode = OPEN_NO_MODE

record file_obj =
  fl_handle :: u32
  fl_mode :: file_mode
  fl_lastError :: file_status

definition file_obj_init :: file_obj where
  "file_obj_init = \<lparr>fl_handle = 0, fl_mode = OPEN_NO_MODE, fl_lastError = OTHER_ERROR\<rparr>"

definition File_open :: "bytes \<Rightarrow> 'm \<Rightarrow> bool \<Rightarrow> file_obj \<Rightarrow> file_status \<times> file_obj" where
  "File_open fileName mode include_excl f = (OTHER_ERROR, f)"

definition File_close :: "file_obj \<Rightarrow> file_obj" where
  "File_close f = f"

text \<open>The status, the buffer and the value left in the reference \<open>size\<close>.\<close>

definition File_read :: "bytes \<Rightarrow> int \<Rightarrow> bool \<Rightarrow> file_obj \<Rightarrow> (file_status \<times> bytes \<times> int) \<times> file_obj" where
  "File_read buffer sz waitForFull f = ((OTHER_ERROR, buffer, 0), f)"

definition File_write :: "bytes \<Rightarrow> int \<Rightarrow> bool \<Rightarrow> file_obj \<Rightarrow> (file_status \<times> int) \<times> file_obj" where
  "File_write buffer sz waitForDone f = ((OTHER_ERROR, 0), f)"

definition File_seek :: "int \<Rightarrow> bool \<Rightarrow> file_obj \<Rightarrow> file_status \<times> file_obj" where
  "File_seek offset absolute f = (OTHER_ERROR, f)"

end
