(* ===== verification/OsQueue.thy ===== *)
theory OsQueue
  imports OsTask
begin

text \<open>
  \<open>Os/Baremetal/Queue.cpp\<close>: message queues in one static pool of 8192 bytes, each a ring of slots
  that hold a 4-byte big-endian length and the message. A queue object is its \<open>m_handle\<close> (0 is
  \<open>nullptr\<close>), \<open>q_buf\<close> is an offset into the pool, and an access outside the pool is \<open>None\<close>. The buffer
  class of the framework is a parameter: \<open>setBuff b src len\<close> copies \<open>len\<close> bytes read through \<open>src\<close> into
  \<open>b\<close> and says whether they fitted.

  The abstract queues are lists of messages with a capacity. \<open>queue_rel\<close> relates the two, every
  operation preserves it, and \<open>os_queues_fifo\<close> lifts that to sequences of calls.
\<close>

datatype queue_status = QUEUE_OK | QUEUE_UNINITIALIZED | QUEUE_FULL | QUEUE_SIZE_MISMATCH | QUEUE_NO_MORE_MSGS

definition MAX_QUEUES :: nat where "MAX_QUEUES = 8"
definition QUEUE_POOL_BYTES :: nat where "QUEUE_POOL_BYTES = 8192"

record queue_impl =
  q_buf :: nat
  q_capacity :: u32
  q_msg_size :: u32
  q_depth :: u32
  q_head :: u32
  q_tail :: u32
  q_count :: u32

record queue_state = irq_state +
  s_pool :: "nat \<Rightarrow> u8"
  s_pool_offset :: u32
  s_queues :: "queue_impl list"
  s_queue_count :: u32

definition queue_zero :: queue_impl where
  "queue_zero = \<lparr>q_buf = 0, q_capacity = 0, q_msg_size = 0, q_depth = 0, q_head = 0, q_tail = 0, q_count = 0\<rparr>"

definition queues_init :: "u32 \<Rightarrow> queue_state" where
  "queues_init irq = \<lparr>irq_mask = irq, s_pool = (\<lambda>_. 0), s_pool_offset = 0,
     s_queues = replicate MAX_QUEUES queue_zero, s_queue_count = 0\<rparr>"

definition pool_rd :: "queue_state \<Rightarrow> nat \<Rightarrow> u8 option" where
  "pool_rd s i = (if i < QUEUE_POOL_BYTES then Some (s_pool s i) else None)"

definition pool_wr :: "nat \<Rightarrow> u8 \<Rightarrow> queue_state \<Rightarrow> queue_state option" where
  "pool_wr i v s = (if i < QUEUE_POOL_BYTES then Some (s\<lparr>s_pool := (s_pool s)(i := v)\<rparr>) else None)"

definition queue_at :: "queue_state \<Rightarrow> u32 \<Rightarrow> queue_impl option" where
  "queue_at s idx = (if unat idx < length (s_queues s) then Some (s_queues s ! unat idx) else None)"

definition set_queue :: "u32 \<Rightarrow> queue_impl \<Rightarrow> queue_state \<Rightarrow> queue_state" where
  "set_queue idx q s = s\<lparr>s_queues := (s_queues s)[unat idx := q]\<rparr>"

subsection \<open>The operations\<close>

text \<open>The status, the object's \<open>m_handle\<close> and the state.\<close>

definition Queue_create :: "int \<Rightarrow> int \<Rightarrow> u32 \<Rightarrow> queue_state \<Rightarrow> (queue_status os_ret \<times> u32 \<times> queue_state) option" where
  "Queue_create depth msgSize m_handle s =
     (if \<not> depth > 0 then Some (AssertFailed, m_handle, s)
      else if \<not> msgSize > 0 then Some (AssertFailed, m_handle, s)
      else if s_queue_count s \<ge> of_nat MAX_QUEUES then Some (Ret QUEUE_UNINITIALIZED, m_handle, s)
      else do {
        slot_size \<leftarrow> i32 (msgSize + 4);
        let needed = word_of_int depth * word_of_int slot_size;
        if s_pool_offset s + needed > of_nat QUEUE_POOL_BYTES then Some (Ret QUEUE_UNINITIALIZED, m_handle, s)
        else do {
          _ \<leftarrow> queue_at s (s_queue_count s);
          let q = \<lparr>q_buf = unat (s_pool_offset s), q_capacity = needed, q_msg_size = word_of_int msgSize,
                   q_depth = word_of_int depth, q_head = 0, q_tail = 0, q_count = 0\<rparr>;
          let s1 = (set_queue (s_queue_count s) q s)\<lparr>s_pool_offset := s_pool_offset s + needed\<rparr>;
          Some (Ret QUEUE_OK, s_queue_count s1, s1\<lparr>s_queue_count := s_queue_count s1 + 1\<rparr>) } })"

fun copy_in :: "nat \<Rightarrow> bytes \<Rightarrow> queue_state \<Rightarrow> queue_state option" where
  "copy_in dst [] s = Some s"
| "copy_in dst (b # bs) s = do { s1 \<leftarrow> pool_wr dst b s; copy_in (Suc dst) bs s1 }"

definition Queue_send :: "u32 \<Rightarrow> bytes \<Rightarrow> queue_state \<Rightarrow> (queue_status os_ret \<times> queue_state) option" where
  "Queue_send m_handle buffer s =
     (if m_handle = 0 then Some (AssertFailed, s)
      else do {
        q \<leftarrow> queue_at s m_handle;
        let (irq, s) = save_and_disable_interrupts s;
        if q_count q \<ge> q_depth q then Some (Ret QUEUE_FULL, restore_interrupts irq s)
        else do {
          let len = of_nat (length buffer);
          if len > q_msg_size q then Some (Ret QUEUE_SIZE_MISMATCH, restore_interrupts irq s)
          else do {
            let slot = (q_head q mod q_depth q) * (q_msg_size q + 4);
            let dst = q_buf q + unat slot;
            s \<leftarrow> pool_wr dst (ucast (drop_bit 24 len AND 0xFF)) s;
            s \<leftarrow> pool_wr (dst + 1) (ucast (drop_bit 16 len AND 0xFF)) s;
            s \<leftarrow> pool_wr (dst + 2) (ucast (drop_bit 8 len AND 0xFF)) s;
            s \<leftarrow> pool_wr (dst + 3) (ucast (len AND 0xFF)) s;
            s \<leftarrow> copy_in (dst + 4) (take (unat len) buffer) s;
            let s = set_queue m_handle (q\<lparr>q_head := q_head q + 1, q_count := q_count q + 1\<rparr>) s;
            Some (Ret QUEUE_OK, restore_interrupts irq s) } } })"

type_synonym 'b set_buff = "'b \<Rightarrow> (nat \<Rightarrow> u8 option) \<Rightarrow> u32 \<Rightarrow> (bool \<times> 'b) option"

definition Queue_receive ::
  "'b set_buff \<Rightarrow> u32 \<Rightarrow> 'b \<Rightarrow> int \<Rightarrow> queue_state \<Rightarrow> (queue_status os_ret \<times> 'b \<times> int \<times> queue_state) option" where
  "Queue_receive setBuff m_handle buffer priority s =
     (if m_handle = 0 then Some (AssertFailed, buffer, priority, s)
      else do {
        q \<leftarrow> queue_at s m_handle;
        let (irq, s) = save_and_disable_interrupts s;
        if q_count q = 0 then Some (Ret QUEUE_NO_MORE_MSGS, buffer, priority, restore_interrupts irq s)
        else do {
          let slot = (q_tail q mod q_depth q) * (q_msg_size q + 4);
          let src = q_buf q + unat slot;
          b0 \<leftarrow> pool_rd s src;
          b1 \<leftarrow> pool_rd s (src + 1);
          b2 \<leftarrow> pool_rd s (src + 2);
          b3 \<leftarrow> pool_rd s (src + 3);
          let len = ((push_bit 24 (ucast b0) OR push_bit 16 (ucast b1)) OR push_bit 8 (ucast b2)) OR ucast b3;
          (ok, buffer') \<leftarrow> setBuff buffer (\<lambda>i. pool_rd s (src + 4 + i)) len;
          let s = set_queue m_handle (q\<lparr>q_tail := q_tail q + 1, q_count := q_count q - 1\<rparr>) s;
          Some (Ret (if ok then QUEUE_OK else QUEUE_SIZE_MISMATCH), buffer', 0, restore_interrupts irq s) } })"

definition Queue_query :: "(queue_impl \<Rightarrow> u32) \<Rightarrow> u32 \<Rightarrow> queue_state \<Rightarrow> int os_ret option" where
  "Queue_query field m_handle s =
     (if m_handle = 0 then Some AssertFailed else do { q \<leftarrow> queue_at s m_handle; Some (Ret (sint (field q))) })"

definition Queue_getNumMsgs :: "u32 \<Rightarrow> queue_state \<Rightarrow> int os_ret option" where
  "Queue_getNumMsgs = Queue_query q_count"

definition Queue_getMaxMsgs :: "u32 \<Rightarrow> queue_state \<Rightarrow> int os_ret option" where
  "Queue_getMaxMsgs = Queue_getNumMsgs"

definition Queue_getQueueSize :: "u32 \<Rightarrow> queue_state \<Rightarrow> int os_ret option" where
  "Queue_getQueueSize = Queue_query q_depth"

definition Queue_getMsgSize :: "u32 \<Rightarrow> queue_state \<Rightarrow> int os_ret option" where
  "Queue_getMsgSize = Queue_query q_msg_size"

subsection \<open>Sequences of calls\<close>

datatype queue_call = QCreate int int | QSend u32 bytes | QReceive u32

definition queue_do ::
  "'b set_buff \<Rightarrow> queue_call \<Rightarrow> queue_state \<times> 'b \<Rightarrow> ((queue_status os_ret \<times> u32) \<times> queue_state \<times> 'b) option" where
  "queue_do setBuff c = (\<lambda>(s, b).
     (case c of
        QCreate depth msgSize \<Rightarrow> do { (r, h, s) \<leftarrow> Queue_create depth msgSize 0 s; Some ((r, h), s, b) }
      | QSend h data \<Rightarrow> do { (r, s) \<leftarrow> Queue_send h data s; Some ((r, h), s, b) }
      | QReceive h \<Rightarrow> do { (r, b, _, s) \<leftarrow> Queue_receive setBuff h b 0 s; Some ((r, h), s, b) }))"

text \<open>A failed assertion ends the run.\<close>

fun queue_run ::
  "'b set_buff \<Rightarrow> queue_call list \<Rightarrow> queue_state \<times> 'b \<Rightarrow> ((queue_status os_ret \<times> u32) list \<times> queue_state \<times> 'b) option" where
  "queue_run setBuff [] x = Some ([], x)"
| "queue_run setBuff (c # cs) x = do {
     (r, x) \<leftarrow> queue_do setBuff c x;
     if fst r = AssertFailed then Some ([r], x)
     else do { (rs, x) \<leftarrow> queue_run setBuff cs x; Some (r # rs, x) } }"

subsection \<open>The abstract queues\<close>

record aqueue =
  aq_depth :: nat
  aq_size :: nat
  aq_msgs :: "bytes list"

record aqueues =
  aq_queues :: "aqueue list"
  aq_created :: nat
  aq_used :: nat

definition aqueues_init :: aqueues where
  "aqueues_init = \<lparr>aq_queues = replicate 8 \<lparr>aq_depth = 0, aq_size = 0, aq_msgs = []\<rparr>, aq_created = 0, aq_used = 0\<rparr>"

definition aq_do ::
  "('b \<Rightarrow> bytes \<Rightarrow> bool \<times> 'b) \<Rightarrow> queue_call \<Rightarrow> aqueues \<times> 'b \<Rightarrow> (queue_status os_ret \<times> u32) \<times> aqueues \<times> 'b" where
  "aq_do store c = (\<lambda>(a, b).
     (case c of
        QCreate d m \<Rightarrow>
          if d \<le> 0 \<or> m \<le> 0 then ((AssertFailed, 0), a, b)
          else if aq_created a \<ge> 8 \<or> aq_used a + nat d * (nat m + 4) > 8192 then ((Ret QUEUE_UNINITIALIZED, 0), a, b)
          else ((Ret QUEUE_OK, of_nat (aq_created a)),
            a\<lparr>aq_queues := (aq_queues a)[aq_created a := \<lparr>aq_depth = nat d, aq_size = nat m, aq_msgs = []\<rparr>],
              aq_created := aq_created a + 1, aq_used := aq_used a + nat d * (nat m + 4)\<rparr>, b)
      | QSend h data \<Rightarrow>
          let q = aq_queues a ! unat h in
          if h = 0 then ((AssertFailed, h), a, b)
          else if length (aq_msgs q) \<ge> aq_depth q then ((Ret QUEUE_FULL, h), a, b)
          else if length data > aq_size q then ((Ret QUEUE_SIZE_MISMATCH, h), a, b)
          else ((Ret QUEUE_OK, h), a\<lparr>aq_queues := (aq_queues a)[unat h := q\<lparr>aq_msgs := aq_msgs q @ [data]\<rparr>]\<rparr>, b)
      | QReceive h \<Rightarrow>
          let q = aq_queues a ! unat h in
          if h = 0 then ((AssertFailed, h), a, b)
          else
            (case aq_msgs q of
               [] \<Rightarrow> ((Ret QUEUE_NO_MORE_MSGS, h), a, b)
             | m # ms \<Rightarrow>
                 let (ok, b') = store b m
                 in ((Ret (if ok then QUEUE_OK else QUEUE_SIZE_MISMATCH), h),
                     a\<lparr>aq_queues := (aq_queues a)[unat h := q\<lparr>aq_msgs := ms\<rparr>]\<rparr>, b'))))"

fun aq_run ::
  "('b \<Rightarrow> bytes \<Rightarrow> bool \<times> 'b) \<Rightarrow> queue_call list \<Rightarrow> aqueues \<times> 'b \<Rightarrow> (queue_status os_ret \<times> u32) list \<times> aqueues \<times> 'b" where
  "aq_run store [] x = ([], x)"
| "aq_run store (c # cs) x =
     (let (r, x) = aq_do store c x in
      if fst r = AssertFailed then ([r], x) else let (rs, x) = aq_run store cs x in (r # rs, x))"

subsection \<open>Messages in the pool\<close>

definition be32 :: "u32 \<Rightarrow> bytes" where
  "be32 n = [ucast (drop_bit 24 n AND 0xFF), ucast (drop_bit 16 n AND 0xFF), ucast (drop_bit 8 n AND 0xFF), ucast (n AND 0xFF)]"

definition stored :: "bytes \<Rightarrow> bytes" where
  "stored m = be32 (of_nat (length m)) @ m"

definition holds :: "(nat \<Rightarrow> u8) \<Rightarrow> nat \<Rightarrow> bytes \<Rightarrow> bool" where
  "holds pool base bs \<longleftrightarrow> (\<forall>i<length bs. pool (base + i) = bs ! i)"

definition overwrite :: "(nat \<Rightarrow> u8) \<Rightarrow> nat \<Rightarrow> bytes \<Rightarrow> nat \<Rightarrow> u8" where
  "overwrite pool base bs = (\<lambda>a. if base \<le> a \<and> a < base + length bs then bs ! (a - base) else pool a)"

lemma length_stored [simp]: "length (stored m) = 4 + length m"
  by (simp add: stored_def be32_def)

lemma bit_byte_of:
  assumes "i < 32" "k \<le> 24"
  shows "bit (push_bit k (ucast (ucast (drop_bit k n AND 0xFF) :: u8)) :: u32) i \<longleftrightarrow> k \<le> i \<and> i < k + 8 \<and> bit (n :: u32) i"
proof -
  have ff: "(0xFF :: u32) = mask 8" by (simp add: mask_eq_exp_minus_1)
  show ?thesis unfolding ff using assms by (auto simp: bit_simps)
qed

lemma be32_decode:
  "((push_bit 24 (ucast (ucast (drop_bit 24 n AND 0xFF) :: u8)) OR push_bit 16 (ucast (ucast (drop_bit 16 n AND 0xFF) :: u8)))
     OR push_bit 8 (ucast (ucast (drop_bit 8 n AND 0xFF) :: u8))) OR ucast (ucast (n AND 0xFF) :: u8) = (n :: u32)"
  (is "((?b3 OR ?b2) OR ?b1) OR ?b0 = n")
proof (rule bit_word_eqI)
  fix i assume "i < LENGTH(32)"
  then have i: "i < 32" by simp
  have b: "bit ?b3 i \<longleftrightarrow> 24 \<le> i \<and> i < 32 \<and> bit n i" "bit ?b2 i \<longleftrightarrow> 16 \<le> i \<and> i < 24 \<and> bit n i"
    "bit ?b1 i \<longleftrightarrow> 8 \<le> i \<and> i < 16 \<and> bit n i" "bit ?b0 i \<longleftrightarrow> i < 8 \<and> bit n i"
    using bit_byte_of [OF i, of 24 n] bit_byte_of [OF i, of 16 n] bit_byte_of [OF i, of 8 n] bit_byte_of [OF i, of 0 n] by simp_all
  have "(24 \<le> i \<and> i < 32) \<or> (16 \<le> i \<and> i < 24) \<or> (8 \<le> i \<and> i < 16) \<or> i < 8" using i by linarith
  then show "bit (((?b3 OR ?b2) OR ?b1) OR ?b0) i \<longleftrightarrow> bit n i"
    unfolding bit_or_iff b by blast
qed

lemma overwrite_Nil [simp]: "overwrite pool d [] = pool"
  by (rule ext) (auto simp: overwrite_def)

lemma overwrite_cons: "overwrite (pool(d := b)) (Suc d) bs = overwrite pool d (b # bs)"
proof
  fix a
  show "overwrite (pool(d := b)) (Suc d) bs a = overwrite pool d (b # bs) a"
  proof (cases "a \<le> d")
    case True
    then show ?thesis by (auto simp: overwrite_def)
  next
    case False
    then have "a - d = Suc (a - Suc d)" by simp
    with False show ?thesis by (auto simp: overwrite_def)
  qed
qed

lemma copy_in_overwrite:
  "dst + length bs \<le> 8192 \<Longrightarrow> copy_in dst bs s = Some (s\<lparr>s_pool := overwrite (s_pool s) dst bs\<rparr>)"
proof (induction bs arbitrary: dst s)
  case Nil
  then show ?case by simp
next
  case (Cons b bs)
  then show ?case by (simp add: pool_wr_def QUEUE_POOL_BYTES_def overwrite_cons [unfolded fun_upd_def])
qed

lemma holds_overwrite: "holds (overwrite pool base bs) base bs"
  by (simp add: holds_def overwrite_def)

lemma holds_frame:
  "holds pool base bs \<Longrightarrow> (\<And>a. base \<le> a \<Longrightarrow> a < base + length bs \<Longrightarrow> pool' a = pool a) \<Longrightarrow> holds pool' base bs"
  by (simp add: holds_def)

lemma overwrite_other: "a < base \<or> base + length bs \<le> a \<Longrightarrow> overwrite pool base bs a = pool a"
  by (auto simp: overwrite_def)

subsection \<open>One queue and its abstract queue\<close>

definition area :: "aqueue \<Rightarrow> nat" where
  "area aq = aq_depth aq * (aq_size aq + 4)"

definition slot_addr :: "queue_impl \<Rightarrow> aqueue \<Rightarrow> nat \<Rightarrow> nat" where
  "slot_addr q aq n = q_buf q + (n mod aq_depth aq) * (aq_size aq + 4)"

definition q_rel :: "(nat \<Rightarrow> u8) \<Rightarrow> queue_impl \<Rightarrow> aqueue \<Rightarrow> bool" where
  "q_rel pool q aq \<longleftrightarrow>
     q_depth q = of_nat (aq_depth aq) \<and> q_msg_size q = of_nat (aq_size aq) \<and> aq_depth aq \<le> 8192 \<and> aq_size aq < 8192
     \<and> area aq \<le> 8192 \<and> length (aq_msgs aq) \<le> aq_depth aq \<and> q_count q = of_nat (length (aq_msgs aq))
     \<and> unat (q_head q) = unat (q_tail q) + length (aq_msgs aq)
     \<and> (\<forall>j < length (aq_msgs aq). length (aq_msgs aq ! j) \<le> aq_size aq
          \<and> holds pool (slot_addr q aq (unat (q_tail q) + j)) (stored (aq_msgs aq ! j)))"

lemma slot_in_area:
  assumes "0 < aq_depth aq" "len \<le> aq_size aq"
  shows "q_buf q \<le> slot_addr q aq n \<and> slot_addr q aq n + (4 + len) \<le> q_buf q + area aq"
proof -
  have "n mod aq_depth aq < aq_depth aq" using assms(1) by simp
  then have "(n mod aq_depth aq + 1) * (aq_size aq + 4) \<le> aq_depth aq * (aq_size aq + 4)"
    by (intro mult_le_mono1) simp
  then show ?thesis using assms(2) by (simp add: slot_addr_def area_def)
qed

lemma slots_disjoint:
  assumes "j < k" "k < aq_depth aq" "l1 \<le> aq_size aq" "l2 \<le> aq_size aq"
  shows "slot_addr q aq (t + j) + (4 + l1) \<le> slot_addr q aq (t + k) \<or> slot_addr q aq (t + k) + (4 + l2) \<le> slot_addr q aq (t + j)"
proof -
  let ?d = "aq_depth aq" and ?w = "aq_size aq + 4"
  have "(t + j) mod ?d \<noteq> (t + k) mod ?d"
  proof
    assume "(t + j) mod ?d = (t + k) mod ?d"
    then have "?d dvd (t + k) - (t + j)" using assms(1) by (metis mod_eq_dvd_iff_nat add_le_cancel_left less_imp_le)
    then show False using assms(1,2) by (auto dest: dvd_imp_le)
  qed
  then consider "(t + j) mod ?d + 1 \<le> (t + k) mod ?d" | "(t + k) mod ?d + 1 \<le> (t + j) mod ?d" by linarith
  then show ?thesis
  proof cases
    case 1
    then have "((t + j) mod ?d + 1) * ?w \<le> ((t + k) mod ?d) * ?w" by (rule mult_le_mono1)
    then show ?thesis using assms(3) by (simp add: slot_addr_def)
  next
    case 2
    then have "((t + k) mod ?d + 1) * ?w \<le> ((t + j) mod ?d) * ?w" by (rule mult_le_mono1)
    then show ?thesis using assms(4) by (simp add: slot_addr_def)
  qed
qed

lemma q_rel_frame:
  assumes "q_rel pool q aq" "\<And>a. q_buf q \<le> a \<Longrightarrow> a < q_buf q + area aq \<Longrightarrow> pool' a = pool a"
  shows "q_rel pool' q aq"
proof -
  have "holds pool' (slot_addr q aq (unat (q_tail q) + j)) (stored (aq_msgs aq ! j))" if "j < length (aq_msgs aq)" for j
  proof (rule holds_frame)
    show "holds pool (slot_addr q aq (unat (q_tail q) + j)) (stored (aq_msgs aq ! j))"
      using assms(1) that by (simp add: q_rel_def)
    fix a assume a: "slot_addr q aq (unat (q_tail q) + j) \<le> a"
      "a < slot_addr q aq (unat (q_tail q) + j) + length (stored (aq_msgs aq ! j))"
    have "0 < aq_depth aq" "length (aq_msgs aq ! j) \<le> aq_size aq" using assms(1) that by (auto simp: q_rel_def)
    from slot_in_area [OF this, of q "unat (q_tail q) + j"] a show "pool' a = pool a" by (intro assms(2)) simp_all
  qed
  with assms(1) show ?thesis by (simp add: q_rel_def)
qed

text \<open>The slot the code computes in 32-bit arithmetic.\<close>

lemma slot_word:
  assumes "q_rel pool q aq" "0 < aq_depth aq"
  shows "q_buf q + unat ((n mod q_depth q) * (q_msg_size q + 4)) = slot_addr q aq (unat n)"
proof -
  have r: "unat (q_depth q) = aq_depth aq" "unat (q_msg_size q + 4) = aq_size aq + 4"
    using assms(1) by (simp_all add: q_rel_def unat_of_nat unat_word_ariths)
  have "unat (n mod q_depth q) = unat n mod aq_depth aq" by (simp add: unat_mod r)
  moreover have "(unat n mod aq_depth aq) * (aq_size aq + 4) < 4294967296"
    using slot_in_area [OF assms(2), of 0 q "unat n"] assms(1) by (simp add: slot_addr_def q_rel_def)
  ultimately show ?thesis by (simp add: slot_addr_def unat_word_ariths(2) r)
qed

lemma q_rel_send:
  assumes rel: "q_rel pool q aq" and room: "length (aq_msgs aq) < aq_depth aq" and len: "length data \<le> aq_size aq"
    and "unat (q_head q) + 1 < 4294967296"
  shows "q_rel (overwrite pool (slot_addr q aq (unat (q_head q))) (stored data))
    (q\<lparr>q_head := q_head q + 1, q_count := q_count q + 1\<rparr>) (aq\<lparr>aq_msgs := aq_msgs aq @ [data]\<rparr>)"
proof -
  let ?dst = "slot_addr q aq (unat (q_head q))" and ?t = "unat (q_tail q)"
  let ?pool = "overwrite pool ?dst (stored data)"
  have h: "unat (q_head q) = ?t + length (aq_msgs aq)" using rel by (simp add: q_rel_def)
  have old: "holds ?pool (slot_addr q aq (?t + j)) (stored (aq_msgs aq ! j))" if j: "j < length (aq_msgs aq)" for j
  proof (rule holds_frame)
    show "holds pool (slot_addr q aq (?t + j)) (stored (aq_msgs aq ! j))" using rel j by (simp add: q_rel_def)
    fix a assume "slot_addr q aq (?t + j) \<le> a" "a < slot_addr q aq (?t + j) + length (stored (aq_msgs aq ! j))"
    moreover have "length (aq_msgs aq ! j) \<le> aq_size aq" using rel j by (simp add: q_rel_def)
    note slots_disjoint [OF j room this len, of q ?t]
    ultimately show "?pool a = pool a" by (intro overwrite_other) (auto simp: h)
  qed
  have "holds ?pool (slot_addr q aq (?t + length (aq_msgs aq))) (stored data)" using holds_overwrite [of pool ?dst] by (simp add: h)
  moreover have "unat (1 + q_head q) = Suc (unat (q_head q))" using unat_u32_succ [OF assms(4)] by (simp add: add.commute)
  ultimately show ?thesis
    using old rel room len by (auto simp: q_rel_def area_def slot_addr_def nth_append less_Suc_eq add.commute)
qed

lemma holds_header:
  assumes "holds pool base (stored m)"
  shows "pool base = ucast (drop_bit 24 (of_nat (length m) :: u32) AND 0xFF)"
    "pool (base + 1) = ucast (drop_bit 16 (of_nat (length m) :: u32) AND 0xFF)"
    "pool (base + 2) = ucast (drop_bit 8 (of_nat (length m) :: u32) AND 0xFF)"
    "pool (base + 3) = ucast ((of_nat (length m) :: u32) AND 0xFF)"
    "i < length m \<Longrightarrow> pool (base + 4 + i) = m ! i"
proof -
  have h: "i < 4 + length m \<Longrightarrow> pool (base + i) = (be32 (of_nat (length m)) @ m) ! i" for i
    using assms by (simp add: holds_def stored_def be32_def)
  show "pool base = ucast (drop_bit 24 (of_nat (length m) :: u32) AND 0xFF)" using h [of 0] by (simp add: be32_def)
  show "pool (base + 1) = ucast (drop_bit 16 (of_nat (length m) :: u32) AND 0xFF)" using h [of 1] by (simp add: be32_def)
  show "pool (base + 2) = ucast (drop_bit 8 (of_nat (length m) :: u32) AND 0xFF)" using h [of 2] by (simp add: be32_def)
  show "pool (base + 3) = ucast ((of_nat (length m) :: u32) AND 0xFF)" using h [of 3] by (simp add: be32_def numeral_3_eq_3)
  show "i < length m \<Longrightarrow> pool (base + 4 + i) = m ! i" using h [of "4 + i"] by (simp add: be32_def nth_append add.assoc)
qed

lemma q_rel_receive:
  assumes rel: "q_rel pool q aq" and msgs: "aq_msgs aq = m # ms"
  shows "q_rel pool (q\<lparr>q_tail := q_tail q + 1, q_count := q_count q - 1\<rparr>) (aq\<lparr>aq_msgs := ms\<rparr>)"
    "holds pool (slot_addr q aq (unat (q_tail q))) (stored m)" "length m \<le> aq_size aq"
proof -
  have 0: "holds pool (slot_addr q aq (unat (q_tail q))) (stored m) \<and> length m \<le> aq_size aq"
    using rel msgs unfolding q_rel_def by (metis add.right_neutral length_greater_0_conv list.distinct(1) nth_Cons_0)
  then show "holds pool (slot_addr q aq (unat (q_tail q))) (stored m)" "length m \<le> aq_size aq" by simp_all
  have t: "unat (q_tail q + 1) = Suc (unat (q_tail q))"
    using rel msgs unat_u32 [of "q_head q"] unat_u32_succ [of "q_tail q"] by (simp add: q_rel_def)
  have "holds pool (slot_addr q aq (Suc (unat (q_tail q)) + j)) (stored (ms ! j)) \<and> length (ms ! j) \<le> aq_size aq"
    if "j < length ms" for j
    using rel msgs that unfolding q_rel_def by (auto dest!: spec [of _ "Suc j"])
  then show "q_rel pool (q\<lparr>q_tail := q_tail q + 1, q_count := q_count q - 1\<rparr>) (aq\<lparr>aq_msgs := ms\<rparr>)"
    using rel msgs t by (auto simp: q_rel_def area_def slot_addr_def)
qed

subsection \<open>All queues\<close>

definition queue_rel :: "nat \<Rightarrow> queue_state \<Rightarrow> aqueues \<Rightarrow> bool" where
  "queue_rel k s a \<longleftrightarrow>
     length (s_queues s) = 8 \<and> length (aq_queues a) = 8 \<and> aq_created a \<le> 8 \<and> aq_used a \<le> 8192
     \<and> s_queue_count s = of_nat (aq_created a) \<and> s_pool_offset s = of_nat (aq_used a)
     \<and> (\<forall>i<8. q_rel (s_pool s) (s_queues s ! i) (aq_queues a ! i) \<and> unat (q_head (s_queues s ! i)) \<le> k
          \<and> q_buf (s_queues s ! i) + area (aq_queues a ! i) \<le> aq_used a)
     \<and> (\<forall>i<8. \<forall>j<8. i \<noteq> j \<longrightarrow> q_buf (s_queues s ! i) + area (aq_queues a ! i) \<le> q_buf (s_queues s ! j)
          \<or> q_buf (s_queues s ! j) + area (aq_queues a ! j) \<le> q_buf (s_queues s ! i))"

text \<open>Replacing queue \<open>n\<close> and writing only inside its area keeps the relation for the others.\<close>

lemma queue_rel_update:
  assumes "queue_rel k s a" "n < 8" "q_rel pool q aq" "unat (q_head q) \<le> Suc k"
    and "q_buf q = q_buf (s_queues s ! n)" "area aq = area (aq_queues a ! n)"
    and "\<And>x. x < q_buf q \<or> q_buf q + area aq \<le> x \<Longrightarrow> pool x = s_pool s x"
  shows "queue_rel (Suc k) (s\<lparr>s_pool := pool, s_queues := (s_queues s)[n := q]\<rparr>) (a\<lparr>aq_queues := (aq_queues a)[n := aq]\<rparr>)"
proof -
  have "q_rel pool (s_queues s ! i) (aq_queues a ! i)" if "i < 8" "i \<noteq> n" for i
  proof (rule q_rel_frame)
    show "q_rel (s_pool s) (s_queues s ! i) (aq_queues a ! i)" using assms(1) that by (simp add: queue_rel_def)
    fix x assume "q_buf (s_queues s ! i) \<le> x" "x < q_buf (s_queues s ! i) + area (aq_queues a ! i)"
    moreover have "q_buf (s_queues s ! i) + area (aq_queues a ! i) \<le> q_buf q \<or> q_buf q + area aq \<le> q_buf (s_queues s ! i)"
      using assms(1,2,5,6) that by (simp add: queue_rel_def)
    ultimately show "pool x = s_pool s x" by (intro assms(7)) linarith
  qed
  moreover have "i < 8 \<Longrightarrow> unat (q_head (s_queues s ! i)) \<le> Suc k" for i
    using assms(1) by (simp add: queue_rel_def le_SucI)
  ultimately show ?thesis using assms(1-6) by (auto simp: queue_rel_def nth_list_update)
qed

lemma queue_rel_mono: "queue_rel k s a \<Longrightarrow> queue_rel (Suc k) s a"
  by (auto simp: queue_rel_def le_SucI)

lemma queue_rel_at: "queue_rel k s a \<Longrightarrow> h < 8 \<Longrightarrow> queue_at s h = Some (s_queues s ! unat h)"
  by (simp add: queue_rel_def queue_at_def word_less_nat_alt)

text \<open>The buffer class: a message that is completely readable is stored as \<open>store\<close> says.\<close>

definition set_buff_spec :: "'b set_buff \<Rightarrow> ('b \<Rightarrow> bytes \<Rightarrow> bool \<times> 'b) \<Rightarrow> bool" where
  "set_buff_spec setBuff store \<longleftrightarrow>
     (\<forall>b src m. length m < 4294967296 \<longrightarrow> (\<forall>i<length m. src i = Some (m ! i)) \<longrightarrow> setBuff b src (of_nat (length m)) = Some (store b m))"

text \<open>
  The calls the theorem is about: on handles of the table, messages shorter than 2^32 bytes, and
  queue sizes whose product does not wrap.
\<close>

definition call_ok :: "queue_call \<Rightarrow> bool" where
  "call_ok c \<longleftrightarrow>
     (case c of
        QCreate d m \<Rightarrow> d > 0 \<and> m > 0 \<longrightarrow> m + 4 < 2147483648 \<and> d * (m + 4) \<le> 4294959103
      | QSend h data \<Rightarrow> h < 8 \<and> length data < 4294967296
      | QReceive h \<Rightarrow> h < 8)"

lemma word_le_of_nat: "n < 4294967296 \<Longrightarrow> (w :: u32) \<le> of_nat n \<longleftrightarrow> unat w \<le> n"
  and word_ge_of_nat: "n < 4294967296 \<Longrightarrow> of_nat n \<le> (w :: u32) \<longleftrightarrow> n \<le> unat w"
  by (simp_all add: word_le_nat_alt unat_of_nat)

lemma unat_of_nat_u32: "n < 4294967296 \<Longrightarrow> unat (of_nat n :: u32) = n"
  by (simp add: unat_of_nat)

text \<open>One call on related states: the same result, related states, the interrupt mask as before.\<close>

definition simulated :: "nat \<Rightarrow> 'b set_buff \<Rightarrow> ('b \<Rightarrow> bytes \<Rightarrow> bool \<times> 'b) \<Rightarrow> queue_call \<Rightarrow> queue_state \<Rightarrow> aqueues \<Rightarrow> 'b \<Rightarrow> bool" where
  "simulated k setBuff store c s a b \<longleftrightarrow>
     (\<exists>r s' a' b'. aq_do store c (a, b) = (r, a', b') \<and> queue_do setBuff c (s, b) = Some (r, s', b')
        \<and> queue_rel (Suc k) s' a' \<and> irq_mask s' = irq_mask s)"

lemma sim_create:
  assumes rel: "queue_rel k s a" and ok: "call_ok (QCreate d m)"
  shows "simulated k setBuff store (QCreate d m) s a b"
proof (cases "d \<le> 0 \<or> m \<le> 0")
  case True
  with queue_rel_mono [OF rel] show ?thesis by (auto simp: simulated_def queue_do_def Queue_create_def aq_do_def)
next
  case False
  let ?n = "aq_created a" and ?size = "nat d * (nat m + 4)"
  have n: "?n \<le> 8" "s_queue_count s = of_nat ?n" "aq_used a \<le> 8192" "s_pool_offset s = of_nat (aq_used a)" "length (s_queues s) = 8"
    using rel by (simp_all add: queue_rel_def)
  have full: "s_queue_count s \<ge> of_nat MAX_QUEUES \<longleftrightarrow> ?n \<ge> 8"
    using n by (simp add: MAX_QUEUES_def word_le_nat_alt unat_of_nat)
  have m4: "i32 (m + 4) = Some (m + 4)" using ok False by (simp add: call_ok_def i32_def)
  have isize: "int ?size = d * (m + 4)" using False by simp
  then have needed: "word_of_int d * word_of_int (m + 4) = (of_nat ?size :: u32)" by (metis of_int_of_nat_eq of_int_mult)
  have bound: "int x \<le> 4294959103 \<Longrightarrow> x \<le> 4294959103" for x by simp
  have size: "?size \<le> 4294959103"
    by (rule bound) (use ok False in \<open>simp only: isize, simp add: call_ok_def\<close>)
  then have "aq_used a + ?size < 4294967296" using n(3) by linarith
  then have sum: "unat (s_pool_offset s + of_nat ?size) = aq_used a + ?size"
    unfolding n(4) of_nat_add [symmetric] by (rule unat_of_nat_u32)
  then have over: "s_pool_offset s + of_nat ?size > of_nat QUEUE_POOL_BYTES \<longleftrightarrow> aq_used a + ?size > 8192"
    by (simp add: QUEUE_POOL_BYTES_def word_less_nat_alt)
  show ?thesis
  proof (cases "?n \<ge> 8 \<or> aq_used a + ?size > 8192")
    case True
    with False queue_rel_mono [OF rel] full over show ?thesis
      by (auto simp: simulated_def queue_do_def Queue_create_def aq_do_def m4 needed)
  next
    case fits: False
    let ?q = "\<lparr>q_buf = unat (s_pool_offset s), q_capacity = of_nat ?size, q_msg_size = word_of_int m,
      q_depth = word_of_int d, q_head = 0, q_tail = 0, q_count = 0\<rparr>"
    let ?aq = "\<lparr>aq_depth = nat d, aq_size = nat m, aq_msgs = []\<rparr>"
    let ?s = "(set_queue (s_queue_count s) ?q s)\<lparr>s_pool_offset := s_pool_offset s + of_nat ?size, s_queue_count := s_queue_count s + 1\<rparr>"
    let ?a = "a\<lparr>aq_queues := (aq_queues a)[?n := ?aq], aq_created := ?n + 1, aq_used := aq_used a + ?size\<rparr>"
    have u: "unat (of_nat ?n :: u32) = ?n" "unat (of_nat (aq_used a) :: u32) = aq_used a"
      using n(1,3) by (simp_all add: unat_of_nat)
    have "queue_do setBuff (QCreate d m) (s, b) = Some ((Ret QUEUE_OK, of_nat ?n), ?s, b)"
      using False fits full over n by (simp add: queue_do_def Queue_create_def m4 needed queue_at_def set_queue_def Let_def u)
    moreover have "aq_do store (QCreate d m) (a, b) = ((Ret QUEUE_OK, of_nat ?n), ?a, b)"
      using False fits by (simp add: aq_do_def)
    moreover have "queue_rel (Suc k) ?s ?a"
    proof -
      have small: "nat d \<le> 8192 \<and> nat m < 8192"
      proof -
        have "0 < nat d" using False by simp
        then have "1 \<le> nat d" by linarith
        then have "nat d * 1 \<le> ?size" "1 * (nat m + 4) \<le> ?size" by (intro mult_le_mono; simp)+
        moreover have "?size \<le> 8192" using fits by (meson le_add2 le_trans not_less)
        ultimately have "nat d \<le> 8192" "nat m + 4 \<le> 8192" by (simp_all only: mult.right_neutral mult_1 le_trans)
        then show ?thesis by simp
      qed
      then have "q_rel (s_pool s) ?q ?aq" using False fits by (simp add: q_rel_def area_def)
      moreover have "q_buf ?q + area ?aq = aq_used a + ?size" by (simp add: area_def n(4) u)
      moreover have "q_buf (s_queues s ! i) + area (aq_queues a ! i) \<le> q_buf ?q" if "i < 8" for i
        using rel that by (simp add: queue_rel_def n(4) u)
      moreover have "i < 8 \<Longrightarrow> q_buf (s_queues s ! i) + area (aq_queues a ! i) \<le> aq_used a + ?size" for i
        using rel by (simp add: queue_rel_def trans_le_add1)
      ultimately show ?thesis
        using rel fits by (auto simp: queue_rel_def set_queue_def n u nth_list_update le_SucI add.commute)
    qed
    ultimately show ?thesis by (auto simp: simulated_def set_queue_def)
  qed
qed

lemma store_message:
  assumes "dst + (4 + length data) \<le> 8192" "length data < 4294967296" "len = (of_nat (length data) :: u32)"
  shows "(do { s \<leftarrow> pool_wr dst (ucast (drop_bit 24 len AND 0xFF)) s;
               s \<leftarrow> pool_wr (dst + 1) (ucast (drop_bit 16 len AND 0xFF)) s;
               s \<leftarrow> pool_wr (dst + 2) (ucast (drop_bit 8 len AND 0xFF)) s;
               s \<leftarrow> pool_wr (dst + 3) (ucast (len AND 0xFF)) s;
               s \<leftarrow> copy_in (dst + 4) (take (unat len) data) s; f s })
    = f (s\<lparr>s_pool := overwrite (s_pool s) dst (stored data)\<rparr>)"
proof -
  have n: "dst + 1 = Suc dst" "dst + 2 = Suc (Suc dst)" "dst + 3 = Suc (Suc (Suc dst))" "dst + 4 = Suc (Suc (Suc (Suc dst)))" by simp_all
  have "take (unat len) data = data" using assms(2,3) by (simp add: unat_of_nat)
  then have "(do { s \<leftarrow> pool_wr dst (ucast (drop_bit 24 len AND 0xFF)) s;
               s \<leftarrow> pool_wr (dst + 1) (ucast (drop_bit 16 len AND 0xFF)) s;
               s \<leftarrow> pool_wr (dst + 2) (ucast (drop_bit 8 len AND 0xFF)) s;
               s \<leftarrow> pool_wr (dst + 3) (ucast (len AND 0xFF)) s;
               s \<leftarrow> copy_in (dst + 4) (take (unat len) data) s; f s })
    = copy_in dst (stored data) s \<bind> f"
    by (simp only: n stored_def be32_def append_Cons append_Nil copy_in.simps assms(3) Option.bind_assoc)
  also have "copy_in dst (stored data) s = Some (s\<lparr>s_pool := overwrite (s_pool s) dst (stored data)\<rparr>)"
    by (rule copy_in_overwrite) (use assms(1) in simp)
  finally show ?thesis by simp
qed

lemma sim_send:
  assumes rel: "queue_rel k s a" and ok: "call_ok (QSend h data)" and k: "Suc k < 4294967296"
  shows "simulated k setBuff store (QSend h data) s a b"
proof (cases "h = 0")
  case True
  with queue_rel_mono [OF rel] show ?thesis by (auto simp: simulated_def queue_do_def Queue_send_def aq_do_def)
next
  case False
  let ?i = "unat h" let ?q = "s_queues s ! ?i" and ?aq = "aq_queues a ! ?i"
  have h: "h < 8" "?i < 8" and len: "length data < 4294967296" using ok by (simp_all add: call_ok_def word_less_nat_alt)
  have q: "q_rel (s_pool s) ?q ?aq" "unat (q_head ?q) \<le> k" "q_buf ?q + area ?aq \<le> 8192" "length (aq_queues a) = 8"
    using rel h(2) by (auto simp: queue_rel_def)
  have at: "queue_at s h = Some ?q" by (rule queue_rel_at [OF rel h(1)])
  have full: "q_count ?q \<ge> q_depth ?q \<longleftrightarrow> length (aq_msgs ?aq) \<ge> aq_depth ?aq"
    and big: "of_nat (length data) > q_msg_size ?q \<longleftrightarrow> length data > aq_size ?aq"
    using q(1) len by (auto simp: q_rel_def word_le_nat_alt word_less_nat_alt unat_of_nat)
  show ?thesis
  proof (cases "length (aq_msgs ?aq) \<ge> aq_depth ?aq \<or> length data > aq_size ?aq")
    case True
    with False queue_rel_mono [OF rel] full big show ?thesis
      by (auto simp: simulated_def queue_do_def Queue_send_def aq_do_def at save_and_disable_interrupts_def
        restore_interrupts_def Let_def)
  next
    case room: False
    then have d: "0 < aq_depth ?aq" "length data \<le> aq_size ?aq" by auto
    let ?dst = "slot_addr ?q ?aq (unat (q_head ?q))"
    let ?pool = "overwrite (s_pool s) ?dst (stored data)"
    let ?q' = "?q\<lparr>q_head := q_head ?q + 1, q_count := q_count ?q + 1\<rparr>" and ?aq' = "?aq\<lparr>aq_msgs := aq_msgs ?aq @ [data]\<rparr>"
    let ?s = "s\<lparr>s_pool := ?pool, s_queues := (s_queues s)[?i := ?q']\<rparr>" and ?a = "a\<lparr>aq_queues := (aq_queues a)[?i := ?aq']\<rparr>"
    note area = slot_in_area [OF d, of ?q "unat (q_head ?q)"]
    have dst: "?dst + (4 + length data) \<le> 8192" using area q(3) by linarith
    have "queue_do setBuff (QSend h data) (s, b) = Some ((Ret QUEUE_OK, h), ?s, b)"
      using False full big room
      by (simp add: queue_do_def Queue_send_def at save_and_disable_interrupts_def restore_interrupts_def Let_def
        slot_word [OF q(1) d(1)] store_message [OF dst len refl, simplified] set_queue_def)
    moreover have "aq_do store (QSend h data) (a, b) = ((Ret QUEUE_OK, h), ?a, b)"
      using False room by (simp add: aq_do_def Let_def)
    moreover have "queue_rel (Suc k) ?s ?a"
    proof (rule queue_rel_update [OF rel h(2)])
      have k1: "unat (q_head ?q) + 1 < 4294967296" using q(2) k by linarith
      show "q_rel ?pool ?q' ?aq'" using room by (intro q_rel_send [OF q(1) _ d(2) k1]) simp
      show "unat (q_head ?q') \<le> Suc k" using q(2) unat_u32_succ [OF k1] by simp
      show "?pool x = s_pool s x" if "x < q_buf ?q' \<or> q_buf ?q' + area ?aq' \<le> x" for x
        using area that by (intro overwrite_other) (auto simp: area_def)
    qed (simp_all add: area_def)
    ultimately show ?thesis by (auto simp: simulated_def)
  qed
qed

lemma sim_receive:
  assumes rel: "queue_rel k s a" and ok: "call_ok (QReceive h)" and buff: "set_buff_spec setBuff store"
  shows "simulated k setBuff store (QReceive h) s a b"
proof (cases "h = 0")
  case True
  with queue_rel_mono [OF rel] show ?thesis by (auto simp: simulated_def queue_do_def Queue_receive_def aq_do_def)
next
  case False
  let ?i = "unat h" let ?q = "s_queues s ! ?i" and ?aq = "aq_queues a ! ?i"
  have h: "h < 8" "?i < 8" using ok by (simp_all add: call_ok_def word_less_nat_alt)
  have q: "q_rel (s_pool s) ?q ?aq" "unat (q_head ?q) \<le> k" "q_buf ?q + area ?aq \<le> 8192" "length (aq_queues a) = 8"
    using rel h(2) by (auto simp: queue_rel_def)
  have at: "queue_at s h = Some ?q" by (rule queue_rel_at [OF rel h(1)])
  have empty: "q_count ?q = 0 \<longleftrightarrow> aq_msgs ?aq = []"
  proof -
    have "length (aq_msgs ?aq) \<le> 8192" using q(1) by (simp add: q_rel_def)
    with q(1) show ?thesis by (auto simp: q_rel_def word_unat_eq_iff unat_of_nat)
  qed
  show ?thesis
  proof (cases "aq_msgs ?aq")
    case Nil
    with False queue_rel_mono [OF rel] empty show ?thesis
      by (auto simp: simulated_def queue_do_def Queue_receive_def aq_do_def at save_and_disable_interrupts_def
        restore_interrupts_def Let_def)
  next
    case (Cons m ms)
    note r = q_rel_receive [OF q(1) Cons]
    have d: "0 < aq_depth ?aq" using q(1) Cons by (auto simp: q_rel_def)
    let ?src = "slot_addr ?q ?aq (unat (q_tail ?q))"
    have src: "?src + (4 + length m) \<le> 8192"
      using slot_in_area [OF d r(3), of ?q "unat (q_tail ?q)"] q(3) by linarith
    let ?q' = "?q\<lparr>q_tail := q_tail ?q + 1, q_count := q_count ?q - 1\<rparr>" and ?aq' = "?aq\<lparr>aq_msgs := ms\<rparr>"
    let ?s = "s\<lparr>s_queues := (s_queues s)[?i := ?q']\<rparr>" and ?a = "a\<lparr>aq_queues := (aq_queues a)[?i := ?aq']\<rparr>"
    obtain okm b' where st: "store b m = (okm, b')" by (cases "store b m")
    have hdr: "pool_rd s' ?src = Some (ucast (drop_bit 24 (of_nat (length m) :: u32) AND 0xFF))"
      "pool_rd s' (Suc ?src) = Some (ucast (drop_bit 16 (of_nat (length m) :: u32) AND 0xFF))"
      "pool_rd s' (Suc (Suc ?src)) = Some (ucast (drop_bit 8 (of_nat (length m) :: u32) AND 0xFF))"
      "pool_rd s' (?src + 3) = Some (ucast ((of_nat (length m) :: u32) AND 0xFF))"
      "i < length m \<Longrightarrow> pool_rd s' (?src + 4 + i) = Some (m ! i)" if "s_pool s' = s_pool s" for s' i
      using src holds_header [OF r(2)] that by (simp_all add: pool_rd_def QUEUE_POOL_BYTES_def)
    have set: "setBuff b (\<lambda>i. pool_rd s' (?src + 4 + i)) (of_nat (length m)) = Some (okm, b')"
      if "s_pool s' = s_pool s" for s'
    proof -
      have "length m < 4294967296" using src by linarith
      then show ?thesis using buff hdr(5) [OF that] st unfolding set_buff_spec_def by metis
    qed
    have "queue_do setBuff (QReceive h) (s, b) = Some ((Ret (if okm then QUEUE_OK else QUEUE_SIZE_MISMATCH), h), ?s, b')"
      using False empty Cons
      by (simp add: queue_do_def Queue_receive_def at save_and_disable_interrupts_def restore_interrupts_def Let_def
        slot_word [OF q(1) d] hdr be32_decode set set_queue_def)
    moreover have "aq_do store (QReceive h) (a, b) = ((Ret (if okm then QUEUE_OK else QUEUE_SIZE_MISMATCH), h), ?a, b')"
      using False Cons by (simp add: aq_do_def Let_def st)
    moreover have "queue_rel (Suc k) (s\<lparr>s_pool := s_pool s, s_queues := (s_queues s)[?i := ?q']\<rparr>) ?a"
      by (rule queue_rel_update [OF rel h(2) r(1)]) (use q(2) in \<open>simp_all add: area_def\<close>)
    ultimately show ?thesis by (auto simp: simulated_def)
  qed
qed

lemma sim_call:
  assumes "queue_rel k s a" "call_ok c" "Suc k < 4294967296" "set_buff_spec setBuff store"
  shows "simulated k setBuff store c s a b"
  using assms by (cases c) (simp_all add: sim_create sim_send sim_receive)

lemma queue_run_refines:
  assumes "queue_rel k s a" "\<forall>c \<in> set cs. call_ok c" "k + length cs < 4294967296" "set_buff_spec setBuff store"
  shows "\<exists>s' k'. queue_run setBuff cs (s, b) = Some (fst (aq_run store cs (a, b)), s', snd (snd (aq_run store cs (a, b))))
    \<and> queue_rel k' s' (fst (snd (aq_run store cs (a, b)))) \<and> irq_mask s' = irq_mask s"
  using assms(1-3)
proof (induction cs arbitrary: k s a b)
  case Nil
  then show ?case by auto
next
  case (Cons c cs)
  have "simulated k setBuff store c s a b" using Cons.prems assms(4) by (intro sim_call) auto
  then obtain r s1 a1 b1 where c: "aq_do store c (a, b) = (r, a1, b1)" "queue_do setBuff c (s, b) = Some (r, s1, b1)"
    "queue_rel (Suc k) s1 a1" "irq_mask s1 = irq_mask s" by (auto simp: simulated_def)
  show ?case
  proof (cases "fst r = AssertFailed")
    case True
    with c show ?thesis by auto
  next
    case False
    obtain rs x where "aq_run store cs (a1, b1) = (rs, x)" by (cases "aq_run store cs (a1, b1)") auto
    with Cons.IH [OF c(3), of b1] Cons.prems False c show ?thesis by (auto split: prod.splits)
  qed
qed

lemma queue_rel_init: "queue_rel 0 (queues_init irq) aqueues_init"
  by (simp add: queue_rel_def queues_init_def aqueues_init_def MAX_QUEUES_def queue_zero_def q_rel_def area_def)

text \<open>
  C18: Message queues are bounded FIFOs that do not disturb each other: over every sequence of
  \<open>create\<close>, \<open>send\<close> and \<open>receive\<close> calls on up to eight queues, the statuses, handles and received
  messages are those of independent lists of messages with the capacities given to \<open>create\<close>. No
  access leaves the pool and interrupts are as before every call. The limits: fewer than \<open>2^32\<close>
  calls, and queue sizes whose product does not wrap.
\<close>

theorem os_queues_fifo:
  assumes "\<forall>c \<in> set cs. call_ok c" "length cs < 4294967296" "set_buff_spec setBuff store"
  shows "\<exists>s'. queue_run setBuff cs (queues_init irq, b)
      = Some (fst (aq_run store cs (aqueues_init, b)), s', snd (snd (aq_run store cs (aqueues_init, b))))
    \<and> irq_mask s' = irq"
  using queue_run_refines [OF queue_rel_init assms(1) _ assms(3), of irq b] assms(2)
  by (auto simp: queues_init_def)

text \<open>A buffer of 32 bytes, as a list.\<close>

definition buffer_set :: "bytes set_buff" where
  "buffer_set b src len =
     (if unat len \<le> 32 then map_option (Pair True) (those (map src [0..<unat len])) else Some (False, b))"

definition buffer_store :: "bytes \<Rightarrow> bytes \<Rightarrow> bool \<times> bytes" where
  "buffer_store b m = (if length m \<le> 32 then (True, m) else (False, b))"

lemma those_Some: "(\<And>i. i < length m \<Longrightarrow> f i = Some (m ! i)) \<Longrightarrow> those (map f [0..<length m]) = Some m"
proof (induction m rule: rev_induct)
  case Nil
  then show ?case by simp
next
  case (snoc x xs)
  have "those (ys @ [Some y]) = map_option (\<lambda>zs. zs @ [y]) (those ys)" for ys and y :: 'a
    by (induction ys) (auto split: option.splits simp: option.map_comp comp_def)
  moreover have "those (map f [0..<length xs]) = Some xs"
    using snoc.prems by (intro snoc.IH) (metis length_append_singleton less_SucI nth_append)
  moreover have "f (length xs) = Some x" using snoc.prems [of "length xs"] by simp
  ultimately show ?case by simp
qed

lemma buffer_set_spec: "set_buff_spec buffer_set buffer_store"
  by (auto simp: set_buff_spec_def buffer_set_def buffer_store_def unat_of_nat_u32 those_Some)

lemma os_queues_fifo_witness:
  "\<exists>s'. queue_run buffer_set [QCreate 1 4, QCreate 2 4, QSend 1 [65], QSend 1 [66, 67], QSend 1 [68], QReceive 1] (queues_init 0, [])
    = Some ([(Ret QUEUE_OK, 0), (Ret QUEUE_OK, 1), (Ret QUEUE_OK, 1), (Ret QUEUE_OK, 1), (Ret QUEUE_FULL, 1), (Ret QUEUE_OK, 1)], s', [65])
    \<and> irq_mask s' = 0"
proof -
  let ?cs = "[QCreate 1 4, QCreate 2 4, QSend 1 [65], QSend 1 [66, 67], QSend 1 [68], QReceive 1]"
  have "\<forall>c \<in> set ?cs. call_ok c" by (simp add: call_ok_def)
  moreover have "fst (aq_run buffer_store ?cs (aqueues_init, []))
      = [(Ret QUEUE_OK, 0), (Ret QUEUE_OK, 1), (Ret QUEUE_OK, 1), (Ret QUEUE_OK, 1), (Ret QUEUE_FULL, 1), (Ret QUEUE_OK, 1)]
    \<and> snd (snd (aq_run buffer_store ?cs (aqueues_init, []))) = [65]" by code_simp
  ultimately show ?thesis using os_queues_fifo [of ?cs buffer_set buffer_store 0 "[]"] buffer_set_spec by simp
qed

text \<open>
  The first queue a program creates gets the handle 0, which as a pointer is \<open>nullptr\<close>: the
  creation reports success, and every later operation on that queue fails its assertion.
\<close>

theorem first_queue_unusable:
  assumes "0 < d" "0 < m" "d * (m + 4) \<le> 8192"
  shows "\<exists>s. Queue_create d m 0 (queues_init irq) = Some (Ret QUEUE_OK, 0, s) \<and> s_queue_count s = 1
    \<and> Queue_send 0 data s = Some (AssertFailed, s) \<and> Queue_receive setBuff 0 b p s = Some (AssertFailed, b, p, s)
    \<and> Queue_getNumMsgs 0 s = Some AssertFailed \<and> Queue_getQueueSize 0 s = Some AssertFailed"
proof -
  have "1 * (m + 4) \<le> d * (m + 4)" using assms by (intro mult_right_mono) auto
  from order_trans [OF this assms(3)] have "m + 4 \<le> 8192" by simp
  then have ok: "call_ok (QCreate d m)" using assms by (simp add: call_ok_def)
  have fits: "nat d * (nat m + 4) \<le> 8192"
  proof -
    have "int (nat d * (nat m + 4)) = d * (m + 4)" using assms by simp
    then show ?thesis using assms(3) by linarith
  qed
  obtain r s' a' b' where r: "aq_do (\<lambda>b m. (True, b)) (QCreate d m) (aqueues_init, ()) = (r, a', b')"
    "queue_do (\<lambda>b src len. None) (QCreate d m) (queues_init irq, ()) = Some (r, s', b')" "queue_rel 1 s' a'"
    using sim_create [OF queue_rel_init ok, of "\<lambda>b src len. None" "\<lambda>b m. (True, b)" irq "()"] by (auto simp: simulated_def)
  then have "Queue_create d m 0 (queues_init irq) = Some (Ret QUEUE_OK, 0, s')" "aq_created a' = 1"
    using assms fits by (auto simp: aq_do_def aqueues_init_def queue_do_def split: bind_splits prod.splits)
  then show ?thesis
    using r(3) by (auto simp: Queue_send_def Queue_receive_def Queue_getNumMsgs_def Queue_getQueueSize_def Queue_query_def queue_rel_def)
qed

lemma first_queue_unusable_witness:
  "\<exists>s. Queue_create 10 64 0 (queues_init 0) = Some (Ret QUEUE_OK, 0, s) \<and> Queue_send 0 [65] s = Some (AssertFailed, s)"
  using first_queue_unusable [of 10 64 0 "[65]" buffer_set "[]" 0] by auto

text \<open>
  The size check of \<open>create\<close> wraps modulo \<open>2^32\<close>: a queue of 268435456 messages of 12 bytes is
  granted with no memory at all, the next queue gets the same bytes, and a message sent to the one is
  received from the other.
\<close>

theorem create_size_wraps:
  "map_option (\<lambda>(rs, s, b). (rs, map q_buf (take 3 (s_queues s)), b))
     (queue_run buffer_set [QCreate 1 4, QCreate 268435456 12, QCreate 4 12, QSend 1 [65], QSend 2 [66], QReceive 1] (queues_init 0, []))
   = Some ([(Ret QUEUE_OK, 0), (Ret QUEUE_OK, 1), (Ret QUEUE_OK, 2), (Ret QUEUE_OK, 1), (Ret QUEUE_OK, 2), (Ret QUEUE_OK, 1)],
       [0, 8, 8], [66])"
  by (simp add: queue_do_def Queue_create_def Queue_send_def Queue_receive_def queues_init_def MAX_QUEUES_def
    QUEUE_POOL_BYTES_def i32_def queue_at_def set_queue_def save_and_disable_interrupts_def restore_interrupts_def Let_def
    pool_wr_def pool_rd_def buffer_set_def queue_zero_def)
    (rule conjI, simp add: word_le_nat_alt, simp add: numeral_eq_Suc)

subsection \<open>The order of messages when the counters wrap\<close>

lemmas queue_eval = queue_do_def Queue_create_def Queue_send_def Queue_receive_def MAX_QUEUES_def
    QUEUE_POOL_BYTES_def i32_def queue_at_def set_queue_def save_and_disable_interrupts_def restore_interrupts_def Let_def
    pool_wr_def pool_rd_def buffer_set_def

abbreviation ring3 :: "u32 \<Rightarrow> queue_impl" where
  "ring3 t \<equiv> \<lparr>q_buf = 8, q_capacity = 24, q_msg_size = 4, q_depth = 3, q_head = t, q_tail = t, q_count = 0\<rparr>"

lemma mod3: "t mod 3 = 0 \<or> t mod 3 = 1 \<or> t mod 3 = 2" for t :: u32
proof -
  have "unat (t mod 3) < 3" by (simp add: unat_mod_distrib)
  then have "unat (t mod 3) = 0 \<or> unat (t mod 3) = 1 \<or> unat (t mod 3) = 2" by linarith
  then show ?thesis by (simp add: word_unat_eq_iff)
qed

lemma ring3_cycle:
  assumes "length (s_queues s) = 8" "s_queues s ! 1 = ring3 t"
  shows "\<exists>s'. queue_run buffer_set [QSend 1 [7], QReceive 1] (s, b) = Some ([(Ret QUEUE_OK, 1), (Ret QUEUE_OK, 1)], s', [7])
    \<and> length (s_queues s') = 8 \<and> s_queues s' ! 1 = ring3 (t + 1)"
  using assms mod3 [of t]
  by (elim disjE) (simp_all add: queue_eval)


text \<open>Runs without a failed assertion compose.\<close>

lemma queue_run_append:
  "queue_run setBuff cs x = Some (rs, y) \<Longrightarrow> \<forall>r \<in> set rs. fst r \<noteq> AssertFailed \<Longrightarrow>
     queue_run setBuff (cs @ ds) x = map_option (\<lambda>(rs', z). (rs @ rs', z)) (queue_run setBuff ds y)"
proof (induction cs arbitrary: x rs)
  case Nil
  then show ?case by (auto simp: option.map_ident_strong split: prod.splits)
next
  case (Cons c cs)
  from Cons.prems(1) obtain r x1 where c: "queue_do setBuff c x = Some (r, x1)" by (auto simp: Option.bind_eq_Some_conv)
  have "fst r \<noteq> AssertFailed" using Cons.prems c by (auto split: if_splits)
  with Cons.prems(1) c obtain rs1 where "queue_run setBuff cs x1 = Some (rs1, y)" "rs = r # rs1"
    by (auto simp: Option.bind_eq_Some_conv)
  with Cons.IH [of x1 rs1] Cons.prems(2) c \<open>fst r \<noteq> AssertFailed\<close> show ?case
    by (auto simp: option.map_comp comp_def split: option.splits bind_splits)
qed

text \<open>A message sent and received again, \<open>n\<close> times.\<close>

definition send_receive :: "nat \<Rightarrow> queue_call list" where
  "send_receive n = concat (replicate n [QSend 1 [7], QReceive 1])"

lemma send_receive_Suc: "send_receive (Suc n) = send_receive n @ [QSend 1 [7], QReceive 1]"
  unfolding send_receive_def by (induction n) auto

lemma ring3_cycles:
  assumes "length (s_queues s) = 8" "s_queues s ! 1 = ring3 0"
  shows "\<exists>rs s' b'. queue_run buffer_set (send_receive n) (s, b) = Some (rs, s', b') \<and> (\<forall>r \<in> set rs. fst r = Ret QUEUE_OK)
    \<and> length (s_queues s') = 8 \<and> s_queues s' ! 1 = ring3 (of_nat n)"
proof (induction n)
  case 0
  then show ?case using assms by (simp add: send_receive_def)
next
  case (Suc n)
  then obtain rs s1 b1 where r: "queue_run buffer_set (send_receive n) (s, b) = Some (rs, s1, b1)"
    "\<forall>r \<in> set rs. fst r = Ret QUEUE_OK" "length (s_queues s1) = 8" "s_queues s1 ! 1 = ring3 (of_nat n)" by blast
  from ring3_cycle [OF r(3,4), of b1] obtain s2 where
    "queue_run buffer_set [QSend 1 [7], QReceive 1] (s1, b1) = Some ([(Ret QUEUE_OK, 1), (Ret QUEUE_OK, 1)], s2, [7])"
    "length (s_queues s2) = 8" "s_queues s2 ! 1 = ring3 (of_nat n + 1)" by blast
  with queue_run_append [OF r(1), of "[QSend 1 [7], QReceive 1]"] r(2) show ?case
    by (auto simp: send_receive_Suc add.commute simp del: queue_run.simps)
qed

lemma small_words: "\<not> (3 :: u32) \<le> 1" "\<not> (8 :: u32) \<le> 1"
  by (simp_all add: word_le_nat_alt)

lemma ring3_wraps:
  assumes "length (s_queues s) = 8" "s_queues s ! 1 = ring3 (- 1)"
  shows "\<exists>s'. queue_run buffer_set [QSend 1 [65], QSend 1 [66], QReceive 1] (s, b)
    = Some ([(Ret QUEUE_OK, 1), (Ret QUEUE_OK, 1), (Ret QUEUE_OK, 1)], s', [66])"
  using assms by (simp add: queue_eval small_words)

text \<open>
  After \<open>2^32\<close> messages the order breaks. On a queue of depth 3, send and receive one message
  \<open>2^32 - 1\<close> times and then send A and B: the head counter wraps between the two, both are written to the same slot, and
  the first receive returns B. Every call reports success.
\<close>

theorem queue_order_breaks:
  "\<exists>rs s. queue_run buffer_set
      ([QCreate 1 4, QCreate 3 4] @ send_receive 4294967295 @ [QSend 1 [65], QSend 1 [66], QReceive 1]) (queues_init 0, [])
      = Some (rs, s, [66])
    \<and> list_all (\<lambda>r. fst r = Ret QUEUE_OK) rs"
proof -
  obtain s where s: "queue_run buffer_set [QCreate 1 4, QCreate 3 4] (queues_init 0, [])
      = Some ([(Ret QUEUE_OK, 0), (Ret QUEUE_OK, 1)], s, [])" "length (s_queues s) = 8" "s_queues s ! 1 = ring3 0"
    by (simp add: queue_eval queues_init_def queue_zero_def small_words)
  obtain rs s1 b1 where r: "queue_run buffer_set (send_receive 4294967295) (s, []) = Some (rs, s1, b1)"
    "\<forall>r \<in> set rs. fst r = Ret QUEUE_OK" "length (s_queues s1) = 8" "s_queues s1 ! 1 = ring3 (of_nat 4294967295)"
    using ring3_cycles [OF s(2,3), of 4294967295 "[]"] by blast
  have "(of_nat 4294967295 :: u32) = - 1" by simp
  with ring3_wraps [OF r(3), of b1] r(4) obtain s2 where
    w: "queue_run buffer_set [QSend 1 [65], QSend 1 [66], QReceive 1] (s1, b1)
      = Some ([(Ret QUEUE_OK, 1), (Ret QUEUE_OK, 1), (Ret QUEUE_OK, 1)], s2, [66])" by auto
  have "queue_run buffer_set (send_receive 4294967295 @ [QSend 1 [65], QSend 1 [66], QReceive 1]) (s, [])
      = Some (rs @ [(Ret QUEUE_OK, 1), (Ret QUEUE_OK, 1), (Ret QUEUE_OK, 1)], s2, [66])"
    using queue_run_append [OF r(1), of "[QSend 1 [65], QSend 1 [66], QReceive 1]"] r(2) w by (auto simp del: queue_run.simps)
  with queue_run_append [OF s(1), of "send_receive 4294967295 @ [QSend 1 [65], QSend 1 [66], QReceive 1]"] r(2) show ?thesis
    by (auto simp: list_all_iff simp del: queue_run.simps)
qed

end
