(* ===== verification/MainLoop.thy ===== *)
theory MainLoop
  imports Prelude
begin

text \<open>
  The main loop of \<open>Top/main.cpp\<close> and the rate-group wiring of \<open>Top/PipiCubeTopology.cpp\<close> and
  \<open>Top/PipiCubeTopology.fpp\<close>. The loop and the timer interrupt share the flag \<open>s_cycle_flag\<close>; the
  interrupt may come between any two statements of the loop, so a run is given by an arbitrary
  sequence of interrupts and loop statements. What the statements do to the rest of the firmware
  (the watchdog kick, the rate groups behind \<open>tick\<close>) is the state \<open>'s\<close> and two parameters, which
  \<open>Firmware\<close> instantiates with the components. The log of a run is not a variable of the program.
\<close>

subsection \<open>The cycle flag\<close>

datatype main_pc = Waiting | Clearing | Kicking | Ticking

datatype main_event = Fired | Cleared | Kicked | Ticked

record 's main_state =
  s_cycle_flag :: bool
  main_pc :: main_pc
  main_app :: 's
  main_log :: "main_event list"

definition main_start :: "'s \<Rightarrow> 's main_state" where
  "main_start s = \<lparr>s_cycle_flag = False, main_pc = Waiting, main_app = s, main_log = []\<rparr>"

definition rate_timer_callback :: "'s main_state \<Rightarrow> bool \<times> 's main_state" where
  "rate_timer_callback m = (True, m\<lparr>s_cycle_flag := True, main_log := main_log m @ [Fired]\<rparr>)"

text \<open>One statement of the loop: the test of the inner \<open>while\<close>, the clearing of the flag, the kick, the tick.\<close>

definition main_next :: "('s \<Rightarrow> 's) \<Rightarrow> ('s \<Rightarrow> 's option) \<Rightarrow> 's main_state \<Rightarrow> 's main_state option" where
  "main_next kick tick m =
     (case main_pc m of
        Waiting \<Rightarrow> Some (if \<not> s_cycle_flag m then m else m\<lparr>main_pc := Clearing\<rparr>)
      | Clearing \<Rightarrow> Some (m\<lparr>s_cycle_flag := False, main_pc := Kicking, main_log := main_log m @ [Cleared]\<rparr>)
      | Kicking \<Rightarrow> Some (m\<lparr>main_app := kick (main_app m), main_pc := Ticking, main_log := main_log m @ [Kicked]\<rparr>)
      | Ticking \<Rightarrow> do {
          s \<leftarrow> tick (main_app m);
          Some (m\<lparr>main_app := s, main_pc := Waiting, main_log := main_log m @ [Ticked]\<rparr>) })"

datatype main_actor = TimerIrq | LoopStep

definition main_act :: "('s \<Rightarrow> 's) \<Rightarrow> ('s \<Rightarrow> 's option) \<Rightarrow> main_actor \<Rightarrow> 's main_state \<Rightarrow> 's main_state option" where
  "main_act kick tick a m =
     (case a of TimerIrq \<Rightarrow> Some (snd (rate_timer_callback m)) | LoopStep \<Rightarrow> main_next kick tick m)"

definition main_exec :: "('s \<Rightarrow> 's) \<Rightarrow> ('s \<Rightarrow> 's option) \<Rightarrow> main_actor list \<Rightarrow> 's main_state \<Rightarrow> 's main_state option" where
  "main_exec kick tick = foldM (main_act kick tick)"

lemmas main_act_defs = main_act_def main_next_def rate_timer_callback_def

subsection \<open>The shape of a run\<close>

text \<open>
  Kicks and ticks alternate, starting with a kick; every clearing of the flag, and so every round,
  has used up at least one interrupt; the flag is set iff an interrupt came after the last clearing.
\<close>

definition rounds :: "main_event list \<Rightarrow> main_event list" where
  "rounds log = filter (\<lambda>e. e = Kicked \<or> e = Ticked) log"

definition fired_since_clear :: "main_event list \<Rightarrow> bool" where
  "fired_since_clear log \<longleftrightarrow> Fired \<in> set (takeWhile (\<lambda>e. e \<noteq> Cleared) (rev log))"

definition main_inv :: "'s main_state \<Rightarrow> bool" where
  "main_inv m \<longleftrightarrow>
     (let log = main_log m; n = count_list log Ticked; begun = (if main_pc m = Ticking then 1 else 0) in
      rounds log = concat (replicate n [Kicked, Ticked]) @ replicate begun Kicked
      \<and> count_list log Cleared = n + begun + (if main_pc m = Kicking then 1 else 0)
      \<and> count_list log Cleared + (if s_cycle_flag m then 1 else 0) \<le> count_list log Fired
      \<and> (s_cycle_flag m \<longleftrightarrow> fired_since_clear log)
      \<and> (main_pc m = Clearing \<longrightarrow> s_cycle_flag m))"

lemma log_snoc [simp]:
  "rounds (log @ [e]) = rounds log @ (if e = Kicked \<or> e = Ticked then [e] else [])"
  "fired_since_clear (log @ [e]) = (e = Fired \<or> (e \<noteq> Cleared \<and> fired_since_clear log))"
  by (auto simp: rounds_def fired_since_clear_def)

lemma concat_replicate_snoc: "concat (replicate n xs) @ xs = concat (replicate (Suc n) xs)"
  by (induction n) auto

lemma main_inv_start: "main_inv (main_start s)"
  by (simp add: main_inv_def main_start_def rounds_def fired_since_clear_def)

lemma main_inv_act:
  assumes "main_inv m" "main_act kick tick a m = Some m'"
  shows "main_inv m'"
proof (cases a)
  case TimerIrq
  with assms show ?thesis by (auto simp: main_act_defs main_inv_def Let_def split: if_splits)
next
  case LoopStep
  with assms concat_replicate_snoc [of _ "[Kicked, Ticked]"] show ?thesis
    by (cases "main_pc m")
      (auto simp: main_act_defs main_inv_def Let_def Option.bind_eq_Some_conv split: if_splits)
qed

lemma main_inv_exec: "main_inv m \<Longrightarrow> main_exec kick tick as m = Some m' \<Longrightarrow> main_inv m'"
  unfolding main_exec_def
  by (induction as arbitrary: m) (auto simp: Option.bind_eq_Some_conv dest: main_inv_act)

subsection \<open>Every interrupt is served\<close>

text \<open>
  How many loop statements are left before a kick, once one is due: the flag is set, or the loop
  has just seen it.
\<close>

definition kick_due :: "'s main_state \<Rightarrow> bool" where
  "kick_due m \<longleftrightarrow> s_cycle_flag m \<or> main_pc m = Clearing \<or> main_pc m = Kicking"

definition kick_rank :: "main_pc \<Rightarrow> nat" where
  "kick_rank pc = (case pc of Kicking \<Rightarrow> 1 | Clearing \<Rightarrow> 2 | Waiting \<Rightarrow> 3 | Ticking \<Rightarrow> 4)"

abbreviation loop_steps :: "main_actor list \<Rightarrow> nat" where
  "loop_steps as \<equiv> count_list as LoopStep"

lemma main_exec_Cons:
  "main_exec kick tick (a # as) m = Some m' \<longleftrightarrow>
     (\<exists>m1. main_act kick tick a m = Some m1 \<and> main_exec kick tick as m1 = Some m')"
  by (simp add: main_exec_def Option.bind_eq_Some_conv)

lemma main_exec_log: "main_exec kick tick as m = Some m' \<Longrightarrow> \<exists>rest. main_log m' = main_log m @ rest"
proof (induction as arbitrary: m)
  case Nil
  then show ?case by (simp add: main_exec_def)
next
  case (Cons a as)
  then obtain m1 where m1: "main_act kick tick a m = Some m1" "main_exec kick tick as m1 = Some m'"
    by (auto simp: main_exec_Cons)
  have "\<exists>es. main_log m1 = main_log m @ es"
    using m1(1) by (cases a; cases "main_pc m") (auto simp: main_act_defs Option.bind_eq_Some_conv split: if_splits)
  with Cons.IH [OF m1(2)] show ?case by auto
qed

lemma tick_follows:
  assumes "main_exec kick tick as m = Some m'" "main_pc m = Ticking" "1 \<le> loop_steps as"
  shows "\<exists>rest. main_log m' = main_log m @ rest \<and> Ticked \<in> set rest"
  using assms
proof (induction as arbitrary: m)
  case Nil
  then show ?case by simp
next
  case (Cons a as)
  then obtain m1 where m1: "main_act kick tick a m = Some m1" "main_exec kick tick as m1 = Some m'"
    by (auto simp: main_exec_Cons)
  show ?case
  proof (cases a)
    case TimerIrq
    with m1(1) have "main_log m1 = main_log m @ [Fired]" "main_pc m1 = main_pc m" by (auto simp: main_act_defs)
    with Cons.IH [OF m1(2)] Cons.prems TimerIrq show ?thesis by auto
  next
    case LoopStep
    with m1(1) Cons.prems(2) have "main_log m1 = main_log m @ [Ticked]"
      by (auto simp: main_act_defs Option.bind_eq_Some_conv)
    with main_exec_log [OF m1(2)] show ?thesis by auto
  qed
qed

lemma kick_follows:
  assumes "main_exec kick tick as m = Some m'" "kick_due m" "Suc (kick_rank (main_pc m)) \<le> loop_steps as"
  shows "\<exists>pre post. main_log m' = main_log m @ pre @ Kicked # post \<and> Ticked \<in> set post"
  using assms
proof (induction as arbitrary: m)
  case Nil
  then show ?case by simp
next
  case (Cons a as)
  then obtain m1 where m1: "main_act kick tick a m = Some m1" "main_exec kick tick as m1 = Some m'"
    by (auto simp: main_exec_Cons)
  show ?case
  proof (cases "a = LoopStep \<and> main_pc m = Kicking")
    case True
    with m1(1) have k: "main_log m1 = main_log m @ [Kicked]" "main_pc m1 = Ticking" by (auto simp: main_act_defs)
    have "1 \<le> loop_steps as" using True Cons.prems(3) by (simp add: kick_rank_def)
    from tick_follows [OF m1(2) k(2) this] obtain rest where
      "main_log m' = main_log m1 @ rest" "Ticked \<in> set rest" by blast
    with k(1) show ?thesis by (intro exI [of _ "[]"] exI [of _ rest]) simp
  next
    case False
    have "kick_due m1 \<and> Suc (kick_rank (main_pc m1)) \<le> loop_steps as \<and> (\<exists>es. main_log m1 = main_log m @ es)"
      using m1(1) Cons.prems(2,3) False
      by (cases a; cases "main_pc m")
        (auto simp: main_act_defs kick_due_def kick_rank_def Option.bind_eq_Some_conv split: if_splits)
    with Cons.IH [OF m1(2)] show ?thesis by (metis append.assoc)
  qed
qed

subsection \<open>Rate groups\<close>

text \<open>
  \<open>s_rateDivs\<close> configures the two outputs of the framework's rate group driver (divisor, offset);
  the connection graphs \<open>RateGroups\<close>, \<open>Sched1Hz\<close> and \<open>Sched4Hz\<close> say which ports a group calls, in
  order. \<open>driver divs n\<close> are the outputs the driver calls at its \<open>n\<close>-th input, counted from 0.
\<close>

datatype sched_port = BatteryMonitorSchedIn | GpsReceiverSchedIn | TlmChanRun | CmdDispRun | LoraDriverSchedIn

definition s_rateDivs :: "(nat \<times> nat) list" where
  "s_rateDivs = [(1, 0), (4, 0)]"

definition rateGroup4Hz_members :: "sched_port list" where
  "rateGroup4Hz_members = [LoraDriverSchedIn]"

definition rateGroup1Hz_members :: "sched_port list" where
  "rateGroup1Hz_members = [BatteryMonitorSchedIn, GpsReceiverSchedIn, TlmChanRun, CmdDispRun]"

definition rate_group_of :: "nat \<Rightarrow> sched_port list" where
  "rate_group_of i = (if i = 0 then rateGroup4Hz_members else if i = 1 then rateGroup1Hz_members else [])"

definition scheduled :: "((nat \<times> nat) list \<Rightarrow> nat \<Rightarrow> nat list) \<Rightarrow> nat \<Rightarrow> sched_port list" where
  "scheduled driver n = concat (map rate_group_of (driver s_rateDivs n))"

text \<open>The documented behaviour of \<open>Svc::RateGroupDriver\<close>.\<close>

definition divider_driver :: "(nat \<times> nat) list \<Rightarrow> nat \<Rightarrow> nat list" where
  "divider_driver divs n = filter (\<lambda>i. n mod fst (divs ! i) = snd (divs ! i)) [0..<length divs]"

lemma scheduled_at:
  assumes "\<And>divs n. driver divs n = divider_driver divs n"
  shows "scheduled driver n = LoraDriverSchedIn
    # (if n mod 4 = 0 then [BatteryMonitorSchedIn, GpsReceiverSchedIn, TlmChanRun, CmdDispRun] else [])"
  by (simp add: scheduled_def assms divider_driver_def s_rateDivs_def rate_group_of_def
      rateGroup4Hz_members_def rateGroup1Hz_members_def)

lemma quarter_up: "(Suc n + 3) div 4 = (n + 3) div 4 + (if n mod 4 = 0 then 1 else 0)" for n :: nat
  by presburger

subsection \<open>Properties\<close>

text \<open>
  Whenever interrupts come, the main loop kicks the watchdog and ticks the rate groups strictly
  in turn, a kick first; it never does more rounds than there were interrupts, and the flag is set
  exactly when an interrupt has come since it was last cleared, so interrupts that come during a
  round are merged into one further round and not forgotten.
\<close>

theorem main_loop_rounds:
  assumes "main_exec kick tick as (main_start s) = Some m"
  shows "rounds (main_log m) = concat (replicate (count_list (main_log m) Ticked) [Kicked, Ticked])
      @ (if main_pc m = Ticking then [Kicked] else [])
    \<and> count_list (main_log m) Ticked + (if s_cycle_flag m then 1 else 0) \<le> count_list (main_log m) Fired
    \<and> (s_cycle_flag m \<longleftrightarrow> fired_since_clear (main_log m))"
  using main_inv_exec [OF main_inv_start assms] by (auto simp: main_inv_def Let_def split: if_splits)

lemma main_loop_rounds_witness:
  "\<exists>m. main_exec Suc Some [TimerIrq, LoopStep, LoopStep, TimerIrq, LoopStep, LoopStep] (main_start (0::nat)) = Some m
    \<and> rounds (main_log m) = [Kicked, Ticked] \<and> s_cycle_flag m \<and> main_app m = 1"
proof -
  obtain m where m: "main_exec Suc Some [TimerIrq, LoopStep, LoopStep, TimerIrq, LoopStep, LoopStep] (main_start (0::nat)) = Some m"
    "main_log m = [Fired, Cleared, Fired, Kicked, Ticked]" "main_pc m = Waiting" "main_app m = 1"
    by (simp add: main_exec_def main_act_defs main_start_def)
  from main_loop_rounds [OF m(1)] m(2-4) show ?thesis
    by (intro exI [of _ m]) (auto simp: fired_since_clear_def m(1))
qed

text \<open>
  C21: No timer interrupt is lost: in whatever state of the loop it comes, and however many more
  follow, the watchdog is kicked and then a whole tick completes after it, within five more
  statements of the loop (if the ticks among them return).
\<close>

theorem main_loop_serves:
  assumes "main_exec kick tick as (main_start s) = Some m"
    and "main_exec kick tick (TimerIrq # bs) m = Some m'" "5 \<le> loop_steps bs"
  shows "\<exists>pre post. main_log m' = main_log m @ Fired # pre @ Kicked # post \<and> Ticked \<in> set post"
proof -
  let ?m = "m\<lparr>s_cycle_flag := True, main_log := main_log m @ [Fired]\<rparr>"
  have "main_exec kick tick bs ?m = Some m'" using assms(2) by (simp add: main_exec_Cons main_act_defs)
  moreover have "kick_due ?m" by (simp add: kick_due_def)
  moreover have "Suc (kick_rank (main_pc ?m)) \<le> loop_steps bs"
    using assms(3) by (simp add: kick_rank_def split: main_pc.split)
  ultimately show ?thesis using kick_follows [of kick tick bs ?m m'] by auto
qed

lemma main_loop_serves_witness:
  "\<exists>m. main_exec Suc Some (TimerIrq # replicate 5 LoopStep) (main_start (0::nat)) = Some m
    \<and> (\<exists>pre post. main_log m = Fired # pre @ Kicked # post \<and> Ticked \<in> set post)"
proof -
  obtain m where m: "main_exec Suc Some (TimerIrq # replicate 5 LoopStep) (main_start (0::nat)) = Some m"
    by (simp add: main_exec_def main_act_defs main_start_def eval_nat_numeral)
  have "main_exec Suc Some [] (main_start (0::nat)) = Some (main_start 0)" "5 \<le> loop_steps (replicate 5 LoopStep)"
    by (simp_all add: main_exec_def eval_nat_numeral)
  from main_loop_serves [OF this(1) m this(2)] m show ?thesis by (simp add: main_start_def)
qed

text \<open>
  With the divider set of the topology and the documented rate group driver, over any number
  \<open>n\<close> of ticks the LoRa driver is scheduled \<open>n\<close> times and the battery monitor, the GPS receiver and the
  two services once per started group of four ticks, and at every fourth tick LoRa comes first.
\<close>

theorem rate_schedule:
  assumes "\<And>divs n. driver divs n = divider_driver divs n"
  shows "count_list (concat (map (scheduled driver) [0..<n])) LoraDriverSchedIn = n
    \<and> count_list (concat (map (scheduled driver) [0..<n])) BatteryMonitorSchedIn = (n + 3) div 4
    \<and> count_list (concat (map (scheduled driver) [0..<n])) GpsReceiverSchedIn = (n + 3) div 4
    \<and> count_list (concat (map (scheduled driver) [0..<n])) TlmChanRun = (n + 3) div 4
    \<and> count_list (concat (map (scheduled driver) [0..<n])) CmdDispRun = (n + 3) div 4
    \<and> scheduled driver (4 * n) = LoraDriverSchedIn # rateGroup1Hz_members"
proof -
  have "count_list (concat (map (scheduled driver) [0..<n])) p
      = (if p = LoraDriverSchedIn then n else (n + 3) div 4)" for p
    using quarter_up by (induction n; cases p) (simp_all add: scheduled_at [OF assms])
  then show ?thesis by (simp add: scheduled_at [OF assms] rateGroup1Hz_members_def)
qed

lemma rate_schedule_witness:
  "count_list (concat (map (scheduled divider_driver) [0..<8])) LoraDriverSchedIn = 8
    \<and> count_list (concat (map (scheduled divider_driver) [0..<8])) GpsReceiverSchedIn = 2"
  using rate_schedule [of divider_driver 8, OF refl] by simp

end
