(* ===== verification/Firmware.thy ===== *)
theory Firmware
  imports Battery GpsStream LoraRun MainLoop
begin

text \<open>
  The whole firmware: start-up and main loop of \<open>Top/main.cpp\<close>, \<open>BaremetalTimer::tick\<close> and the
  handlers of the three components, on one hardware state. The F' framework between
  \<open>CycleOut_out\<close> and the handlers (rate groups, queues, command dispatcher) and the set-up code
  it generates are not part of the repository. What they do is a parameter: the list of the handlers they run
  in each tick, with their arguments, in order. The theorems hold for every such list.
\<close>

subsection \<open>State and handlers\<close>

record 'd firmware =
  batteryMonitor :: battery
  gpsReceiver :: gps
  loraDriver :: lora
  i2c_bus :: 'd
  hw :: world

datatype fw_call =
    BatteryCall bat_call
  | GpsSched
  | GpsReset u32 u32
  | GpsSetEnabled u32 u32 bool
  | LoraPreamble
  | LoraSched
  | LoraDataIn bytes
  | LoraSendAt u32 u32 bytes
  | LoraSetFreq u32 u32 u32
  | LoraSetSf u32 u32 u8
  | LoraSetPower u32 u32 u8
  | LoraReset u32 u32

text \<open>A handler of the LoRa driver or of the GPS receiver, run on its part of the state.\<close>

definition with_lora :: "(lora \<Rightarrow> world \<Rightarrow> (lora \<times> world) option) \<Rightarrow> 'd firmware \<Rightarrow> 'd firmware option" where
  "with_lora f s = do { (l, w) \<leftarrow> f (loraDriver s) (hw s); Some (s\<lparr>loraDriver := l, hw := w\<rparr>) }"

definition with_gps :: "(gps \<Rightarrow> world \<Rightarrow> (gps \<times> world) option) \<Rightarrow> 'd firmware \<Rightarrow> 'd firmware option" where
  "with_gps f s = do { (g, w) \<leftarrow> f (gpsReceiver s) (hw s); Some (s\<lparr>gpsReceiver := g, hw := w\<rparr>) }"

definition fw_handle :: "'d i2c_sdk \<Rightarrow> fw_call \<Rightarrow> 'd firmware \<Rightarrow> 'd firmware option" where
  "fw_handle sdk c s =
     (case c of
        BatteryCall bc \<Rightarrow> do {
          (b, d) \<leftarrow> bat_handle sdk bc (batteryMonitor s, i2c_bus s);
          Some (s\<lparr>batteryMonitor := b, i2c_bus := d\<rparr>) }
      | GpsSched \<Rightarrow> with_gps gps_schedIn_handler s
      | GpsReset opCode cmdSeq \<Rightarrow> with_gps (GPS_RESET_cmdHandler opCode cmdSeq) s
      | GpsSetEnabled opCode cmdSeq enabled \<Rightarrow>
          Some (s\<lparr>gpsReceiver := GPS_SET_ENABLED_cmdHandler opCode cmdSeq enabled (gpsReceiver s)\<rparr>)
      | LoraPreamble \<Rightarrow> with_lora preamble s
      | LoraSched \<Rightarrow> with_lora lora_schedIn_handler s
      | LoraDataIn payload \<Rightarrow> with_lora (dataIn_handler payload) s
      | LoraSendAt opCode cmdSeq cmd \<Rightarrow> with_lora (LORA_SEND_AT_cmdHandler opCode cmdSeq (cmd @ [0])) s
      | LoraSetFreq opCode cmdSeq freqKHz \<Rightarrow> with_lora (LORA_SET_FREQ_cmdHandler opCode cmdSeq freqKHz) s
      | LoraSetSf opCode cmdSeq sf \<Rightarrow> with_lora (LORA_SET_SF_cmdHandler opCode cmdSeq sf) s
      | LoraSetPower opCode cmdSeq powerDbm \<Rightarrow> with_lora (LORA_SET_POWER_cmdHandler opCode cmdSeq powerDbm) s
      | LoraReset opCode cmdSeq \<Rightarrow> with_lora (LORA_RESET_cmdHandler opCode cmdSeq) s)"

subsection \<open>Start-up and main loop\<close>

text \<open>
  Reset: the constructors have run, static memory is zero, nothing has been done to the hardware.
  The clock, the transmitters and the arriving bytes are those of the given hardware.
\<close>

definition fw_reset :: "world \<Rightarrow> 'd \<Rightarrow> 'd firmware" where
  "fw_reset w d =
     \<lparr>batteryMonitor = battery_init, gpsReceiver = gps_init, loraDriver = lora_init, i2c_bus = d,
      hw = w\<lparr>w_step := 0, w_reads := 0, s_rx0 := \<lparr>rb_buf = replicate 256 0, rb_head = 0, rb_tail = 0\<rparr>,
        s_rx1 := \<lparr>rb_buf = replicate 256 0, rb_head = 0, rb_tail = 0\<rparr>, w_tx0 := [], w_tx1 := [], w_calls := []\<rparr>\<rparr>"

definition hw_init :: "'d i2c_sdk \<Rightarrow> 'd firmware \<Rightarrow> 'd firmware" where
  "hw_init sdk s =
     (let w = sdk_do StdioInitAll (hw s);
          (rc, d) = hal_i2c1_init sdk (i2c_bus s);
          (rc, w) = hal_uart0_init w;
          (rc, w) = hal_uart1_init w;
          w = hal_watchdog_enable 2000 w
      in s\<lparr>i2c_bus := d, hw := w\<rparr>)"

text \<open>
  \<open>setupTopology\<close> runs generated code and starts the tasks; the handlers it causes are the first
  list of calls. The timer starts afterwards.
\<close>

definition main_setup :: "'d i2c_sdk \<Rightarrow> fw_call list \<Rightarrow> 'd firmware \<Rightarrow> 'd firmware option" where
  "main_setup sdk setup s = do {
     s \<leftarrow> foldM (fw_handle sdk) setup (hw_init sdk s);
     Some (s\<lparr>hw := sdk_do (AddRepeatingTimerMs 250) (hw s)\<rparr>) }"

definition fw_kick :: "'d firmware \<times> 'p \<Rightarrow> 'd firmware \<times> 'p" where
  "fw_kick s = (let (f, p) = s in (f\<lparr>hw := hal_watchdog_kick (hw f)\<rparr>, p))"

text \<open>\<open>tick\<close> calls the port \<open>CycleOut\<close>; the framework then runs the next list of handlers.\<close>

definition BaremetalTimer_tick ::
  "'d i2c_sdk \<Rightarrow> 'd firmware \<times> fw_call list list \<Rightarrow> ('d firmware \<times> fw_call list list) option" where
  "BaremetalTimer_tick sdk s =
     (case s of
        (f, []) \<Rightarrow> Some (f, [])
      | (f, calls # rest) \<Rightarrow> do { f \<leftarrow> foldM (fw_handle sdk) calls f; Some (f, rest) })"

text \<open>\<open>main\<close>: start-up, then the loop and the timer interrupt in any interleaving.\<close>

definition fw_main ::
  "'d i2c_sdk \<Rightarrow> fw_call list \<Rightarrow> fw_call list list \<Rightarrow> main_actor list \<Rightarrow> 'd firmware
   \<Rightarrow> ('d firmware \<times> fw_call list list) main_state option" where
  "fw_main sdk setup ticks acts s = do {
     s \<leftarrow> main_setup sdk setup s;
     main_exec fw_kick (BaremetalTimer_tick sdk) acts (main_start (s, ticks)) }"

subsection \<open>What every handler keeps\<close>

text \<open>A command string argument of at most 64 characters; the other arguments are arbitrary.\<close>

definition fw_call_ok :: "fw_call \<Rightarrow> bool" where
  "fw_call_ok c \<longleftrightarrow> (case c of LoraSendAt _ _ cmd \<Rightarrow> 0 \<notin> set cmd \<and> length cmd \<le> 64 | _ \<Rightarrow> True)"

definition fw_inv :: "'d firmware \<Rightarrow> bool" where
  "fw_inv s \<longleftrightarrow> gps_wf (gpsReceiver s) \<and> lora_wf (loraDriver s) \<and> world_wf (hw s) \<and> live_clock (w_clock (hw s))
     \<and> w_tx1 (hw s) = []"

text \<open>The SDK calls other than sleeping: a record of the watchdog and of the start-up.\<close>

definition control_calls :: "'d firmware \<Rightarrow> sdk_call list" where
  "control_calls s = filter (\<lambda>c. \<forall>ms. c \<noteq> SleepMs ms) (w_calls (hw s))"

definition fw_keeps :: "'d firmware \<Rightarrow> 'd firmware \<Rightarrow> bool" where
  "fw_keeps s s' \<longleftrightarrow> fw_inv s' \<and> control_calls s' = control_calls s"

lemma fw_keeps_refl: "fw_inv s \<Longrightarrow> fw_keeps s s"
  by (simp add: fw_keeps_def)

lemma fw_keeps_trans: "fw_keeps s s1 \<Longrightarrow> fw_keeps s1 s2 \<Longrightarrow> fw_keeps s s2"
  by (simp add: fw_keeps_def)

lemma sleeps_only: "filter (\<lambda>c. \<forall>ms. c \<noteq> SleepMs ms) (map SleepMs xs) = []"
  by (simp add: filter_empty_conv)

lemma wired_keeps:
  assumes "fw_inv s" "wired HAL_UART0 bs (hw s) w" "lora_wf l"
  shows "fw_keeps s (s\<lparr>loraDriver := l, hw := w\<rparr>)"
proof -
  have "tx_of HAL_UART1 w = tx_of HAL_UART1 (hw s)" using assms(2) by (auto simp: wired_def)
  then show ?thesis
    using assms by (auto simp: fw_keeps_def fw_inv_def control_calls_def wired_def tx_of_def same_hw_def sleeps_only)
qed

lemma later_keeps:
  assumes "fw_inv s" "later (hw s) w" "world_wf w" "gps_wf g" "lora_wf l"
  shows "fw_keeps s (s\<lparr>gpsReceiver := g, loraDriver := l, hw := w\<rparr>)"
  using assms by (auto simp: fw_keeps_def fw_inv_def control_calls_def later_def same_hw_def)

lemma at_command_keeps:
  assumes "fw_inv s" "at_command op seq text (loraDriver s) (hw s) r"
  shows "\<exists>l w. r = Some (l, w) \<and> fw_keeps s (s\<lparr>loraDriver := l, hw := w\<rparr>)"
  using assms wired_keeps by (fastforce simp: at_command_def)

lemma with_lora_keeps:
  assumes "\<exists>l w. f (loraDriver s) (hw s) = Some (l, w) \<and> fw_keeps s (s\<lparr>loraDriver := l, hw := w\<rparr>)"
  shows "\<exists>s'. with_lora f s = Some s' \<and> fw_keeps s s'"
  using assms by (auto simp: with_lora_def)

lemma fw_invD:
  assumes "fw_inv s"
  shows "world_wf (hw s)" "live_clock (w_clock (hw s))" "lora_wf (loraDriver s)" "gps_wf (gpsReceiver s)"
  using assms by (simp_all add: fw_inv_def)

lemma lora_call_keeps:
  assumes "fw_inv s"
  shows "\<exists>s'. with_lora preamble s = Some s' \<and> fw_keeps s s'"
    and "\<exists>s'. with_lora lora_schedIn_handler s = Some s' \<and> fw_keeps s s'"
    and "\<exists>s'. with_lora (dataIn_handler payload) s = Some s' \<and> fw_keeps s s'"
    and "0 \<notin> set cmd \<Longrightarrow> length cmd \<le> 64 \<Longrightarrow> \<exists>s'. with_lora (LORA_SEND_AT_cmdHandler op seq (cmd @ [0])) s = Some s' \<and> fw_keeps s s'"
    and "\<exists>s'. with_lora (LORA_SET_FREQ_cmdHandler op seq f) s = Some s' \<and> fw_keeps s s'"
    and "\<exists>s'. with_lora (LORA_SET_SF_cmdHandler op seq sf) s = Some s' \<and> fw_keeps s s'"
    and "\<exists>s'. with_lora (LORA_SET_POWER_cmdHandler op seq p) s = Some s' \<and> fw_keeps s s'"
    and "\<exists>s'. with_lora (LORA_RESET_cmdHandler op seq) s = Some s' \<and> fw_keeps s s'"
proof -
  note inv = fw_invD [OF assms]
  note keep = wired_keeps [OF assms]
  have refused: "fw_keeps s (s\<lparr>loraDriver := l, hw := hw s\<rparr>)" if "lora_wf l" for l
    using keep [OF _ that] sent_wired [OF sent_refl [OF inv(1)]] by blast
  have out: "lora_wf (loraDriver s\<lparr>lora_out := xs\<rparr>)" for xs using inv(3) by (simp add: lora_wf_def)
  show "\<exists>s'. with_lora preamble s = Some s' \<and> fw_keeps s s'"
    using preamble_returns [OF inv(1-3)] keep by (intro with_lora_keeps) blast
  show "\<exists>s'. with_lora (LORA_RESET_cmdHandler op seq) s = Some s' \<and> fw_keeps s s'"
    using LORA_RESET_returns [OF inv(1-3), of op seq] keep by (intro with_lora_keeps) blast
  show "\<exists>s'. with_lora lora_schedIn_handler s = Some s' \<and> fw_keeps s s'"
    using lora_schedIn_returns [OF inv(1,3)] later_wired [where u = HAL_UART0] keep by (intro with_lora_keeps) blast
  show "\<exists>s'. with_lora (dataIn_handler payload) s = Some s' \<and> fw_keeps s s'"
    using dataIn_returns [OF inv(1-3), of payload] keep refused
    by (intro with_lora_keeps) (auto simp: Let_def fw_keeps_refl [OF assms] split: if_splits)
  show "\<exists>s'. with_lora (LORA_SEND_AT_cmdHandler op seq (cmd @ [0])) s = Some s' \<and> fw_keeps s s'"
    if "0 \<notin> set cmd" "length cmd \<le> 64"
    using at_command_keeps [OF assms at_command_sendAT [OF inv(1-3) that(1)]] that(2)
    by (intro with_lora_keeps) (simp add: LORA_SEND_AT_cmdHandler_def)
  note config = config_commands_return [OF inv(1-3), of op seq f sf p]
  have at: "\<exists>s'. with_lora h s = Some s' \<and> fw_keeps s s'"
    if "at_command op seq str (loraDriver s) (hw s) (h (loraDriver s) (hw s))" for h str
    using at_command_keeps [OF assms that] by (rule with_lora_keeps)
  have no: "\<exists>s'. with_lora h s = Some s' \<and> fw_keeps s s'"
    if "h (loraDriver s) (hw s) = Some (loraDriver s\<lparr>lora_out := xs\<rparr>, hw s)" for h xs
    using that refused [OF out] by (simp add: with_lora_def)
  show "\<exists>s'. with_lora (LORA_SET_FREQ_cmdHandler op seq f) s = Some s' \<and> fw_keeps s s'"
    using config by (intro at) (rule conjunct1)
  show "\<exists>s'. with_lora (LORA_SET_SF_cmdHandler op seq sf) s = Some s' \<and> fw_keeps s s'"
  proof (cases "7 \<le> sf \<and> sf \<le> 12")
    case True
    show ?thesis using config [THEN conjunct2, THEN conjunct1] unfolding if_P [OF True] by (rule at)
  next
    case False
    show ?thesis using config [THEN conjunct2, THEN conjunct1] unfolding if_not_P [OF False] by (rule no)
  qed
  show "\<exists>s'. with_lora (LORA_SET_POWER_cmdHandler op seq p) s = Some s' \<and> fw_keeps s s'"
  proof (cases "p \<le> 22")
    case True
    show ?thesis using config [THEN conjunct2, THEN conjunct2] unfolding if_P [OF True] by (rule at)
  next
    case False
    show ?thesis using config [THEN conjunct2, THEN conjunct2] unfolding if_not_P [OF False] by (rule no)
  qed
qed

lemma gps_sched_keeps:
  assumes "fw_inv s" "with_gps gps_schedIn_handler s = Some s'"
  shows "fw_keeps s s'"
proof -
  note inv = fw_invD [OF assms(1)]
  obtain bs acc w' where d:
    "drain (hal_poll HAL_UART1) gps_byte 256 (gpsReceiver s) (hw s) = map_option (\<lambda>g. (g, w')) (foldM gps_byte bs (gpsReceiver s))"
    "world_wf w'" "later (hw s) w'"
    using uart1.drain_feeds [where ?'s = gps, OF inv(1), of 256] by blast
  have idle: "s\<lparr>gpsReceiver := gpsReceiver s, hw := hw s\<rparr> = s" by simp
  have run: "fw_keeps s (s\<lparr>gpsReceiver := g, hw := w'\<rparr>)" if "foldM gps_byte bs (gpsReceiver s) = Some g" for g
    using later_keeps [OF assms(1) d(3,2) _ inv(3), of g] gps_bytes_keep [OF that inv(4)] by simp
  from assms(2) show ?thesis
    using run d(1) fw_keeps_refl [OF assms(1)]
    by (cases "foldM gps_byte bs (gpsReceiver s)") (auto simp: with_gps_def gps_schedIn_drain [OF inv(1)] split: if_splits)
qed

lemma gps_command_keeps:
  assumes "fw_inv s"
  shows "\<exists>s'. with_gps (GPS_RESET_cmdHandler op seq) s = Some s' \<and> fw_keeps s s'"
    and "fw_keeps s (s\<lparr>gpsReceiver := GPS_SET_ENABLED_cmdHandler op seq e (gpsReceiver s)\<rparr>)"
proof -
  note inv = fw_invD [OF assms]
  obtain w' where w': "hal_uart_rx_flush HAL_UART1 (hw s) = Some w'" "world_wf w'" "later (hw s) w'"
    using hal_uart_rx_flush_spec [OF inv(1)] by blast
  have "gps_wf (gps_emit x (gpsReceiver s\<lparr>m_lineLen := 0, m_lastFixQuality := 0\<rparr>))" for x
    using inv(4) by (simp add: gps_wf_def gps_emit_def)
  from later_keeps [OF assms w'(3,2) this inv(3)] w'(1)
  show "\<exists>s'. with_gps (GPS_RESET_cmdHandler op seq) s = Some s' \<and> fw_keeps s s'"
    by (simp add: with_gps_def GPS_RESET_cmdHandler_def)
  have "gps_wf (GPS_SET_ENABLED_cmdHandler op seq e (gpsReceiver s))"
    using inv(4) by (simp add: GPS_SET_ENABLED_cmdHandler_def gps_wf_def gps_emit_def)
  from later_keeps [OF assms later_refl inv(1) this inv(3)]
  show "fw_keeps s (s\<lparr>gpsReceiver := GPS_SET_ENABLED_cmdHandler op seq e (gpsReceiver s)\<rparr>)" by simp
qed

text \<open>Every handler but the GPS tick is total; the GPS tick, where it is defined, keeps the invariant.\<close>

lemma fw_handle_safe:
  assumes "fw_inv s" "fw_call_ok c"
  shows "(\<exists>s'. fw_handle sdk c s = Some s' \<and> fw_keeps s s')
    \<or> (c = GpsSched \<and> gps_schedIn_handler (gpsReceiver s) (hw s) = None)"
proof (cases c)
  case (BatteryCall bc)
  obtain b d where "bat_handle sdk bc (batteryMonitor s, i2c_bus s) = Some (b, d)"
    using bat_handle_commands [of sdk bc "batteryMonitor s" "i2c_bus s"] by blast
  moreover have "fw_keeps s (s\<lparr>batteryMonitor := b, i2c_bus := d\<rparr>)"
    using assms(1) by (simp add: fw_keeps_def fw_inv_def control_calls_def)
  ultimately show ?thesis using BatteryCall by (simp add: fw_handle_def)
next
  case GpsSched
  show ?thesis
  proof (cases "with_gps gps_schedIn_handler s")
    case None
    with GpsSched show ?thesis by (auto simp: with_gps_def split: option.splits)
  next
    case (Some s')
    with GpsSched gps_sched_keeps [OF assms(1)] show ?thesis by (simp add: fw_handle_def)
  qed
next
  case (LoraSendAt op seq cmd)
  with assms lora_call_keeps(4) [OF assms(1)] show ?thesis by (auto simp: fw_handle_def fw_call_ok_def)
qed (use lora_call_keeps [OF assms(1)] gps_command_keeps [OF assms(1)] in \<open>simp_all add: fw_handle_def\<close>)

text \<open>
  A list of handlers either runs through or stops at a GPS tick, and then at a complete line among the bytes that
  came over UART1 that is a GGA sentence with a correct checksum and a run of digits in latitude, longitude, HDOP or altitude
  that the 32-bit arithmetic is not safe for (\<open>line_safe\<close>).
\<close>

definition gps_stops :: "'d i2c_sdk \<Rightarrow> fw_call list \<Rightarrow> 'd firmware \<Rightarrow> bool" where
  "gps_stops sdk calls s \<longleftrightarrow> (\<exists>pre post s1. calls = pre @ GpsSched # post \<and> foldM (fw_handle sdk) pre s = Some s1
     \<and> fw_inv s1 \<and> gps_schedIn_handler (gpsReceiver s1) (hw s1) = None
     \<and> (\<exists>bs L. subseq bs (line_input HAL_UART1 (hw s1) 256) \<and> Line L \<in> set (fst (assemble 99 (gps_pending (gpsReceiver s1)) bs))
        \<and> \<not> line_safe L))"

lemma gps_stopsI:
  assumes "foldM (fw_handle sdk) pre s = Some s1" "fw_inv s1" "gps_schedIn_handler (gpsReceiver s1) (hw s1) = None"
  shows "gps_stops sdk (pre @ GpsSched # post) s"
  using assms gps_tick_undefined [OF fw_invD(1,4) [OF assms(2)] assms(3)] unfolding gps_stops_def by blast

lemma fw_handles_safe:
  assumes "fw_inv s" "\<forall>c \<in> set calls. fw_call_ok c"
  shows "(\<exists>s'. foldM (fw_handle sdk) calls s = Some s' \<and> fw_keeps s s')
    \<or> foldM (fw_handle sdk) calls s = None \<and> gps_stops sdk calls s"
  using assms
proof (induction calls arbitrary: s)
  case Nil
  then show ?case by (simp add: fw_keeps_refl)
next
  case (Cons c calls)
  have ok: "fw_call_ok c" "\<forall>c \<in> set calls. fw_call_ok c" using Cons.prems(2) by simp_all
  from fw_handle_safe [OF Cons.prems(1) ok(1), of sdk] show ?case
  proof (elim disjE exE conjE)
    fix s1
    assume s1: "fw_handle sdk c s = Some s1" "fw_keeps s s1"
    have "fw_inv s1" using s1(2) by (simp add: fw_keeps_def)
    from Cons.IH [OF this ok(2)] show ?thesis
    proof (elim disjE exE conjE)
      fix s2
      assume "foldM (fw_handle sdk) calls s1 = Some s2" "fw_keeps s1 s2"
      with s1 fw_keeps_trans [OF s1(2)] show ?thesis by simp
    next
      assume n: "foldM (fw_handle sdk) calls s1 = None" and "gps_stops sdk calls s1"
      then obtain pre post s2 where "calls = pre @ GpsSched # post" "foldM (fw_handle sdk) pre s1 = Some s2" "fw_inv s2"
        "gps_schedIn_handler (gpsReceiver s2) (hw s2) = None" unfolding gps_stops_def by blast
      with s1(1) have "gps_stops sdk (c # calls) s" using gps_stopsI [of sdk "c # pre" s s2 post] by simp
      with n s1(1) show ?thesis by simp
    qed
  next
    assume g: "c = GpsSched" "gps_schedIn_handler (gpsReceiver s) (hw s) = None"
    then have "gps_stops sdk (c # calls) s" using Cons.prems(1) gps_stopsI [of sdk "[]" s s calls] by simp
    moreover have "fw_handle sdk c s = None" using g by (simp add: fw_handle_def with_gps_def)
    ultimately show ?thesis by simp
  qed
qed

subsection \<open>Runs of \<open>main\<close>\<close>

definition boot_calls :: "sdk_call list" where
  "boot_calls =
     [StdioInitAll,
      CriticalSectionInit HAL_UART0, UartInit HAL_UART0 115200, GpioSetFunctionUart 0, GpioSetFunctionUart 1,
      UartSetFormat8N1 HAL_UART0, UartSetFifoEnabled HAL_UART0 True, IrqSetExclusiveHandler HAL_UART0,
      IrqSetEnabled HAL_UART0 True, UartSetIrqEnables HAL_UART0 True False,
      CriticalSectionInit HAL_UART1, UartInit HAL_UART1 9600, GpioSetFunctionUart 4, GpioSetFunctionUart 5,
      UartSetFormat8N1 HAL_UART1, UartSetFifoEnabled HAL_UART1 True, IrqSetExclusiveHandler HAL_UART1,
      IrqSetEnabled HAL_UART1 True, UartSetIrqEnables HAL_UART1 True False,
      WatchdogEnable 2000 True]"

lemma hw_init_boot:
  assumes "live_clock (w_clock w)"
  shows "fw_inv (hw_init sdk (fw_reset w d)) \<and> control_calls (hw_init sdk (fw_reset w d)) = boot_calls"
proof -
  have uart: "UART0_BAUD = 115200" "UART1_BAUD = 9600" "UART0_TX_PIN = 0" "UART0_RX_PIN = 1" "UART1_TX_PIN = 4" "UART1_RX_PIN = 5"
    by (simp_all add: UART0_BAUD_def UART1_BAUD_def UART0_TX_PIN_def UART0_RX_PIN_def UART1_TX_PIN_def UART1_RX_PIN_def)
  obtain rc d' where i: "hal_i2c1_init sdk d = (rc, d')" by (cases "hal_i2c1_init sdk d") simp
  show ?thesis
    using assms gps_init_wf lora_init_wf
    by (simp add: hw_init_def fw_reset_def i hal_uart0_init_def hal_uart1_init_def uart0_init_hw_def uart1_init_hw_def
        hal_watchdog_enable_def sdk_do_def Let_def fw_inv_def world_wf_def rb_wf_def control_calls_def boot_calls_def uart)
qed

lemma main_setup_safe:
  assumes "live_clock (w_clock w)" "\<forall>c \<in> set setup. fw_call_ok c" "GpsSched \<notin> set setup"
  shows "\<exists>s. main_setup sdk setup (fw_reset w d) = Some s \<and> fw_inv s \<and> control_calls s = boot_calls @ [AddRepeatingTimerMs 250]"
proof -
  note boot = hw_init_boot [OF assms(1), of sdk d]
  have "\<not> gps_stops sdk setup (hw_init sdk (fw_reset w d))" using assms(3) by (auto simp: gps_stops_def)
  with fw_handles_safe [OF boot [THEN conjunct1] assms(2), of sdk] obtain s where
    s: "foldM (fw_handle sdk) setup (hw_init sdk (fw_reset w d)) = Some s" "fw_keeps (hw_init sdk (fw_reset w d)) s" by blast
  let ?s = "s\<lparr>hw := sdk_do (AddRepeatingTimerMs 250) (hw s)\<rparr>"
  have "control_calls ?s = control_calls s @ [AddRepeatingTimerMs 250]" by (simp add: control_calls_def sdk_do_def)
  moreover have "fw_inv ?s" using s(2) by (simp add: fw_keeps_def fw_inv_def sdk_do_def world_wf_def)
  ultimately show ?thesis using s boot by (simp add: main_setup_def fw_keeps_def)
qed

definition loop_inv :: "('d firmware \<times> fw_call list list) main_state \<Rightarrow> bool" where
  "loop_inv m \<longleftrightarrow> (case main_app m of (s, ticks) \<Rightarrow>
     fw_inv s \<and> (\<forall>c \<in> set (concat ticks). fw_call_ok c)
     \<and> control_calls s = boot_calls @ [AddRepeatingTimerMs 250] @ replicate (count_list (main_log m) Kicked) WatchdogUpdate)"

text \<open>The loop is about to run the handlers of a tick among which a GPS tick is undefined.\<close>

definition loop_stops :: "'d i2c_sdk \<Rightarrow> ('d firmware \<times> fw_call list list) main_state \<Rightarrow> bool" where
  "loop_stops sdk m \<longleftrightarrow> main_pc m = Ticking \<and> (\<exists>s calls more. main_app m = (s, calls # more) \<and> gps_stops sdk calls s)"

lemma replicate_snoc: "replicate n x @ [x] = replicate (Suc n) x"
  by (induction n) auto

lemma main_act_safe:
  assumes "loop_inv m"
  shows "(\<exists>m'. main_act fw_kick (BaremetalTimer_tick sdk) a m = Some m' \<and> loop_inv m')
    \<or> a = LoopStep \<and> main_act fw_kick (BaremetalTimer_tick sdk) a m = None \<and> loop_stops sdk m"
proof -
  obtain s ticks where app: "main_app m = (s, ticks)" by (cases "main_app m")
  with assms have inv: "fw_inv s" "\<forall>c \<in> set (concat ticks). fw_call_ok c"
    "control_calls s = boot_calls @ [AddRepeatingTimerMs 250] @ replicate (count_list (main_log m) Kicked) WatchdogUpdate"
    by (simp_all add: loop_inv_def)
  have kick: "fw_inv (s\<lparr>hw := hal_watchdog_kick (hw s)\<rparr>)"
    "control_calls (s\<lparr>hw := hal_watchdog_kick (hw s)\<rparr>) = control_calls s @ [WatchdogUpdate]"
    using inv(1) by (simp_all add: fw_inv_def control_calls_def hal_watchdog_kick_def sdk_do_def world_wf_def)
  show ?thesis
  proof (cases "a = LoopStep \<and> main_pc m = Ticking")
    case False
    then show ?thesis
      using app inv kick replicate_snoc [of _ WatchdogUpdate]
      by (cases a; cases "main_pc m") (auto simp: main_act_defs loop_inv_def fw_kick_def)
  next
    case True
    show ?thesis
    proof (cases ticks)
      case Nil
      with True app inv show ?thesis by (simp add: main_act_defs loop_inv_def BaremetalTimer_tick_def)
    next
      case (Cons calls more)
      have "\<forall>c \<in> set calls. fw_call_ok c" using inv(2) Cons by simp
      from fw_handles_safe [OF inv(1) this, of sdk] show ?thesis
      proof (elim disjE exE conjE)
        fix s'
        assume "foldM (fw_handle sdk) calls s = Some s'" "fw_keeps s s'"
        with True Cons app inv show ?thesis
          by (auto simp: main_act_defs loop_inv_def BaremetalTimer_tick_def fw_keeps_def)
      next
        assume "foldM (fw_handle sdk) calls s = None" "gps_stops sdk calls s"
        with True Cons app show ?thesis by (simp add: main_act_defs loop_stops_def BaremetalTimer_tick_def)
      qed
    qed
  qed
qed

lemma main_exec_safe:
  assumes "loop_inv m"
  shows "(\<exists>m'. main_exec fw_kick (BaremetalTimer_tick sdk) acts m = Some m' \<and> loop_inv m')
    \<or> main_exec fw_kick (BaremetalTimer_tick sdk) acts m = None
      \<and> (\<exists>as rest m1. acts = as @ LoopStep # rest \<and> main_exec fw_kick (BaremetalTimer_tick sdk) as m = Some m1
        \<and> loop_inv m1 \<and> loop_stops sdk m1)"
  using assms
proof (induction acts arbitrary: m)
  case Nil
  then show ?case by (simp add: main_exec_def)
next
  case (Cons a acts)
  let ?exec = "main_exec fw_kick (BaremetalTimer_tick sdk)"
  have step: "?exec (a # acts) m = (do { m1 \<leftarrow> main_act fw_kick (BaremetalTimer_tick sdk) a m; ?exec acts m1 })" for acts
    by (simp add: main_exec_def)
  from main_act_safe [OF Cons.prems, of sdk a] show ?case
  proof (elim disjE exE conjE)
    fix m1
    assume m1: "main_act fw_kick (BaremetalTimer_tick sdk) a m = Some m1" "loop_inv m1"
    then have e: "?exec (a # as) m = ?exec as m1" for as by (simp add: step)
    from Cons.IH [OF m1(2)] show ?thesis
    proof (elim disjE exE conjE)
      fix m'
      assume "?exec acts m1 = Some m'" "loop_inv m'"
      then show ?thesis by (simp add: e)
    next
      fix as rest m2
      assume n: "?exec acts m1 = None" and "acts = as @ LoopStep # rest" "?exec as m1 = Some m2" "loop_inv m2" "loop_stops sdk m2"
      then have "\<exists>as rest m1. a # acts = as @ LoopStep # rest \<and> ?exec as m = Some m1 \<and> loop_inv m1 \<and> loop_stops sdk m1"
        by (intro exI [of _ "a # as"] exI [of _ rest] exI [of _ m2]) (simp add: e)
      with n show ?thesis by (simp add: e)
    qed
  next
    assume s: "a = LoopStep" "main_act fw_kick (BaremetalTimer_tick sdk) a m = None" "loop_stops sdk m"
    then have "\<exists>as rest m1. a # acts = as @ LoopStep # rest \<and> ?exec as m = Some m1 \<and> loop_inv m1 \<and> loop_stops sdk m1"
      using Cons.prems by (intro exI [of _ "[]"] exI [of _ acts] exI [of _ m]) (simp add: main_exec_def)
    with s(2) show ?thesis by (simp add: step)
  qed
qed

lemma loop_inv_start:
  assumes "fw_inv s" "control_calls s = boot_calls @ [AddRepeatingTimerMs 250]" "\<forall>c \<in> set (concat ticks). fw_call_ok c"
  shows "loop_inv (main_start (s, ticks))"
  using assms by (simp add: loop_inv_def main_start_def)

lemma fw_main_safe:
  assumes "live_clock (w_clock w)" "\<forall>c \<in> set (setup @ concat ticks). fw_call_ok c" "GpsSched \<notin> set setup"
  shows "(\<exists>m. fw_main sdk setup ticks acts (fw_reset w d) = Some m \<and> loop_inv m \<and> main_inv m)
    \<or> fw_main sdk setup ticks acts (fw_reset w d) = None
      \<and> (\<exists>as rest m1. acts = as @ LoopStep # rest \<and> fw_main sdk setup ticks as (fw_reset w d) = Some m1
        \<and> loop_inv m1 \<and> loop_stops sdk m1)"
proof -
  have ok: "\<forall>c \<in> set setup. fw_call_ok c" "\<forall>c \<in> set (concat ticks). fw_call_ok c" using assms(2) by auto
  obtain s where s: "main_setup sdk setup (fw_reset w d) = Some s" "fw_inv s"
      "control_calls s = boot_calls @ [AddRepeatingTimerMs 250]"
    using main_setup_safe [OF assms(1) ok(1) assms(3), of sdk d] by blast
  have run: "fw_main sdk setup ticks as (fw_reset w d)
      = main_exec fw_kick (BaremetalTimer_tick sdk) as (main_start (s, ticks))" for as
    using s(1) by (simp add: fw_main_def)
  from main_exec_safe [OF loop_inv_start [OF s(2,3) ok(2)], of sdk acts] main_inv_exec [OF main_inv_start] run
  show ?thesis by metis
qed

lemma loop_invD:
  assumes "loop_inv m"
  shows "fw_inv (fst (main_app m))" "control_calls (fst (main_app m))
    = boot_calls @ [AddRepeatingTimerMs 250] @ replicate (count_list (main_log m) Kicked) WatchdogUpdate"
  using assms by (auto simp: loop_inv_def split: prod.splits)

lemma count_rounds: "count_list (rounds log) Kicked = count_list log Kicked"
  by (induction log) (auto simp: rounds_def)

lemma kicks_of_rounds:
  assumes "main_inv m"
  shows "count_list (main_log m) Kicked = count_list (main_log m) Ticked + (if main_pc m = Ticking then 1 else 0)"
proof -
  have "count_list (concat (replicate n [Kicked, Ticked])) Kicked = n" for n by (induction n) auto
  then show ?thesis using assms count_rounds [of "main_log m"] by (auto simp: main_inv_def Let_def)
qed

subsection \<open>Properties\<close>

text \<open>
  C4: From reset, whatever handlers the framework runs with whatever arguments, however the bytes on
  both UARTs arrive, the bus and the battery chip answer and the timer interrupts fall, every
  statement of \<open>main\<close> returns with defined behaviour and keeps the buffer invariants of all
  components, and nothing is ever transmitted to the GPS receiver. There is one exception: if the run
  is undefined, it has come, within the invariants, to a tick of the GPS receiver among whose received bytes
  there is a complete GGA sentence with a correct checksum and a run of digits too long for the 32-bit arithmetic of the parser to be safe.
\<close>

theorem firmware_safe:
  assumes "live_clock (w_clock w)" "\<forall>c \<in> set (setup @ concat ticks). fw_call_ok c" "GpsSched \<notin> set setup"
  shows "(\<exists>m. fw_main sdk setup ticks acts (fw_reset w d) = Some m \<and> fw_inv (fst (main_app m)))
    \<or> fw_main sdk setup ticks acts (fw_reset w d) = None
      \<and> (\<exists>as rest m s calls more. acts = as @ LoopStep # rest \<and> fw_main sdk setup ticks as (fw_reset w d) = Some m
        \<and> main_pc m = Ticking \<and> main_app m = (s, calls # more) \<and> gps_stops sdk calls s)"
  using fw_main_safe [OF assms, of sdk acts d] loop_invD(1) unfolding loop_stops_def by blast

definition sim_i2c :: "unit i2c_sdk" where
  "sim_i2c = \<lparr>i2c_init = (\<lambda>f d. (f, d)), gpio_set_function_i2c = (\<lambda>_ d. d), gpio_pull_up = (\<lambda>_ d. d),
     i2c_write_timeout_us = (\<lambda>_ bs _ _ d. (int (length bs), d)),
     i2c_read_timeout_us = (\<lambda>_ n _ _ d. ((int n, replicate n 0), d)),
     PICO_ERROR_GENERIC = - 1, PICO_ERROR_TIMEOUT = - 2\<rparr>"

abbreviation sim_calls :: "fw_call list list" where
  "sim_calls \<equiv> [[BatteryCall (BatSetLow 1 2 30), LoraSched, GpsSetEnabled 3 4 False, GpsSched]]"

abbreviation sim_acts :: "main_actor list" where
  "sim_acts \<equiv> [LoopStep, TimerIrq, LoopStep, LoopStep, TimerIrq, LoopStep, LoopStep]"

lemma sim_run: "\<exists>m. fw_main sim_i2c [] sim_calls sim_acts (fw_reset (sim_world [] []) ()) = Some m \<and> main_pc m = Waiting
    \<and> count_list (main_log m) Ticked = 1"
  by (simp add: fw_main_def main_setup_def main_exec_def main_act_defs main_start_def fw_kick_def BaremetalTimer_tick_def
      hw_init_def fw_reset_def sim_i2c_def hal_i2c1_init_def i2c1_init_hw_def hal_uart0_init_def hal_uart1_init_def
      uart0_init_hw_def uart1_init_hw_def sdk_do_def Let_def fw_handle_def bat_handle_def with_lora_def with_gps_def
      lora_schedIn_handler_def lora_init_def GPS_SET_ENABLED_cmdHandler_def gps_emit_def gps_schedIn_handler_def)

lemma sim_calls_ok: "\<forall>c \<in> set ([] @ concat sim_calls). fw_call_ok c"
  by (simp add: fw_call_ok_def)

lemma firmware_safe_witness:
  "\<exists>m. fw_main sim_i2c [] sim_calls sim_acts (fw_reset (sim_world [] []) ()) = Some m \<and> fw_inv (fst (main_app m))"
proof -
  have "GpsSched \<notin> set []" by simp
  from firmware_safe [OF sim_world_live [of "[]" "[]"] sim_calls_ok this, of sim_i2c sim_acts "()"] sim_run
  show ?thesis by auto
qed

text \<open>
  C19: The watchdog is enabled once, with two seconds, after both UARTs are configured, and from then
  on it is updated by the main loop alone, once per round: no handler, however long it waits for
  the LoRa module, ever updates it.
\<close>

theorem watchdog_only_from_loop:
  assumes "live_clock (w_clock w)" "\<forall>c \<in> set (setup @ concat ticks). fw_call_ok c" "GpsSched \<notin> set setup"
    and "fw_main sdk setup ticks acts (fw_reset w d) = Some m"
  shows "control_calls (fst (main_app m)) = boot_calls @ AddRepeatingTimerMs 250
    # replicate (count_list (main_log m) Ticked + (if main_pc m = Ticking then 1 else 0)) WatchdogUpdate"
  using fw_main_safe [OF assms(1-3), of sdk acts d] assms(4)
  by (auto simp: loop_invD(2) kicks_of_rounds)

lemma watchdog_only_from_loop_witness:
  "\<exists>m. fw_main sim_i2c [] sim_calls sim_acts (fw_reset (sim_world [] []) ()) = Some m
    \<and> control_calls (fst (main_app m)) = boot_calls @ [AddRepeatingTimerMs 250, WatchdogUpdate]"
proof -
  obtain m where m: "fw_main sim_i2c [] sim_calls sim_acts (fw_reset (sim_world [] []) ()) = Some m" "main_pc m = Waiting"
    "count_list (main_log m) Ticked = 1" using sim_run by blast
  have "GpsSched \<notin> set []" by simp
  from watchdog_only_from_loop [OF sim_world_live [of "[]" "[]"] sim_calls_ok this m(1)] m show ?thesis by simp
qed

end
