(* ===== verification/Telemetry.thy ===== *)
theory Telemetry
  imports Firmware
begin

text \<open>
  What the firmware may tell the ground, as an abstract protocol: three step relations say which
  telemetry values, events and command responses each component may send next, and how its
  counters move. Every handler of the detailed model is a sequence of these steps (\<open>fw_handle_says\<close>),
  whatever the hardware does, so every run of \<open>main\<close> is a run of the protocol. The types and documented
  ranges of the values (the \<open>telemetry\<close> and \<open>event\<close> declarations of the components' \<open>.fpp\<close> files) and the
  meaning of the counters are invariants of the protocol, by rule induction.
\<close>

subsection \<open>Types of the values\<close>

datatype fpp_type = U8 | U16 | U32 | I16 | I32

definition fits :: "fpp_type \<Rightarrow> int \<Rightarrow> bool" where
  "fits t v \<longleftrightarrow>
     (case t of
        U8 \<Rightarrow> 0 \<le> v \<and> v < 2 ^ 8
      | U16 \<Rightarrow> 0 \<le> v \<and> v < 2 ^ 16
      | U32 \<Rightarrow> 0 \<le> v \<and> v < 2 ^ 32
      | I16 \<Rightarrow> - (2 ^ 15) \<le> v \<and> v < 2 ^ 15
      | I32 \<Rightarrow> - (2 ^ 31) \<le> v \<and> v < 2 ^ 31)"

text \<open>The arguments of each output with their declared types; a boolean or a string has no numeric argument.\<close>

definition bat_args :: "bat_output \<Rightarrow> (fpp_type \<times> int) list" where
  "bat_args x =
     (case x of
        TlmBatteryPercent p \<Rightarrow> [(U8, uint p)]
      | TlmChargeState c \<Rightarrow> [(U8, uint c)]
      | TlmOutputEnabled _ \<Rightarrow> []
      | TlmI2cErrors n \<Rightarrow> [(U32, uint n)]
      | LogI2cReadError reg err \<Rightarrow> [(U8, uint reg), (I32, err)]
      | LogBatteryLow p \<Rightarrow> [(U8, uint p)]
      | LogBatteryCritical p \<Rightarrow> [(U8, uint p)]
      | LogChargeStateChanged c \<Rightarrow> [(U8, uint c)]
      | LogBatteryFull \<Rightarrow> []
      | BatCmdResponse _ _ _ \<Rightarrow> [])"

definition gps_args :: "gps_output \<Rightarrow> (fpp_type \<times> int) list" where
  "gps_args x =
     (case x of
        TlmFixQuality q \<Rightarrow> [(U8, uint q)]
      | TlmSatCount s \<Rightarrow> [(U8, uint s)]
      | TlmLatitude v \<Rightarrow> [(I32, v)]
      | TlmLongitude v \<Rightarrow> [(I32, v)]
      | TlmAltitude v \<Rightarrow> [(I32, v)]
      | TlmHDOP h \<Rightarrow> [(U16, uint h)]
      | TlmUtcTime u \<Rightarrow> [(U32, uint u)]
      | TlmSentenceCount n \<Rightarrow> [(U32, uint n)]
      | LogNmeaChecksumError _ \<Rightarrow> []
      | LogFixAcquired s \<Rightarrow> [(U8, uint s)]
      | LogFixLost \<Rightarrow> []
      | LogUartOverrun n \<Rightarrow> [(U32, uint n)]
      | LogParseError i \<Rightarrow> [(U8, uint i)]
      | GpsCmdOK _ _ \<Rightarrow> [])"

definition lora_args :: "lora_output \<Rightarrow> (fpp_type \<times> int) list" where
  "lora_args x =
     (case x of
        TlmLastRxRssi v \<Rightarrow> [(I16, v)]
      | TlmLastRxSnr v \<Rightarrow> [(I16, v)]
      | TlmTxPacketCount n \<Rightarrow> [(U32, uint n)]
      | TlmTxErrorCount n \<Rightarrow> [(U32, uint n)]
      | TlmRxPacketCount n \<Rightarrow> [(U32, uint n)]
      | TlmModuleState s \<Rightarrow> [(U8, uint s)]
      | LogInitFailed a \<Rightarrow> [(U8, uint a)]
      | LogTxError e \<Rightarrow> [(U8, uint e)]
      | LogModuleReady \<Rightarrow> []
      | LogPacketReceived rssi snr \<Rightarrow> [(I16, rssi), (I16, snr)]
      | LogAtBufOverrun \<Rightarrow> []
      | LogPayloadTooLarge n \<Rightarrow> [(U32, uint n)]
      | LoraCmdResponse _ _ _ \<Rightarrow> [])"

subsection \<open>The protocol\<close>

inductive bat_says :: "battery \<Rightarrow> battery \<Rightarrow> bool" where
  reading: "valid_reading r \<Longrightarrow> bat_says b (bat_apply r b)"
| response: "bat_says b (bat_emit (BatCmdResponse opCode cmdSeq x) b)"
| threshold: "1 \<le> t \<Longrightarrow> t \<le> 99 \<Longrightarrow> bat_says b (b\<lparr>m_lowThreshold := t\<rparr>)"

text \<open>The last fix quality, the sentence count and the outputs of the receiver.\<close>

type_synonym gps_view = "u8 \<times> u32 \<times> gps_output list"

definition gps_view :: "gps \<Rightarrow> gps_view" where
  "gps_view g = (m_lastFixQuality g, m_sentenceCount g, gps_out g)"

inductive gps_says :: "gps_view \<Rightarrow> gps_view \<Rightarrow> bool" where
  bad_checksum: "0 \<notin> set s \<Longrightarrow> gps_says (q, n, out) (q, n, out @ [LogNmeaChecksumError s])"
| overrun: "gps_says (q, n, out) (q, n, out @ [LogUartOverrun 99])"
| few_fields: "gps_says (q, n, out) (q, n, out @ [LogParseError 0])"
| bad_field: "u < 2 ^ 24 \<Longrightarrow> i \<in> {2, 4, 6, 7, 8, 9} \<Longrightarrow>
    gps_says (q, n, out) (q, n, out @ [TlmUtcTime u, LogParseError i])"
| report: "u < 2 ^ 24 \<Longrightarrow> fits I32 lat \<Longrightarrow> fits I32 lon \<Longrightarrow> fits I32 alt \<Longrightarrow>
    gps_says (q, n, out) (q', n + 1, out @ [TlmUtcTime u, TlmFixQuality q', TlmSatCount s, TlmLatitude lat,
      TlmLongitude lon, TlmAltitude alt, TlmHDOP h] @ fix_event q q' s @ [TlmSentenceCount (n + 1)])"
| reset: "gps_says (q, n, out) (0, n, out @ [GpsCmdOK opCode cmdSeq])"
| set_enabled: "gps_says (q, n, out) (q, n, out @ [GpsCmdOK opCode cmdSeq])"

text \<open>The module state, the three counters (sent, failed, received) and the outputs of the driver.\<close>

type_synonym lora_view = "lora_state \<times> u32 \<times> u32 \<times> u32 \<times> lora_output list"

definition lora_view :: "lora \<Rightarrow> lora_view" where
  "lora_view l = (m_state l, m_txCount l, m_txErrors l, m_rxCount l, lora_out l)"

inductive lora_says :: "lora_view \<Rightarrow> lora_view \<Rightarrow> bool" where
  at_overrun: "lora_says (st, tx, err, rx, out) (st, tx, err, rx, out @ [LogAtBufOverrun])"
| packet: "fits I16 rssi \<Longrightarrow> fits I16 snr \<Longrightarrow>
    lora_says (READY, tx, err, rx, out) (READY, tx, err, rx + 1,
      out @ [TlmLastRxRssi rssi, TlmLastRxSnr snr, TlmRxPacketCount (rx + 1), LogPacketReceived rssi snr])"
| too_large: "80 < length (payload :: bytes) \<Longrightarrow>
    lora_says (READY, tx, err, rx, out) (READY, tx, err, rx, out @ [LogPayloadTooLarge (of_nat (length payload))])"
| tx_ok: "lora_says (READY, tx, err, rx, out) (READY, tx + 1, err, rx, out @ [TlmTxPacketCount (tx + 1)])"
| tx_write_failed: "lora_says (READY, tx, err, rx, out) (READY, tx, err + 1, rx, out @ [TlmTxErrorCount (err + 1)])"
| tx_refused: "lora_says (READY, tx, err, rx, out)
    (READY, tx, err + 1, rx, out @ [LogTxError e, TlmTxErrorCount (err + 1)])"
| ready: "lora_says (st, tx, err, rx, out) (READY, tx, err, rx, out @ [LogModuleReady, TlmModuleState 1])"
| failed: "lora_says (st, tx, err, rx, out) (ERROR, tx, err, rx, out @ [LogInitFailed 3, TlmModuleState 2])"
| lora_response: "lora_says (st, tx, err, rx, out) (st, tx, err, rx, out @ [LoraCmdResponse opCode cmdSeq x])"

subsection \<open>Every handler follows the protocol\<close>

lemma fits_i16: "fits I16 (to_i16 x)"
  using sint_lt [of "word_of_int x :: 16 word"] sint_ge [of "word_of_int x :: 16 word"] by (simp add: fits_def to_i16_def)

lemma fits_i32: "i32 x = Some y \<Longrightarrow> fits I32 y"
  by (auto simp: fits_def dest: i32_SomeD)

lemma fits_zero: "fits I32 0"
  by (simp add: fits_def)

lemma parseDegMin_fits: "parseDegMin f h = Some (ok, v) \<Longrightarrow> fits I32 v"
proof -
  have "on_return (\<lambda>(ok, v). fits I32 v) (parseDegMin f h)"
    unfolding parseDegMin_def dm_convert_def dm_result_def
    by (intro post_rules) (simp_all add: fits_i32 fits_zero)
  then show "parseDegMin f h = Some (ok, v) \<Longrightarrow> fits I32 v" by (auto dest: postD)
qed

lemma parseFP_fits: "parseFP f sc = Some (ok, v) \<Longrightarrow> fits I32 v"
proof -
  have "on_return (\<lambda>(ok, v). fits I32 v) (parseFP f sc)"
    unfolding parseFP_def fp_result_def
    by (intro post_rules) (auto simp: fits_i32 fits_zero split: if_splits)
  then show "parseFP f sc = Some (ok, v) \<Longrightarrow> fits I32 v" by (auto dest: postD)
qed

lemma pack_hms_less: "pack_hms h m s < 2 ^ 24"
proof -
  have "take_bit 24 (pack_hms h m s) = pack_hms h m s"
    by (rule bit_word_eqI) (auto simp: pack_hms_def bit_simps dest: bit_imp_le_length)
  then have "uint (pack_hms h m s) = take_bit 24 (uint (pack_hms h m s))" by (metis unsigned_take_bit_eq)
  then show ?thesis using take_bit_int_less_exp [of 24 "uint (pack_hms h m s)"] by (simp add: word_less_def)
qed

lemma gga_utc_less: "gga_utc t = Some u \<Longrightarrow> u < 2 ^ 24"
proof -
  have "on_return (\<lambda>u. u < 2 ^ 24) (gga_utc t)"
    unfolding gga_utc_def by (intro post_rules pack_hms_less)
  then show "gga_utc t = Some u \<Longrightarrow> u < 2 ^ 24" by (rule postD)
qed

text \<open>What \<open>parseGGA\<close> leaves of a sentence: a report still to be counted, or a parse error.\<close>

definition gga_says :: "gps \<Rightarrow> bool \<times> gps \<Rightarrow> bool" where
  "gga_says g r \<longleftrightarrow>
     (case r of
        (True, g') \<Rightarrow> (\<exists>u q s lat lon alt h. u < 2 ^ 24 \<and> fits I32 lat \<and> fits I32 lon \<and> fits I32 alt
          \<and> gps_view g' = (q, m_sentenceCount g, gps_out g @ [TlmUtcTime u, TlmFixQuality q, TlmSatCount s,
              TlmLatitude lat, TlmLongitude lon, TlmAltitude alt, TlmHDOP h] @ fix_event (m_lastFixQuality g) q s))
      | (False, g') \<Rightarrow> gps_says (gps_view g) (gps_view g'))"

lemma gga_fail_says:
  assumes "u < 2 ^ 24" "i \<in> {2, 4, 6, 7, 8, 9}"
  shows "on_return (gga_says g) (gga_fail (gps_emit (TlmUtcTime u) g) i)"
  using bad_field [OF assms, of "m_lastFixQuality g" "m_sentenceCount g" "gps_out g"]
  by (simp add: on_return_def gga_fail_def gga_says_def gps_view_def gps_emit_def)

lemma gga_publish_says:
  assumes "u < 2 ^ 24" "fits I32 lat" "fits I32 lon" "fits I32 alt"
  shows "gga_says g (True, gga_publish (gps_emit (TlmUtcTime u) g) q s lat lon alt h)"
  using assms by (auto simp: gga_says_def gga_publish_eq gps_view_def gps_emit_def)

lemma gga_fields_says: "on_return (gga_says g) (gga_fields g scratch flds)"
  unfolding gga_fields_def
  by (intro post_rules; simp only: Let_def)
    (auto intro!: gga_fail_says gga_publish_says dest: gga_utc_less parseDegMin_fits parseFP_fits)

lemma parseGGA_says: "on_return (gga_says g) (parseGGA g line)"
proof -
  have few: "on_return (gga_says g) (gga_fail (g\<lparr>gps_scratch := sc\<rparr>) 0)" for sc
    using few_fields [of "m_lastFixQuality g" "m_sentenceCount g" "gps_out g"]
    by (simp add: on_return_def gga_fail_def gga_says_def gps_view_def gps_emit_def)
  have "gga_says (g\<lparr>gps_scratch := sc\<rparr>) r = gga_says g r" for sc r
    by (cases r; cases "fst r") (auto simp: gga_says_def gps_view_def)
  then have flds: "on_return (gga_says g) (gga_fields (g\<lparr>gps_scratch := sc\<rparr>) sc flds)" for sc flds
    using gga_fields_says [of "g\<lparr>gps_scratch := sc\<rparr>" sc flds] by (simp add: on_return_def)
  show ?thesis unfolding parseGGA_def by (intro post_rules) (simp_all add: few flds)
qed

abbreviation gps_reaches :: "gps \<Rightarrow> gps \<Rightarrow> bool" where
  "gps_reaches g g' \<equiv> gps_says\<^sup>*\<^sup>* (gps_view g) (gps_view g')"

lemma cstr_no_nul: "0 \<notin> set (cstr b)"
  by (auto simp: cstr_def dest: set_takeWhileD)

lemma gps_view_buf [simp]:
  "gps_view (g\<lparr>m_lineBuf := b\<rparr>) = gps_view g" "gps_view (g\<lparr>m_lineLen := n\<rparr>) = gps_view g"
  by (simp_all add: gps_view_def)

lemma processLine_says: "on_return (gps_reaches g) (processLine g)"
proof -
  have bad: "gps_reaches g (gps_emit (LogNmeaChecksumError (cstr b)) (g\<lparr>m_lineBuf := b\<rparr>))" for b
    using bad_checksum [OF cstr_no_nul] by (intro r_into_rtranclp) (simp add: gps_view_def gps_emit_def)
  have count: "gps_reaches g (gps_emit (TlmSentenceCount (m_sentenceCount g1 + 1)) (g1\<lparr>m_sentenceCount := m_sentenceCount g1 + 1\<rparr>))"
    if "parseGGA (g\<lparr>m_lineBuf := b\<rparr>) b = Some (True, g1)" for b g1
  proof -
    from postD [OF parseGGA_says that] obtain u q s lat lon alt h where
      r: "u < 2 ^ 24" "fits I32 lat" "fits I32 lon" "fits I32 alt"
      "gps_view g1 = (q, m_sentenceCount g, gps_out g @ [TlmUtcTime u, TlmFixQuality q, TlmSatCount s,
              TlmLatitude lat, TlmLongitude lon, TlmAltitude alt, TlmHDOP h] @ fix_event (m_lastFixQuality g) q s)"
      by (auto simp: gga_says_def)
    from report [OF r(1-4)] r(5) show ?thesis
      by (intro r_into_rtranclp) (simp add: gps_view_def gps_emit_def)
  qed
  have fail: "gps_reaches g g1" if "parseGGA (g\<lparr>m_lineBuf := b\<rparr>) b = Some (False, g1)" for b g1
    using postD [OF parseGGA_says that] by (auto simp: gga_says_def)
  show ?thesis
    unfolding processLine_def by (intro post_rules; simp only: Let_def) (auto intro!: bad count post_rules dest: fail)
qed

lemma gps_byte_says:
  assumes "gps_wf g"
  shows "on_return (gps_reaches g) (gps_byte b g)"
proof -
  have full: "gps_reaches g (gps_emit (LogUartOverrun (of_nat (m_lineLen g))) g)"
    if "\<not> m_lineLen g < NMEA_LINE_BUF_SIZE - 1"
  proof -
    have "m_lineLen g = 99" using that assms by (simp add: NMEA_LINE_BUF_SIZE_def gps_wf_def)
    with overrun [of "m_lastFixQuality g" "m_sentenceCount g" "gps_out g"] show ?thesis
      by (intro r_into_rtranclp) (simp add: gps_view_def gps_emit_def)
  qed
  show ?thesis
    unfolding gps_byte_def using postD [OF processLine_says]
    by (intro post_rules) (auto intro!: full split: if_splits)
qed

lemma gps_drain_says: "gps_wf g \<Longrightarrow> on_return (\<lambda>(g', w'). gps_wf g' \<and> gps_reaches g g') (gps_drain lim n b g w)"
proof (induction lim n b g w rule: gps_drain.induct)
  case (1 lim n b g w)
  show ?case
  proof (cases "n < lim")
    case False
    with 1(2) show ?thesis by (subst gps_drain.simps) (simp add: on_return_def)
  next
    case True
    have "on_return (\<lambda>(g', w'). gps_wf g' \<and> gps_reaches g g') (gps_drain lim (Suc n) b' g1 w1)"
      if "hal_uart_getc HAL_UART1 b w = Some (rc, b', w1)" "rc = HAL_OK" "gps_byte b' g = Some g1" for rc b' g1 w1
    proof -
      have g1: "gps_wf g1" "gps_reaches g g1"
        using gps_byte_keeps [OF that(3) 1(2)] postD [OF gps_byte_says [OF 1(2)] that(3)] by simp_all
      from 1(1) [OF True that(1) refl refl that(2,3) g1(1)] show ?thesis
        unfolding on_return_def using rtranclp_trans [OF g1(2)] by auto
    qed
    with 1(2) True show ?thesis
      by (subst gps_drain.simps) (auto intro!: post_rules)
  qed
qed

abbreviation lora_reaches :: "lora \<Rightarrow> lora \<Rightarrow> bool" where
  "lora_reaches l l' \<equiv> lora_says\<^sup>*\<^sup>* (lora_view l) (lora_view l')"

lemma lora_view_simps [simp]:
  "lora_view (l\<lparr>m_atBuf := b\<rparr>) = lora_view l" "lora_view (l\<lparr>m_atBufLen := n\<rparr>) = lora_view l"
  by (simp_all add: lora_view_def)

text \<open>
  What the driver says of the payloads it was given to transmit; only \<open>dataIn\<close> adds to it. The other steps of the
  protocol form the relation \<open>quiet_says\<close>. An AT exchange also keeps the module state.
\<close>

definition transmissions :: "lora_view \<Rightarrow> lora_output list" where
  "transmissions v = filter (\<lambda>x. case x of TlmTxPacketCount _ \<Rightarrow> True | TlmTxErrorCount _ \<Rightarrow> True | LogTxError _ \<Rightarrow> True
     | LogPayloadTooLarge _ \<Rightarrow> True | _ \<Rightarrow> False) (snd (snd (snd (snd v))))"

definition quiet_says :: "lora_view \<Rightarrow> lora_view \<Rightarrow> bool" where
  "quiet_says v v' \<longleftrightarrow> lora_says v v' \<and> transmissions v' = transmissions v"

abbreviation lora_tells :: "lora \<Rightarrow> lora \<Rightarrow> bool" where
  "lora_tells l l' \<equiv> quiet_says\<^sup>*\<^sup>* (lora_view l) (lora_view l')"

lemma quiet_steps:
  "quiet_says (st, tx, err, rx, out) (st, tx, err, rx, out @ [LogAtBufOverrun])"
  "fits I16 rssi \<Longrightarrow> fits I16 snr \<Longrightarrow> quiet_says (READY, tx, err, rx, out) (READY, tx, err, rx + 1,
      out @ [TlmLastRxRssi rssi, TlmLastRxSnr snr, TlmRxPacketCount (rx + 1), LogPacketReceived rssi snr])"
  "quiet_says (st, tx, err, rx, out) (READY, tx, err, rx, out @ [LogModuleReady, TlmModuleState 1])"
  "quiet_says (st, tx, err, rx, out) (ERROR, tx, err, rx, out @ [LogInitFailed 3, TlmModuleState 2])"
  "quiet_says (st, tx, err, rx, out) (st, tx, err, rx, out @ [LoraCmdResponse opCode cmdSeq x])"
  by (auto simp: quiet_says_def transmissions_def intro: lora_says.intros)

lemma tells_reaches: "lora_tells l l' \<Longrightarrow> lora_reaches l l'"
  by (induction rule: rtranclp_induct) (auto simp: quiet_says_def intro: rtranclp.rtrancl_into_rtrancl)

definition at_says :: "lora \<Rightarrow> lora \<Rightarrow> bool" where
  "at_says l l' \<longleftrightarrow> lora_tells l l' \<and> m_state l' = m_state l"

definition tx_says :: "lora \<Rightarrow> lora \<Rightarrow> bool" where
  "tx_says l l' \<longleftrightarrow> lora_reaches l l' \<and> m_state l' = m_state l"

lemma tx_says_trans: "at_says l l1 \<Longrightarrow> tx_says l1 l2 \<Longrightarrow> tx_says l l2"
  unfolding at_says_def tx_says_def by (auto intro: rtranclp_trans tells_reaches)

lemma at_says_refl: "at_says l l"
  by (simp add: at_says_def)

lemma at_says_trans: "at_says l l1 \<Longrightarrow> at_says l1 l2 \<Longrightarrow> at_says l l2"
  unfolding at_says_def by (auto intro: rtranclp_trans)

lemma at_says_buf [simp]:
  "at_says l (l'\<lparr>m_atBuf := b\<rparr>) = at_says l l'" "at_says l (l'\<lparr>m_atBufLen := n\<rparr>) = at_says l l'"
  "at_says (l\<lparr>m_atBuf := b\<rparr>) l' = at_says l l'" "at_says (l\<lparr>m_atBufLen := n\<rparr>) l' = at_says l l'"
  by (simp_all add: at_says_def)

lemma at_says_overrun: "at_says l (lora_emit LogAtBufOverrun l)"
  using quiet_steps(1) [of "m_state l" "m_txCount l" "m_txErrors l" "m_rxCount l" "lora_out l"]
  by (auto simp: at_says_def lora_view_def lora_emit_def)

lemma read_at_loop_says: "read_at_loop deadline l w = Some (n, l', w') \<Longrightarrow> at_says l l'"
proof -
  have "at_says l (fst (snd r))" if "read_at_loop deadline l w = Some r" for r
  proof (rule read_at_loop.raw_induct [where P = "\<lambda>d l w r. at_says l (fst (snd r))", OF _ that], goal_cases)
    case (1 loop deadline l w r)
    have rec: "on_return (\<lambda>r. at_says l (fst (snd r))) (loop d l' w1)" if "at_says l l'" for d l' w1
      using 1(1) at_says_trans [OF that] by (auto simp: on_return_def)
    show ?case
      by (rule postD [OF _ 1(2)], intro post_rules rec) (simp_all add: at_says_refl at_says_overrun)
  qed
  then show "read_at_loop deadline l w = Some (n, l', w') \<Longrightarrow> at_says l l'" by fastforce
qed

lemma sendAT_says: "on_return (\<lambda>(ok, l', w'). at_says l l') (sendAT cmd t l w)"
  unfolding sendAT_def readATLine_def
  by (intro post_rules) (auto simp: at_says_refl Option.bind_eq_Some_conv dest: read_at_loop_says)

lemma init_alive_says: "on_return (\<lambda>(ok, l', w'). at_says l l') (init_alive n l w)"
proof (induction n l w rule: init_alive.induct)
  case (1 n l w)
  have rec: "on_return (\<lambda>(ok, l', w'). at_says l l') (init_alive (Suc n) l1 w2)"
    if "n < LORA_INIT_RETRIES" "sendAT (cstr_lit ''AT'') LORA_AT_TIMEOUT_US l w = Some (False, l1, w1)"
      "hal_delay_ms 200 w1 = Some w2" for l1 w1 w2
    using 1 [OF that(1,2) refl refl _ that(3)] postD [OF sendAT_says that(2)]
    by (auto simp: on_return_def intro: at_says_trans)
  show ?case
    by (subst init_alive.simps, intro post_rules) (auto simp: at_says_refl rec dest: postD [OF sendAT_says])
qed

lemma at_step_says:
  assumes "\<And>l w. on_return (\<lambda>(ok, l', w'). at_says l l') (rest l w)"
  shows "on_return (\<lambda>(ok, l', w'). at_says l l') (at_step cmd t rest l w)"
  unfolding at_step_def
  by (intro post_rules) (auto simp: on_return_def dest!: postD [OF sendAT_says] postD [OF assms] intro: at_says_trans)

lemma initModule_says: "on_return (\<lambda>(ok, l', w'). at_says l l') (initModule l w)"
proof -
  have stop: "on_return (\<lambda>(ok, l', w'). at_says l l') (Some (True, l, w))" for l and w :: world
    by (simp add: on_return_def at_says_refl)
  note params = at_step_says [OF at_step_says [OF at_step_says [OF at_step_says [OF stop]]]]
  have tail: "on_return (\<lambda>(ok, l', w'). at_says l l') (at_step (cstr_lit ''AT+RESET'') 2000000 (\<lambda>l w. do {
       w \<leftarrow> hal_delay_ms 500 w;
       cmd \<leftarrow> init_band_cmd;
       at_step cmd LORA_AT_TIMEOUT_US init_params l w }) l w)" for l w
    unfolding init_params_def by (intro at_step_says post_rules params)
  show ?thesis
    unfolding initModule_def
    by (intro post_rules)
      (auto simp: on_return_def dest!: postD [OF init_alive_says] postD [OF tail] intro: at_says_trans)
qed

lemma parseRcv_fits: "on_return (\<lambda>(ok, rssi, snr). ok \<longrightarrow> fits I16 rssi \<and> fits I16 snr) (parseRcv line)"
  unfolding parseRcv_def rcv_values_def by (intro post_rules) (simp_all add: fits_i16)

lemma at_says_packet:
  assumes "m_state l = READY" "fits I16 rssi" "fits I16 snr"
  shows "at_says l (rx_packet rssi snr l)"
  using quiet_steps(2) [OF assms(2,3), of "m_txCount l" "m_txErrors l" "m_rxCount l" "lora_out l"] assms(1)
  by (auto simp: at_says_def lora_view_def)

lemma lora_byte_says:
  assumes "m_state l = READY"
  shows "on_return (at_says l) (lora_byte b l)"
proof -
  have "at_says l (rx_packet rssi snr (l\<lparr>m_atBuf := buf\<rparr>))" if "parseRcv buf = Some (True, rssi, snr)" for buf rssi snr
    using at_says_packet [of "l\<lparr>m_atBuf := buf\<rparr>" rssi snr] postD [OF parseRcv_fits that] assms by simp
  then show ?thesis
    unfolding lora_byte_def
    by (intro post_rules; simp only: Let_def)
      (auto simp: at_says_refl at_says_overrun Option.bind_eq_Some_conv intro!: post_rules split: if_splits)
qed

lemma pollRx_says: "m_state l = READY \<Longrightarrow> on_return (\<lambda>(l', w'). at_says l l') (pollRx lim n b l w)"
proof (induction lim n b l w rule: pollRx.induct)
  case (1 lim n b l w)
  have rec: "on_return (\<lambda>(l', w'). at_says l l') (pollRx lim (Suc n) b' l1 w1)"
    if "n < lim" "hal_uart_getc HAL_UART0 b w = Some (HAL_OK, b', w1)" "lora_byte b' l = Some l1" for b' l1 w1
  proof -
    have l1: "at_says l l1" using postD [OF lora_byte_says [OF 1(2)] that(3)] .
    then have "m_state l1 = READY" using 1(2) by (simp add: at_says_def)
    from 1(1) [OF that(1,2) refl refl refl that(3) this] at_says_trans [OF l1] show ?thesis
      by (auto simp: on_return_def)
  qed
  show ?case
    by (subst pollRx.simps, intro post_rules) (auto simp: at_says_refl rec)
qed

lemma tx_failed_says:
  assumes "m_state l = READY"
  shows "tx_says l (tx_failed l)" "tx_says l (tx_failed (lora_emit (LogTxError e) l))"
  using assms
    tx_write_failed [of "m_txCount l" "m_txErrors l" "m_rxCount l" "lora_out l"]
    tx_refused [of "m_txCount l" "m_txErrors l" "m_rxCount l" "lora_out l" e]
  by (auto simp: tx_says_def lora_view_def tx_failed_def lora_emit_def Let_def)

lemma tx_response_says:
  assumes "m_state l = READY"
  shows "on_return (tx_says l) (tx_response n l)"
proof -
  have ok: "tx_says l (lora_emit (TlmTxPacketCount (m_txCount l + 1)) (l\<lparr>m_txCount := m_txCount l + 1\<rparr>))"
    using assms tx_ok [of "m_txCount l" "m_txErrors l" "m_rxCount l" "lora_out l"]
    by (auto simp: tx_says_def lora_view_def lora_emit_def)
  show ?thesis
    unfolding tx_response_def
    by (intro post_rules; simp only: Let_def) (auto intro!: post_rules tx_failed_says assms ok)
qed

lemma dataIn_says: "on_return (\<lambda>(l', w'). lora_reaches l l') (dataIn_handler payload l w)"
proof (cases "m_state l = READY")
  case False
  then show ?thesis by (simp add: dataIn_handler_def on_return_def)
next
  case True
  have large: "lora_reaches l (lora_emit (LogPayloadTooLarge (of_nat (length payload))) l)" if "80 < length payload"
    using True too_large [OF that, of "m_txCount l" "m_txErrors l" "m_rxCount l" "lora_out l"]
    by (auto simp: lora_view_def lora_emit_def)
  have resp: "tx_says l l2" if "readATLine t l w = Some (n, l1, w1)" "tx_response n l1 = Some l2" for t w n l1 w1 l2
  proof -
    have "at_says l l1" using that(1) by (auto simp: readATLine_def Option.bind_eq_Some_conv dest: read_at_loop_says)
    then show ?thesis
      using postD [OF tx_response_says that(2)] True tx_says_trans by (auto simp: at_says_def)
  qed
  have "on_return (\<lambda>(l', w'). tx_says l l' \<or> lora_reaches l l') (dataIn_handler payload l w)"
    unfolding dataIn_handler_def
    by (intro post_rules)
      (auto simp: LORA_PAYLOAD_MAX_def True resp tx_failed_says(1) intro: large)
  then show ?thesis by (auto simp: on_return_def tx_says_def)
qed

lemma lora_respond_says: "lora_tells l (lora_emit (LoraCmdResponse opCode cmdSeq x) l)"
  using quiet_steps(5) [of "m_state l" "m_txCount l" "m_txErrors l" "m_rxCount l" "lora_out l" opCode cmdSeq x]
  by (auto simp: lora_view_def lora_emit_def)

lemma cmd_respond_says: "lora_tells l l' \<Longrightarrow> lora_tells l (cmd_respond opCode cmdSeq ok l')"
  unfolding cmd_respond_def by (rule rtranclp_trans [OF _ lora_respond_says])

text \<open>A command that is one AT exchange and its response.\<close>

lemma at_exchange_says:
  "on_return (\<lambda>(l', w'). lora_tells l l')
     (do { (ok, l, w) \<leftarrow> sendAT cmd t l w; Some (cmd_respond opCode cmdSeq ok l, w) })"
  by (intro post_rules) (auto dest!: postD [OF sendAT_says] simp: at_says_def intro: cmd_respond_says)

lemma lora_commands_say:
  "on_return (\<lambda>(l', w'). lora_tells l l') (LORA_SEND_AT_cmdHandler opCode cmdSeq cmd l w)"
  "on_return (\<lambda>(l', w'). lora_tells l l') (LORA_SET_FREQ_cmdHandler opCode cmdSeq f l w)"
  "on_return (\<lambda>(l', w'). lora_tells l l') (LORA_SET_SF_cmdHandler opCode cmdSeq sf l w)"
  "on_return (\<lambda>(l', w'). lora_tells l l') (LORA_SET_POWER_cmdHandler opCode cmdSeq p l w)"
  unfolding LORA_SEND_AT_cmdHandler_def LORA_SET_FREQ_cmdHandler_def LORA_SET_SF_cmdHandler_def LORA_SET_POWER_cmdHandler_def
  by (intro post_if post_bind [of "freq_cmd f"] post_bind [of "sf_cmd sf"] post_bind [of "power_cmd p"]
      at_exchange_says post_Some; simp add: lora_respond_says)+

definition module_up :: "lora \<Rightarrow> lora" where
  "module_up l = lora_emit (TlmModuleState 1) (lora_emit LogModuleReady (l\<lparr>m_state := READY\<rparr>))"

definition module_down :: "lora \<Rightarrow> lora" where
  "module_down l = lora_emit (TlmModuleState 2) (lora_emit (LogInitFailed 3) (l\<lparr>m_state := ERROR\<rparr>))"

lemma module_says: "lora_tells l l' \<Longrightarrow> lora_tells l (module_up l')" "lora_tells l l' \<Longrightarrow> lora_tells l (module_down l')"
  using quiet_steps(3) [of "m_state l'" "m_txCount l'" "m_txErrors l'" "m_rxCount l'" "lora_out l'"]
    quiet_steps(4) [of "m_state l'" "m_txCount l'" "m_txErrors l'" "m_rxCount l'" "lora_out l'"]
  by (auto simp: module_up_def module_down_def lora_view_def lora_emit_def intro: rtranclp.rtrancl_into_rtrancl)

lemma preamble_eq:
  "preamble l w = do { (ok, l, w) \<leftarrow> initModule l w; Some (if ok then module_up l else module_down l, w) }"
  by (auto simp: preamble_def module_up_def module_down_def Let_def lora_emit_def lora_state_code_def LORA_INIT_RETRIES_def
      intro!: Option.bind_cong split: prod.splits)

lemma LORA_RESET_eq:
  "LORA_RESET_cmdHandler opCode cmdSeq l w = do { (ok, l, w) \<leftarrow> initModule l w;
      Some (cmd_respond opCode cmdSeq ok (if ok then module_up l else module_down l), w) }"
  by (auto simp: LORA_RESET_cmdHandler_def module_up_def module_down_def Let_def lora_emit_def lora_state_code_def
      LORA_INIT_RETRIES_def intro!: Option.bind_cong split: prod.splits)

lemma preamble_says: "on_return (\<lambda>(l', w'). lora_tells l l') (preamble l w)"
  unfolding preamble_eq by (auto intro!: post_rules module_says dest!: postD [OF initModule_says] simp: at_says_def)

lemma LORA_RESET_says: "on_return (\<lambda>(l', w'). lora_tells l l') (LORA_RESET_cmdHandler opCode cmdSeq l w)"
  unfolding LORA_RESET_eq
  by (auto intro!: post_rules module_says cmd_respond_says dest!: postD [OF initModule_says] simp: at_says_def)

lemma lora_schedIn_says: "on_return (\<lambda>(l', w'). lora_tells l l') (lora_schedIn_handler l w)"
  unfolding lora_schedIn_handler_def
  by (intro post_rules) (auto simp: on_return_def at_says_def dest!: postD [OF pollRx_says])

abbreviation bat_reaches :: "battery \<Rightarrow> battery \<Rightarrow> bool" where
  "bat_reaches \<equiv> bat_says\<^sup>*\<^sup>*"

lemma bat_handle_says: "on_return (\<lambda>(b', d'). bat_reaches b b') (bat_handle sdk c (b, d))"
proof (cases rule: bat_handle_cases [of sdk c b d])
  case (poll post)
  have "bat_reaches b (bat_apply (fst (bat_sample sdk d)) b)"
    by (intro r_into_rtranclp reading bat_sample_valid)
  with poll(1,2) show ?thesis
    by (auto simp: on_return_def intro: rtranclp.rtrancl_into_rtrancl response)
next
  case (set opCode cmdSeq t)
  have emit: "bat_reaches b b' \<Longrightarrow> bat_reaches b (bat_emit (BatCmdResponse opCode cmdSeq x) b')" for b' x
    by (erule rtranclp.rtrancl_into_rtrancl) (rule response)
  have "bat_reaches b (BATTERY_SET_LOW_THRESHOLD_cmdHandler opCode cmdSeq t b)"
  proof (cases "t < 1 \<or> t > 99")
    case True
    show ?thesis unfolding BATTERY_SET_LOW_THRESHOLD_cmdHandler_def if_P [OF True] by (rule emit) simp
  next
    case False
    then have t: "1 \<le> t" "t \<le> 99" by (simp_all only: not_less de_Morgan_disj)
    show ?thesis unfolding BATTERY_SET_LOW_THRESHOLD_cmdHandler_def if_not_P [OF False]
      by (intro emit r_into_rtranclp threshold t)
  qed
  then show ?thesis using set(2) by (simp add: on_return_def)
qed

subsection \<open>Runs of the firmware\<close>

definition fw_reaches :: "'d firmware \<Rightarrow> 'd firmware \<Rightarrow> bool" where
  "fw_reaches s s' \<longleftrightarrow> gps_wf (gpsReceiver s') \<and> bat_reaches (batteryMonitor s) (batteryMonitor s')
     \<and> gps_reaches (gpsReceiver s) (gpsReceiver s') \<and> lora_reaches (loraDriver s) (loraDriver s')"

lemma fw_reaches_refl: "gps_wf (gpsReceiver s) \<Longrightarrow> fw_reaches s s"
  by (simp add: fw_reaches_def)

lemma fw_reaches_trans: "fw_reaches s s1 \<Longrightarrow> fw_reaches s1 s2 \<Longrightarrow> fw_reaches s s2"
  unfolding fw_reaches_def by (auto intro: rtranclp_trans)

lemma fw_reaches_hw [simp]: "fw_reaches s (s'\<lparr>hw := w\<rparr>) = fw_reaches s s'" "fw_reaches (s\<lparr>hw := w\<rparr>) s' = fw_reaches s s'"
  by (simp_all add: fw_reaches_def)

lemma with_lora_says:
  assumes "gps_wf (gpsReceiver s)" "\<And>l w. on_return (\<lambda>(l', w'). lora_reaches l l') (f l w)"
  shows "on_return (fw_reaches s) (with_lora f s)"
  unfolding with_lora_def using assms(1)
  by (auto intro!: post_rules simp: fw_reaches_def dest: postD [OF assms(2)])

lemma with_lora_tells:
  assumes "\<And>l w. on_return (\<lambda>(l', w'). lora_tells l l') (f l w)"
  shows "on_return (\<lambda>s'. lora_tells (loraDriver s) (loraDriver s')) (with_lora f s)"
  unfolding with_lora_def by (auto intro!: post_rules dest: postD [OF assms])

lemmas lora_handlers_tell = preamble_says lora_schedIn_says lora_commands_say LORA_RESET_says

lemma tells_post: "on_return (\<lambda>(l', w'). lora_tells l l') m \<Longrightarrow> on_return (\<lambda>(l', w'). lora_reaches l l') m"
  by (auto simp: on_return_def intro: tells_reaches)

lemma gps_reset_says: "gps_reaches g (gps_emit (GpsCmdOK opCode cmdSeq) (g\<lparr>m_lineLen := 0, m_lastFixQuality := 0\<rparr>))"
  using reset [of "m_lastFixQuality g" "m_sentenceCount g" "gps_out g"]
  by (auto simp: gps_view_def gps_emit_def)

lemma gps_set_enabled_says: "gps_reaches g (GPS_SET_ENABLED_cmdHandler opCode cmdSeq e g)"
  using set_enabled [of "m_lastFixQuality g" "m_sentenceCount g" "gps_out g"]
  by (auto simp: gps_view_def gps_emit_def GPS_SET_ENABLED_cmdHandler_def)

lemma gps_handlers_say:
  assumes "gps_wf g"
  shows "on_return (\<lambda>(g', w'). gps_wf g' \<and> gps_reaches g g') (gps_schedIn_handler g w)"
    and "on_return (\<lambda>(g', w'). gps_wf g' \<and> gps_reaches g g') (GPS_RESET_cmdHandler opCode cmdSeq g w)"
    and "gps_wf (GPS_SET_ENABLED_cmdHandler opCode cmdSeq e g)"
  using gps_drain_says [OF assms] assms gps_reset_says [of g]
  by (auto simp: gps_schedIn_handler_def GPS_RESET_cmdHandler_def GPS_SET_ENABLED_cmdHandler_def gps_wf_def gps_emit_def
      intro!: post_rules)

lemma with_gps_says:
  assumes "\<And>w. on_return (\<lambda>(g', w'). gps_wf g' \<and> gps_reaches (gpsReceiver s) g') (f (gpsReceiver s) w)"
  shows "on_return (fw_reaches s) (with_gps f s)"
  unfolding with_gps_def by (auto intro!: post_rules simp: fw_reaches_def dest: postD [OF assms])

lemma fw_handle_says:
  assumes "gps_wf (gpsReceiver s)"
  shows "on_return (fw_reaches s) (fw_handle sdk c s)"
proof (cases c)
  case (BatteryCall bc)
  then show ?thesis
    using assms by (auto simp: fw_handle_def fw_reaches_def intro!: post_rules dest: postD [OF bat_handle_says])
next
  case (GpsSetEnabled opCode cmdSeq e)
  then show ?thesis
    using gps_handlers_say(3) [OF assms] gps_set_enabled_says by (simp add: fw_handle_def on_return_def fw_reaches_def)
qed (simp_all add: fw_handle_def with_gps_says gps_handlers_say assms with_lora_says dataIn_says
    lora_handlers_tell [THEN tells_post])

text \<open>Every handler but \<open>dataIn\<close> is silent about transmissions.\<close>

lemma fw_handle_quiet:
  assumes "\<forall>payload. c \<noteq> LoraDataIn payload"
  shows "on_return (\<lambda>s'. lora_tells (loraDriver s) (loraDriver s')) (fw_handle sdk c s)"
  using assms
  by (cases c) (auto simp: fw_handle_def with_lora_tells lora_handlers_tell with_gps_def intro!: post_rules)

lemma fw_handles_say: "gps_wf (gpsReceiver s) \<Longrightarrow> on_return (fw_reaches s) (foldM (fw_handle sdk) calls s)"
proof (induction calls arbitrary: s)
  case Nil
  then show ?case by (simp add: on_return_def fw_reaches_refl)
next
  case (Cons c calls)
  have "fw_reaches s s2" if "fw_handle sdk c s = Some s1" "foldM (fw_handle sdk) calls s1 = Some s2" for s1 s2
  proof -
    have s1: "fw_reaches s s1" using postD [OF fw_handle_says [OF Cons.prems] that(1)] .
    then have "gps_wf (gpsReceiver s1)" by (simp add: fw_reaches_def)
    from fw_reaches_trans [OF s1 postD [OF Cons.IH [OF this] that(2)]] show ?thesis .
  qed
  then show ?case by (auto simp: on_return_def Option.bind_eq_Some_conv)
qed

text \<open>
  A property of the firmware and the number of completed ticks: kept by the watchdog, and led by each tick's
  list of handlers from \<open>n\<close> to \<open>n + 1\<close>, it holds throughout every run.
\<close>

abbreviation ticks_done :: "'s main_state \<Rightarrow> nat" where
  "ticks_done m \<equiv> count_list (main_log m) Ticked"

lemma main_exec_run:
  assumes hw: "\<And>n s c. J n s \<Longrightarrow> J n (s\<lparr>hw := sdk_do c (hw s)\<rparr>)"
    and tick: "\<And>n s s'. J n s \<Longrightarrow> n < length ticks \<Longrightarrow> foldM (fw_handle sdk) (ticks ! n) s = Some s' \<Longrightarrow> J (Suc n) s'"
    and idle: "\<And>n s. J n s \<Longrightarrow> length ticks \<le> n \<Longrightarrow> J (Suc n) s"
    and start: "J (ticks_done m) (fst (main_app m)) \<and> snd (main_app m) = drop (ticks_done m) ticks"
  shows "on_return (\<lambda>m'. J (ticks_done m') (fst (main_app m')) \<and> snd (main_app m') = drop (ticks_done m') ticks)
    (main_exec fw_kick (BaremetalTimer_tick sdk) acts m)"
  using start
proof (induction acts arbitrary: m)
  case Nil
  then show ?case by (simp add: main_exec_def on_return_def)
next
  case (Cons a acts)
  let ?n = "ticks_done m"
  obtain s rest where app: "main_app m = (s, rest)" by (cases "main_app m")
  have J: "J ?n s" and rest: "rest = drop ?n ticks" using Cons.prems app by simp_all
  have more: "rest = c # cs \<Longrightarrow> ?n < length ticks \<and> c = ticks ! ?n \<and> cs = drop (Suc ?n) ticks" for c cs
    using rest by (metis drop_eq_Nil2 hd_drop_conv_nth linorder_not_le list.distinct(1) list.sel(1) list.sel(3) tl_drop drop_Suc)
  have step: "J (ticks_done m1) (fst (main_app m1)) \<and> snd (main_app m1) = drop (ticks_done m1) ticks"
    if act: "main_act fw_kick (BaremetalTimer_tick sdk) a m = Some m1" for m1
  proof (cases "a = LoopStep \<and> main_pc m = Ticking")
    case False
    then have "ticks_done m1 = ?n" "snd (main_app m1) = rest" "fst (main_app m1) = s \<or> (\<exists>c. fst (main_app m1) = s\<lparr>hw := sdk_do c (hw s)\<rparr>)"
      using act app by (cases a; cases "main_pc m"; force simp: main_act_defs fw_kick_def hal_watchdog_kick_def split: if_splits)+
    then show ?thesis using J rest hw [OF J] by auto
  next
    case True
    with act app obtain s1 rest1 where m1: "BaremetalTimer_tick sdk (s, rest) = Some (s1, rest1)" "main_app m1 = (s1, rest1)"
      "ticks_done m1 = Suc ?n" by (auto simp: main_act_defs Option.bind_eq_Some_conv)
    show ?thesis
    proof (cases rest)
      case Nil
      then have "length ticks \<le> ?n" using rest by simp
      with m1 Nil idle [OF J] show ?thesis by (simp add: BaremetalTimer_tick_def)
    next
      case (Cons c cs)
      with m1 have "foldM (fw_handle sdk) c s = Some s1" "rest1 = cs"
        by (auto simp: BaremetalTimer_tick_def Option.bind_eq_Some_conv)
      with m1 more [OF Cons] tick [OF J, of s1] show ?thesis by simp
    qed
  qed
  show ?case
    using Cons.IH [OF step] by (auto simp: on_return_def main_exec_Cons)
qed

lemma fw_main_run:
  assumes "fw_main sdk setup ticks acts s0 = Some m"
    and "\<And>s. foldM (fw_handle sdk) setup (hw_init sdk s0) = Some s \<Longrightarrow> J 0 s"
    and "\<And>n s c. J n s \<Longrightarrow> J n (s\<lparr>hw := sdk_do c (hw s)\<rparr>)"
    and "\<And>n s s'. J n s \<Longrightarrow> n < length ticks \<Longrightarrow> foldM (fw_handle sdk) (ticks ! n) s = Some s' \<Longrightarrow> J (Suc n) s'"
    and "\<And>n s. J n s \<Longrightarrow> length ticks \<le> n \<Longrightarrow> J (Suc n) s"
  shows "J (ticks_done m) (fst (main_app m))"
proof -
  from assms(1) obtain s where s: "main_setup sdk setup s0 = Some s"
    "main_exec fw_kick (BaremetalTimer_tick sdk) acts (main_start (s, ticks)) = Some m"
    by (auto simp: fw_main_def Option.bind_eq_Some_conv)
  have "J 0 s" using s(1) assms(2,3) by (auto simp: main_setup_def Option.bind_eq_Some_conv)
  then show ?thesis
    using postD [OF main_exec_run [where J = J and m = "main_start (s, ticks)", OF assms(3,4,5)] s(2)]
    by (simp add: main_start_def)
qed

lemma hw_init_parts: "fw_reaches (fw_reset w d) (hw_init sdk (fw_reset w d))"
  using gps_init_wf by (auto simp: fw_reaches_def hw_init_def fw_reset_def Let_def split: prod.splits)

lemma fw_main_says:
  assumes "fw_main sdk setup ticks acts (fw_reset w d) = Some m"
  shows "fw_reaches (fw_reset w d) (fst (main_app m))"
proof (rule fw_main_run [where J = "\<lambda>n. fw_reaches (fw_reset w d)", OF assms], goal_cases)
  case (1 s)
  have "gps_wf (gpsReceiver (hw_init sdk (fw_reset w d)))" using hw_init_parts [of w d sdk] by (simp add: fw_reaches_def)
  from fw_reaches_trans [OF hw_init_parts postD [OF fw_handles_say [OF this] 1]] show ?case .
next
  case (3 n s s')
  have "gps_wf (gpsReceiver s)" using 3(1) by (simp add: fw_reaches_def)
  from fw_reaches_trans [OF 3(1) postD [OF fw_handles_say [OF this] 3(3)]] show ?case .
qed simp_all

subsection \<open>Invariants of the protocol\<close>

text \<open>The declared types and the documented ranges.\<close>

definition well_typed :: "(fpp_type \<times> int) list \<Rightarrow> bool" where
  "well_typed args \<longleftrightarrow> (\<forall>(t, v) \<in> set args. fits t v)"

definition bat_value_ok :: "bat_output \<Rightarrow> bool" where
  "bat_value_ok x \<longleftrightarrow> well_typed (bat_args x) \<and>
     (case x of
        TlmBatteryPercent p \<Rightarrow> p \<in> {12, 37, 62, 88, 100}
      | TlmChargeState c \<Rightarrow> c \<le> 7
      | LogI2cReadError reg err \<Rightarrow> reg = IP5306_REG_READ0 \<and> err \<in> {HAL_ERR_TIMEOUT, HAL_ERR_BUS, HAL_ERR_INVAL}
      | LogBatteryLow p \<Rightarrow> p \<in> {12, 37, 62, 88, 100}
      | LogBatteryCritical _ \<Rightarrow> False
      | LogChargeStateChanged c \<Rightarrow> c \<le> 7
      | _ \<Rightarrow> True)"

definition gps_value_ok :: "gps_output \<Rightarrow> bool" where
  "gps_value_ok x \<longleftrightarrow> well_typed (gps_args x) \<and>
     (case x of
        TlmUtcTime u \<Rightarrow> u < 2 ^ 24
      | LogNmeaChecksumError s \<Rightarrow> 0 \<notin> set s
      | LogFixAcquired _ \<Rightarrow> True
      | LogUartOverrun n \<Rightarrow> n = 99
      | LogParseError i \<Rightarrow> i \<in> {0, 2, 4, 6, 7, 8, 9}
      | _ \<Rightarrow> True)"

definition lora_value_ok :: "lora_output \<Rightarrow> bool" where
  "lora_value_ok x \<longleftrightarrow> well_typed (lora_args x) \<and>
     (case x of
        TlmModuleState s \<Rightarrow> s \<in> {1, 2}
      | LogInitFailed a \<Rightarrow> a = 3
      | _ \<Rightarrow> True)"

lemmas value_ok_defs = bat_value_ok_def bat_args_def gps_value_ok_def gps_args_def lora_value_ok_def lora_args_def well_typed_def

lemma fits_word [simp]:
  "fits U8 (uint (b :: u8))" "fits U16 (uint (h :: u16))" "fits U32 (uint (n :: u32))"
proof -
  have "uint b < 2 ^ LENGTH(8)" "uint h < 2 ^ LENGTH(16)" "uint n < 2 ^ LENGTH(32)" by (rule unsigned_less)+
  then show "fits U8 (uint b)" "fits U16 (uint h)" "fits U32 (uint n)" by (simp_all add: fits_def)
qed

lemma fits_small [simp]: "0 \<le> v \<Longrightarrow> v < 100 \<Longrightarrow> fits t v"
  by (cases t) (simp_all add: fits_def)

lemma fits_hal [simp]: "err \<in> {HAL_ERR_TIMEOUT, HAL_ERR_BUS, HAL_ERR_INVAL} \<Longrightarrow> fits I32 err"
  by (auto simp: fits_def HAL_ERR_TIMEOUT_def HAL_ERR_BUS_def HAL_ERR_INVAL_def)

lemma bat_says_typed: "bat_says b b' \<Longrightarrow> \<forall>x \<in> set (bat_out b). bat_value_ok x \<Longrightarrow> \<forall>x \<in> set (bat_out b'). bat_value_ok x"
proof (induction rule: bat_says.induct)
  case (reading r b)
  show ?case
  proof (cases r)
    case (ReadFailed err)
    then have "err \<in> {HAL_ERR_TIMEOUT, HAL_ERR_BUS, HAL_ERR_INVAL}" using reading(1) by (simp only: valid_reading_def bat_reading.case)
    with ReadFailed reading(2) show ?thesis by (simp add: bat_apply_def value_ok_defs)
  next
    case (Reading full charge p out)
    then have "charge \<le> 7" "p \<in> {12, 37, 62, 88, 100}" using reading(1) by (simp_all add: valid_reading_def)
    moreover from this(2) have "\<not> p \<le> BATTERY_CRITICAL_THRESHOLD" by (auto simp: BATTERY_CRITICAL_THRESHOLD_def)
    ultimately show ?thesis
      using Reading reading(2)
      by (auto simp: bat_apply_def transition_events_def threshold_events_def bat_emit_def Let_def value_ok_defs)
  qed
qed (auto simp: bat_emit_def value_ok_defs)

lemma gps_says_typed: "gps_says v v' \<Longrightarrow> \<forall>x \<in> set (snd (snd v)). gps_value_ok x \<Longrightarrow> \<forall>x \<in> set (snd (snd v')). gps_value_ok x"
  by (induction rule: gps_says.induct) (auto simp: value_ok_defs fix_event_def)

lemma lora_says_typed:
  "lora_says v v' \<Longrightarrow> \<forall>x \<in> set (snd (snd (snd (snd v)))). lora_value_ok x \<Longrightarrow> \<forall>x \<in> set (snd (snd (snd (snd v')))). lora_value_ok x"
  by (induction rule: lora_says.induct) (auto simp: value_ok_defs)

text \<open>
  A counter that starts at zero, is sent each time it is incremented, and is never sent otherwise:
  the values sent are 1, 2, 3 and so on (modulo 2 to the 32).
\<close>

definition counts :: "u32 \<Rightarrow> u32 list \<Rightarrow> bool" where
  "counts c sent_values \<longleftrightarrow> sent_values = map of_nat [1..<Suc (length sent_values)] \<and> c = of_nat (length sent_values)"

lemma counts_simps [simp]: "counts 0 []" "counts c xs \<Longrightarrow> counts (c + 1) (xs @ [c + 1])"
  by (auto simp: counts_def)

definition i2c_error_values :: "bat_output list \<Rightarrow> u32 list" where
  "i2c_error_values xs = concat (map (\<lambda>x. case x of TlmI2cErrors n \<Rightarrow> [n] | _ \<Rightarrow> []) xs)"

definition read_errors :: "bat_output list \<Rightarrow> nat" where
  "read_errors xs = length (concat (map (\<lambda>x. case x of LogI2cReadError _ _ \<Rightarrow> [x] | _ \<Rightarrow> []) xs))"

definition sentence_values :: "gps_output list \<Rightarrow> u32 list" where
  "sentence_values xs = concat (map (\<lambda>x. case x of TlmSentenceCount n \<Rightarrow> [n] | _ \<Rightarrow> []) xs)"

definition fix_reports :: "gps_output list \<Rightarrow> u8 list" where
  "fix_reports xs = concat (map (\<lambda>x. case x of TlmFixQuality q \<Rightarrow> [q] | _ \<Rightarrow> []) xs)"

definition tx_values :: "lora_output list \<Rightarrow> u32 list" where
  "tx_values xs = concat (map (\<lambda>x. case x of TlmTxPacketCount n \<Rightarrow> [n] | _ \<Rightarrow> []) xs)"

definition tx_error_values :: "lora_output list \<Rightarrow> u32 list" where
  "tx_error_values xs = concat (map (\<lambda>x. case x of TlmTxErrorCount n \<Rightarrow> [n] | _ \<Rightarrow> []) xs)"

definition rx_values :: "lora_output list \<Rightarrow> u32 list" where
  "rx_values xs = concat (map (\<lambda>x. case x of TlmRxPacketCount n \<Rightarrow> [n] | _ \<Rightarrow> []) xs)"

definition packet_events :: "lora_output list \<Rightarrow> (int \<times> int) list" where
  "packet_events xs = concat (map (\<lambda>x. case x of LogPacketReceived r s \<Rightarrow> [(r, s)] | _ \<Rightarrow> []) xs)"

definition tx_error_events :: "lora_output list \<Rightarrow> u8 list" where
  "tx_error_events xs = concat (map (\<lambda>x. case x of LogTxError e \<Rightarrow> [e] | _ \<Rightarrow> []) xs)"

definition module_values :: "lora_output list \<Rightarrow> u8 list" where
  "module_values xs = concat (map (\<lambda>x. case x of TlmModuleState s \<Rightarrow> [s] | _ \<Rightarrow> []) xs)"

lemmas stream_defs = i2c_error_values_def read_errors_def sentence_values_def fix_reports_def tx_values_def tx_error_values_def
  rx_values_def packet_events_def tx_error_events_def module_values_def

lemma streams_append [simp]:
  "i2c_error_values (xs @ ys) = i2c_error_values xs @ i2c_error_values ys" "read_errors (xs @ ys) = read_errors xs + read_errors ys"
  "sentence_values (as @ bs) = sentence_values as @ sentence_values bs" "fix_reports (as @ bs) = fix_reports as @ fix_reports bs"
  "tx_values (us @ vs) = tx_values us @ tx_values vs" "tx_error_values (us @ vs) = tx_error_values us @ tx_error_values vs"
  "rx_values (us @ vs) = rx_values us @ rx_values vs" "packet_events (us @ vs) = packet_events us @ packet_events vs"
  "tx_error_events (us @ vs) = tx_error_events us @ tx_error_events vs" "module_values (us @ vs) = module_values us @ module_values vs"
  by (simp_all add: stream_defs)

lemma streams_Cons [simp]:
  "i2c_error_values (x # xs) = (case x of TlmI2cErrors n \<Rightarrow> [n] | _ \<Rightarrow> []) @ i2c_error_values xs"
  "read_errors (x # xs) = (case x of LogI2cReadError _ _ \<Rightarrow> 1 | _ \<Rightarrow> 0) + read_errors xs"
  "sentence_values (a # as) = (case a of TlmSentenceCount n \<Rightarrow> [n] | _ \<Rightarrow> []) @ sentence_values as"
  "fix_reports (a # as) = (case a of TlmFixQuality q \<Rightarrow> [q] | _ \<Rightarrow> []) @ fix_reports as"
  "tx_values (u # us) = (case u of TlmTxPacketCount n \<Rightarrow> [n] | _ \<Rightarrow> []) @ tx_values us"
  "tx_error_values (u # us) = (case u of TlmTxErrorCount n \<Rightarrow> [n] | _ \<Rightarrow> []) @ tx_error_values us"
  "rx_values (u # us) = (case u of TlmRxPacketCount n \<Rightarrow> [n] | _ \<Rightarrow> []) @ rx_values us"
  "packet_events (u # us) = (case u of LogPacketReceived r s \<Rightarrow> [(r, s)] | _ \<Rightarrow> []) @ packet_events us"
  "tx_error_events (u # us) = (case u of LogTxError e \<Rightarrow> [e] | _ \<Rightarrow> []) @ tx_error_events us"
  "module_values (u # us) = (case u of TlmModuleState s \<Rightarrow> [s] | _ \<Rightarrow> []) @ module_values us"
  by (simp_all add: stream_defs split: bat_output.split)

lemma streams_Nil [simp]:
  "i2c_error_values [] = []" "read_errors [] = 0" "sentence_values [] = []" "fix_reports [] = []" "tx_values [] = []"
  "tx_error_values [] = []" "rx_values [] = []" "packet_events [] = []" "tx_error_events [] = []" "module_values [] = []"
  by (simp_all add: stream_defs)

definition bat_counted :: "battery \<Rightarrow> bool" where
  "bat_counted b \<longleftrightarrow> counts (m_i2cErrors b) (i2c_error_values (bat_out b))
     \<and> read_errors (bat_out b) = length (i2c_error_values (bat_out b))"

definition gps_counted :: "gps_view \<Rightarrow> bool" where
  "gps_counted v \<longleftrightarrow> (case v of (q, n, out) \<Rightarrow>
     counts n (sentence_values out) \<and> length (fix_reports out) = length (sentence_values out))"

definition lora_counted :: "lora_view \<Rightarrow> bool" where
  "lora_counted v \<longleftrightarrow> (case v of (st, tx, err, rx, out) \<Rightarrow>
     counts tx (tx_values out) \<and> counts err (tx_error_values out) \<and> counts rx (rx_values out)
     \<and> length (packet_events out) = length (rx_values out) \<and> length (tx_error_events out) \<le> length (tx_error_values out)
     \<and> lora_state_code st = last (0 # module_values out))"

lemma bat_says_counted: "bat_says b b' \<Longrightarrow> bat_counted b \<Longrightarrow> bat_counted b'"
proof (induction rule: bat_says.induct)
  case (reading r b)
  then show ?case
    by (cases r) (auto simp: bat_counted_def bat_apply_def transition_events_def threshold_events_def bat_emit_def Let_def)
qed (auto simp: bat_counted_def bat_emit_def)

lemma gps_says_counted: "gps_says v v' \<Longrightarrow> gps_counted v \<Longrightarrow> gps_counted v'"
  by (induction rule: gps_says.induct) (auto simp: gps_counted_def fix_event_def)

lemma lora_says_counted: "lora_says v v' \<Longrightarrow> lora_counted v \<Longrightarrow> lora_counted v'"
  by (induction rule: lora_says.induct) (auto simp: lora_counted_def lora_state_code_def)

text \<open>The run of each component, from its constructor; what one protocol step keeps, a run keeps.\<close>

lemma fw_main_parts:
  assumes "fw_main sdk setup ticks acts (fw_reset w d) = Some m"
  shows "bat_reaches battery_init (batteryMonitor (fst (main_app m)))"
    and "gps_says\<^sup>*\<^sup>* (0, 0, []) (gps_view (gpsReceiver (fst (main_app m))))"
    and "lora_says\<^sup>*\<^sup>* (UNINIT, 0, 0, 0, []) (lora_view (loraDriver (fst (main_app m))))"
  using fw_main_says [OF assms]
  by (simp_all add: fw_reaches_def fw_reset_def gps_view_def lora_view_def gps_init_def lora_init_def)

lemma run_keeps: "r\<^sup>*\<^sup>* a b \<Longrightarrow> I a \<Longrightarrow> (\<And>x y. r x y \<Longrightarrow> I x \<Longrightarrow> I y) \<Longrightarrow> I b"
  by (induction rule: rtranclp_induct) auto

lemma fw_main_typed:
  assumes "fw_main sdk setup ticks acts (fw_reset w d) = Some m"
  shows "let s = fst (main_app m) in
    (\<forall>x \<in> set (bat_out (batteryMonitor s)). bat_value_ok x)
    \<and> (\<forall>x \<in> set (gps_out (gpsReceiver s)). gps_value_ok x)
    \<and> (\<forall>x \<in> set (lora_out (loraDriver s)). lora_value_ok x)"
proof -
  note run = fw_main_parts [OF assms]
  have "\<forall>x \<in> set (bat_out (batteryMonitor (fst (main_app m)))). bat_value_ok x"
    by (rule run_keeps [OF run(1)]) (simp add: battery_init_def, rule bat_says_typed)
  moreover have "\<forall>x \<in> set (snd (snd (gps_view (gpsReceiver (fst (main_app m)))))). gps_value_ok x"
    by (rule run_keeps [OF run(2)]) (simp, rule gps_says_typed)
  moreover have "\<forall>x \<in> set (snd (snd (snd (snd (lora_view (loraDriver (fst (main_app m)))))))). lora_value_ok x"
    by (rule run_keeps [OF run(3)]) (simp, rule lora_says_typed)
  ultimately show ?thesis by (simp add: Let_def gps_view_def lora_view_def)
qed

lemma fw_main_counted:
  assumes "fw_main sdk setup ticks acts (fw_reset w d) = Some m"
  shows "let s = fst (main_app m) in
    bat_counted (batteryMonitor s) \<and> gps_counted (gps_view (gpsReceiver s)) \<and> lora_counted (lora_view (loraDriver s))"
proof -
  note run = fw_main_parts [OF assms]
  have "bat_counted (batteryMonitor (fst (main_app m)))"
    by (rule run_keeps [OF run(1)]) (simp add: bat_counted_def battery_init_def, rule bat_says_counted)
  moreover have "gps_counted (gps_view (gpsReceiver (fst (main_app m))))"
    by (rule run_keeps [OF run(2)]) (simp add: gps_counted_def, rule gps_says_counted)
  moreover have "lora_counted (lora_view (loraDriver (fst (main_app m))))"
    by (rule run_keeps [OF run(3)]) (simp add: lora_counted_def lora_state_code_def, rule lora_says_counted)
  ultimately show ?thesis by (simp add: Let_def)
qed

subsection \<open>Two documented ranges the code does not enforce\<close>

text \<open>A chip whose registers all hold the charge state \<open>c\<close> in bits 4 to 2.\<close>

definition charge_bus :: "u8 \<Rightarrow> unit i2c_sdk" where
  "charge_bus c = \<lparr>i2c_init = (\<lambda>f d. (f, d)), gpio_set_function_i2c = (\<lambda>_ d. d), gpio_pull_up = (\<lambda>_ d. d),
     i2c_write_timeout_us = (\<lambda>_ bs _ _ d. (int (length bs), d)), i2c_read_timeout_us = (\<lambda>_ n _ _ d. ((int n, replicate n (4 * c)), d)),
     PICO_ERROR_GENERIC = - 1, PICO_ERROR_TIMEOUT = - 2\<rparr>"

lemma charge_bus_sample: "c \<in> {5, 6, 7} \<Longrightarrow> \<exists>full p out. bat_sample (charge_bus c) () = (Reading full c p out, ())"
proof -
  have "bat_sample (charge_bus 5) () = (Reading False 5 62 False, ())" by code_simp
  moreover have "bat_sample (charge_bus 6) () = (Reading True 6 100 True, ())" by code_simp
  moreover have "bat_sample (charge_bus 7) () = (Reading True 7 100 True, ())" by code_simp
  ultimately show "c \<in> {5, 6, 7} \<Longrightarrow> ?thesis" by blast
qed

lemma charge_range_exceeded:
  "\<forall>c \<in> {5, 6, 7}. \<exists>b'. doPoll (charge_bus c) battery_init () = Some (b', ()) \<and> TlmChargeState c \<in> set (bat_out b')"
proof
  fix c :: u8
  assume "c \<in> {5, 6, 7}"
  from charge_bus_sample [OF this]
  show "\<exists>b'. doPoll (charge_bus c) battery_init () = Some (b', ()) \<and> TlmChargeState c \<in> set (bat_out b')"
    by (auto simp: doPoll_apply bat_apply_def bat_event_defs Let_def)
qed

text \<open>A report with the fix quality of dead reckoning.\<close>

definition fx_estimated :: gga_fix where
  "fx_estimated = fx_sample\<lparr>fx_quality := ascii ''6''\<rparr>"

lemma fx_estimated_ok: "fx_ok fx_estimated" "length (fx_line fx_estimated) = 65" "TlmFixQuality 6 \<in> set (fx_outputs 0 fx_estimated)"
  by code_simp+

lemma quality_range_exceeded:
  "\<exists>g' w'. gps_schedIn_handler gps_init (sim_world [] (fx_line fx_estimated @ [13, 10])) = Some (g', w') \<and> TlmFixQuality 6 \<in> set (gps_out g')"
proof -
  have i: "m_lineLen gps_init = 0" "m_enabled gps_init" "m_lastFixQuality gps_init = 0" "gps_out gps_init = []"
    by (simp_all add: gps_init_def)
  have len: "length (fx_line fx_estimated) \<le> 99" using fx_estimated_ok(2) by simp
  obtain g' where g': "foldM gps_byte (fx_line fx_estimated @ [13, 10]) gps_init = Some g'"
    "gps_core g' = gps_core (fx_effect fx_estimated gps_init)"
    using gps_frame_fix [OF fx_estimated_ok(1) len gps_init_wf i(1)] by blast
  then have out: "TlmFixQuality 6 \<in> set (gps_out g')"
    using fx_estimated_ok(3) i(3,4) by (auto simp: gps_core_def fx_effect_def)
  let ?w = "sim_world [] (fx_line fx_estimated @ [13, 10])"
  have w: "world_wf ?w" "rx_quiet HAL_UART1 ?w" "rx_list HAL_UART1 ?w = fx_line fx_estimated @ [13, 10]"
    using fx_estimated_ok(2) by (simp, simp, intro sim_world_rx(2), simp)
  from gps_schedIn_quiet [OF w(1,2) _ i(2), of g'] w(3) g'(1) fx_estimated_ok(2) out show ?thesis by auto
qed

subsection \<open>Properties\<close>

text \<open>
  C5: Every run of \<open>main\<close> from reset, whatever the framework, the hardware and the timer interrupts do,
  is a run of the telemetry protocol: each component only ever sends the sequences its protocol
  allows, with the counters and states that go with them.
\<close>

theorem firmware_follows_protocol:
  assumes "fw_main sdk setup ticks acts (fw_reset w d) = Some m"
  shows "let s = fst (main_app m) in
    bat_says\<^sup>*\<^sup>* battery_init (batteryMonitor s)
    \<and> gps_says\<^sup>*\<^sup>* (0, 0, []) (gps_view (gpsReceiver s))
    \<and> lora_says\<^sup>*\<^sup>* (UNINIT, 0, 0, 0, []) (lora_view (loraDriver s))"
  using fw_main_parts [OF assms] by (simp add: Let_def)

lemma firmware_follows_protocol_witness:
  "\<exists>m. fw_main sim_i2c [] sim_calls sim_acts (fw_reset (sim_world [] []) ()) = Some m
    \<and> bat_says\<^sup>*\<^sup>* battery_init (batteryMonitor (fst (main_app m)))"
proof -
  obtain m where m: "fw_main sim_i2c [] sim_calls sim_acts (fw_reset (sim_world [] []) ()) = Some m" using sim_run by blast
  from firmware_follows_protocol [OF m] m show ?thesis by (auto simp: Let_def)
qed

text \<open>
  C12: In every run of \<open>main\<close>, every telemetry value and event argument that is sent lies in the type its
  channel declares (latitude, longitude and altitude in 32 bits, RSSI and SNR in 16 bits, signed)
  and in the range the code enforces: battery levels are 12, 37, 62, 88 or 100, charge states are three
  bits, UTC times are packed in 24 bits, overruns report 99 bytes, the module state is 1 or 2, and
  \<open>BatteryCritical\<close> is never sent. Two documented ranges are not enforced: \<open>ChargeState\<close> is declared as 0 to 4, but a
  chip that answers 5, 6 or 7 has it published; \<open>FixQuality\<close> is declared as 0 to 2, but a sentence with the quality 6
  (dead reckoning) is published with it.
\<close>

theorem outputs_conform:
  assumes "fw_main sdk setup ticks acts (fw_reset w d) = Some m"
  shows "(let s = fst (main_app m) in
      (\<forall>x \<in> set (bat_out (batteryMonitor s)). bat_value_ok x)
      \<and> (\<forall>x \<in> set (gps_out (gpsReceiver s)). gps_value_ok x)
      \<and> (\<forall>x \<in> set (lora_out (loraDriver s)). lora_value_ok x))
    \<and> (\<forall>c \<in> {5, 6, 7}. \<exists>b'. doPoll (charge_bus c) battery_init () = Some (b', ()) \<and> TlmChargeState c \<in> set (bat_out b'))
    \<and> (\<exists>g' w'. gps_schedIn_handler gps_init (sim_world [] (fx_line fx_estimated @ [13, 10])) = Some (g', w')
        \<and> TlmFixQuality 6 \<in> set (gps_out g'))"
  by (intro conjI fw_main_typed [OF assms] charge_range_exceeded quality_range_exceeded)

lemma outputs_conform_witness:
  "\<exists>m. fw_main sim_i2c [] sim_calls sim_acts (fw_reset (sim_world [] []) ()) = Some m
    \<and> (\<forall>x \<in> set (bat_out (batteryMonitor (fst (main_app m)))). bat_value_ok x)"
proof -
  obtain m where m: "fw_main sim_i2c [] sim_calls sim_acts (fw_reset (sim_world [] []) ()) = Some m" using sim_run by blast
  from outputs_conform [OF m] m show ?thesis by (auto simp: Let_def)
qed

text \<open>
  C11: In every run of \<open>main\<close>, the counters in telemetry are exact: the values sent for I2C errors, sentences,
  sent packets, transmit errors and received packets are 1, 2, 3 and so on without gap or repetition, the last
  one is the component's counter, I2C errors and received packets have one event each, sentences one report
  each, a transmit error at most one event, and the last module state sent is the driver's state.
\<close>

theorem counters_exact:
  assumes "fw_main sdk setup ticks acts (fw_reset w d) = Some m"
  shows "let s = fst (main_app m) in
    bat_counted (batteryMonitor s) \<and> gps_counted (gps_view (gpsReceiver s)) \<and> lora_counted (lora_view (loraDriver s))"
  by (rule fw_main_counted [OF assms])

lemma counters_exact_witness:
  "\<exists>m. fw_main sim_i2c [] sim_calls sim_acts (fw_reset (sim_world [] []) ()) = Some m
    \<and> lora_counted (lora_view (loraDriver (fst (main_app m))))"
proof -
  obtain m where m: "fw_main sim_i2c [] sim_calls sim_acts (fw_reset (sim_world [] []) ()) = Some m" using sim_run by blast
  from counters_exact [OF m] m show ?thesis by (auto simp: Let_def)
qed

end
