(* ===== verification/Wire.thy ===== *)
theory Wire
  imports Hal "HOL-Library.Sublist"
begin

text \<open>
  The bytes the hardware has delivered on a serial line in its first \<open>n\<close> steps are \<open>wire F u n\<close>; what the firmware
  takes from a receive ring is a subsequence of them: a full ring drops bytes, flushes and time-outs discard
  them, but nothing is invented, repeated or reordered. \<open>heard\<close> says so of the bytes taken so far, and every
  HAL operation keeps it.
\<close>

subsection \<open>What was heard on a line\<close>

definition wire :: "(u8 \<Rightarrow> nat \<Rightarrow> bytes) \<Rightarrow> u8 \<Rightarrow> nat \<Rightarrow> bytes" where
  "wire F u n = concat (map (F (rx_fifo_id u)) [0..<n])"

text \<open>The bytes \<open>bs\<close>, then those still in the ring, came over the wire of the hardware \<open>F\<close> in this order.\<close>

definition heard :: "(u8 \<Rightarrow> nat \<Rightarrow> bytes) \<Rightarrow> u8 \<Rightarrow> bytes \<Rightarrow> world \<Rightarrow> bool" where
  "heard F u bs w \<longleftrightarrow> world_wf w \<and> w_fifo w = F \<and> subseq (bs @ rx_list u w) (wire F u (w_step w))"

lemma heard_wf: "heard F u bs w \<Longrightarrow> world_wf w"
  by (simp add: heard_def)

lemma heard_mono: "heard F u bs w \<Longrightarrow> subseq cs bs \<Longrightarrow> heard F u cs w"
  unfolding heard_def by (meson list_emb_append_mono subseq_order.order_refl subseq_order.order_trans)

lemma heard_drop:
  "heard F u (xs @ ys) w \<Longrightarrow> heard F u xs w"
  "heard F u (xs @ ys @ zs) w \<Longrightarrow> heard F u (xs @ zs) w"
  "heard F u (xs @ ys @ zs) w \<Longrightarrow> heard F u (xs @ ys) w"
  by (erule heard_mono, simp add: list_emb_append_mono subseq_drop_many subseq_rev_drop_many)+

lemma heard_fields [simp]:
  "heard F u bs (w\<lparr>w_reads := n\<rparr>) = heard F u bs w" "heard F u bs (w\<lparr>w_calls := cs\<rparr>) = heard F u bs w"
  "heard F u bs (w\<lparr>w_tx0 := xs\<rparr>) = heard F u bs w" "heard F u bs (w\<lparr>w_tx1 := xs\<rparr>) = heard F u bs w"
  by (simp_all add: heard_def world_wf_def rx_list_def rx_of_def wire_def)

lemma heard_calls [simp]:
  "heard F u bs (sdk_do c w) = heard F u bs w" "heard F u bs (uart_putc_raw v x w) = heard F u bs w"
  by (simp_all add: sdk_do_def uart_putc_raw_def)

lemma serve_irqs_heard:
  assumes "heard F u bs w"
  shows "on_return (heard F u bs) (serve_irqs w)"
proof -
  obtain w1 where w1: "serve_irqs w = Some w1" "world_wf w1" "later w w1" "w_step w1 = Suc (w_step w)"
      "rx_list u w1 = rx_list u w @ rx_arriving u w"
    using serve_irqs_spec [OF heard_wf [OF assms]] by blast
  have "w_fifo w1 = F" "wire F u (w_step w1) = wire F u (w_step w) @ w_fifo w (rx_fifo_id u) (w_step w)"
    using assms w1(3,4) by (simp_all add: wire_def heard_def later_def same_hw_def)
  moreover have "subseq (rx_arriving u w) (w_fifo w (rx_fifo_id u) (w_step w))"
    unfolding rx_arriving_def by (intro prefix_imp_subseq take_is_prefix)
  ultimately have "heard F u bs w1"
    using assms w1(2,5) list_emb_append_mono [of "(=)" "bs @ rx_list u w" "wire F u (w_step w)" "rx_arriving u w"] by (simp add: heard_def)
  then show ?thesis using w1(1) by (simp add: on_return_def)
qed

lemma same_line: "rx_of u (set_rx v rb w) = (if (v = HAL_UART0) = (u = HAL_UART0) then rb else rx_of u w)"
  by (auto simp: rx_of_def set_rx_def)

lemma set_rx_fifo [simp]: "w_fifo (set_rx v rb w) = w_fifo w"
  by (simp add: set_rx_def)

text \<open>Reading a byte is the only way to hear it; on the other line nothing is heard.\<close>

lemma getc_heard:
  assumes "heard F u bs w"
  shows "on_return (\<lambda>(rc, b, w'). heard F u (if rc = HAL_OK \<and> (v = HAL_UART0) = (u = HAL_UART0) then bs @ [b] else bs) w')
    (hal_uart_getc v b0 w)"
proof -
  have "heard F u (if rc = HAL_OK \<and> (v = HAL_UART0) = (u = HAL_UART0) then bs @ [b] else bs) (set_rx v rb w1)"
    if "serve_irqs w = Some w1" and g: "uart_getc_nb (rx_of v w1) (Some b0) = Some (rc, Some b, rb)" for w1 rc b rb
  proof -
    have w1: "heard F u bs w1" using postD [OF serve_irqs_heard [OF assms] that(1)] .
    note wf = rx_of_wf [OF heard_wf [OF w1], of v]
    have "rb_wf rb \<and> rb_list (rx_of v w1) = (if rc = HAL_OK then [b] else []) @ rb_list rb"
    proof (cases "rb_list (rx_of v w1)")
      case Nil
      with g uart_getc_nb_empty [OF wf Nil, of b0] wf show ?thesis by simp
    next
      case (Cons c cs)
      then obtain rb' where "uart_getc_nb (rx_of v w1) (Some b0) = Some (HAL_OK, Some c, rb')" "rb_wf rb'" "rb_list rb' = cs"
        using uart_getc_nb_cons [OF wf] by blast
      with g Cons show ?thesis by simp
    qed
    then have rb: "rb_wf rb" "rb_list (rx_of v w1) = (if rc = HAL_OK then [b] else []) @ rb_list rb" by simp_all
    have rx: "rx_list u w1 = rb_list (rx_of v w1)" if "(v = HAL_UART0) = (u = HAL_UART0)"
      using that by (auto simp: rx_list_def rx_of_def)
    show ?thesis
      using w1 rb rx set_rx_wf [OF heard_wf [OF w1] rb(1), of v]
      by (auto simp: heard_def rx_list_def same_line)
  qed
  then show ?thesis
    unfolding hal_uart_getc_def by (auto intro!: post_rules)
qed

lemma flush_heard: "heard F u bs w \<Longrightarrow> on_return (heard F u bs) (hal_uart_rx_flush v w)"
proof -
  assume h: "heard F u bs w"
  have "heard F u bs (set_rx v (uart_rx_flush (rx_of v w1)) w1)" if "heard F u bs w1" for w1
    using that set_rx_wf [OF heard_wf [OF that] uart_rx_flush_wf [OF rx_of_wf [OF heard_wf [OF that], of v]], of v]
    by (auto simp: heard_def rx_list_def same_line uart_rx_flush_list dest: list_emb_append_mono [of "(=)" _ _ "[]"] intro: heard_drop
        subseq_order.order_trans [OF subseq_rev_drop_many [OF subseq_order.order_refl]])
  then show ?thesis
    unfolding hal_uart_rx_flush_def using postD [OF serve_irqs_heard [OF h]] by (auto intro!: post_rules)
qed

lemma time_heard: "heard F u bs w \<Longrightarrow> on_return (\<lambda>(t, w'). heard F u bs w') (hal_time_us w)"
  unfolding hal_time_us_def by (auto intro!: post_rules dest: postD [OF serve_irqs_heard])

lemma delay_heard: "heard F u bs w \<Longrightarrow> on_return (heard F u bs) (hal_delay_ms ms w)"
  unfolding hal_delay_ms_def by (auto intro!: post_rules dest: postD [OF serve_irqs_heard] simp: Let_def)

lemma writable_heard: "heard F u bs w \<Longrightarrow> on_return (\<lambda>(r, w'). heard F u bs w') (uart_is_writable v w)"
  unfolding uart_is_writable_def by (auto intro!: post_rules dest: postD [OF serve_irqs_heard])

lemma heardD:
  "uart_is_writable v w = Some (r, w') \<Longrightarrow> heard F u bs w \<Longrightarrow> heard F u bs w'"
  "hal_time_us w = Some (t, w') \<Longrightarrow> heard F u bs w \<Longrightarrow> heard F u bs w'"
  "hal_delay_ms ms w = Some w' \<Longrightarrow> heard F u bs w \<Longrightarrow> heard F u bs w'"
  "hal_uart_rx_flush v w = Some w' \<Longrightarrow> heard F u bs w \<Longrightarrow> heard F u bs w'"
  by (drule postD [OF writable_heard, rotated], assumption, simp)
    (drule postD [OF time_heard, rotated] postD [OF delay_heard, rotated] postD [OF flush_heard, rotated], assumption, simp)+

lemma wait_writable_heard:
  assumes "heard F u bs w"
  shows "on_return (\<lambda>(r, w'). heard F u bs w') (uart_wait_writable v d w)"
proof -
  have "heard F u bs w \<longrightarrow> heard F u bs (snd r)" if "uart_wait_writable v d w = Some r" for r
  proof (rule uart_wait_writable.raw_induct [where P = "\<lambda>v d w r. heard F u bs w \<longrightarrow> heard F u bs (snd r)", OF _ that], goal_cases)
    case (1 loop v d w r)
    have rec: "on_return (\<lambda>r. heard F u bs (snd r)) (loop v d w)" if "heard F u bs w" for w
      using 1(1) that by (simp add: on_return_def)
    have "on_return (\<lambda>r. heard F u bs (snd r)) (do { (ready, w1) \<leftarrow> uart_is_writable v w; if ready then Some (True, w1)
       else do { (t, w2) \<leftarrow> hal_time_us w1; if t \<ge> d then Some (False, w2) else loop v d w2 } })" if "heard F u bs w"
      by (intro post_rules rec) (use that in \<open>auto intro: heardD\<close>)
    then show ?case using postD [OF _ 1(2)] by blast
  qed
  then show ?thesis using assms by (auto simp: on_return_def)
qed

lemma write_loop_heard: "heard F u bs w \<Longrightarrow> on_return (\<lambda>(rc, w'). heard F u bs w') (uart_write_loop v d buf len i w)"
proof (induction v d buf len i w rule: uart_write_loop.induct)
  case (1 v d buf len i w)
  show ?case
    by (subst uart_write_loop.simps, intro post_rules)
      (use 1 in \<open>auto dest: postD [OF wait_writable_heard [OF 1(2)]]\<close>)
qed

lemma write_heard: "heard F u bs w \<Longrightarrow> on_return (\<lambda>(rc, w'). heard F u bs w') (hal_uart_write v buf len t w)"
  unfolding hal_uart_write_def uart_write_def
  by (auto intro!: post_rules write_loop_heard intro: heardD split: option.split simp: Let_def)

lemma writeD: "hal_uart_write v buf len t w = Some (rc, w') \<Longrightarrow> heard F u bs w \<Longrightarrow> heard F u bs w'"
  by (drule postD [OF write_heard, rotated], assumption, simp)

lemma getcD:
  assumes "hal_uart_getc v b0 w = Some (rc, b, w')" "heard F u bs w"
  shows "heard F u bs w'" "rc = HAL_OK \<Longrightarrow> (v = HAL_UART0) = (u = HAL_UART0) \<Longrightarrow> heard F u (bs @ [b]) w'"
  using postD [OF getc_heard [OF assms(2)] assms(1)] by (auto split: if_splits intro: heard_drop)

end
