(* ===== verification/Provenance.thy ===== *)
theory Provenance
  imports Telemetry Wire
begin

text \<open>
  Where the outputs come from. A ledger pairs the outputs of a component with the bytes they rest on, in order
  and each byte used once, and every handler extends it: no report without the sentence, no packet without its
  line, no success without the answer of the module.
\<close>

subsection \<open>Ledgers\<close>

inductive ledger :: "(bytes \<Rightarrow> 'o list \<Rightarrow> bool) \<Rightarrow> bytes \<Rightarrow> 'o list \<Rightarrow> bool" for origin where
  blank: "ledger origin [] []"
| entry: "ledger origin bs out \<Longrightarrow> origin b xs \<Longrightarrow> ledger origin (bs @ b) (out @ xs)"

lemma ledger_free: "ledger origin bs out \<Longrightarrow> origin [] xs \<Longrightarrow> ledger origin bs (out @ xs)"
  using entry [of origin bs out "[]" xs] by simp

subsection \<open>The GPS receiver\<close>

text \<open>Field \<open>i\<close> of a sentence is refused by its parser.\<close>

definition field_refused :: "bytes list \<Rightarrow> u8 \<Rightarrow> bool" where
  "field_refused ps i \<longleftrightarrow>
     i = 2 \<and> (\<exists>v. parseDegMin (Some (ps ! 2 @ [0])) (hd (ps ! 3 @ [0])) = Some (False, v))
     \<or> i = 4 \<and> (\<exists>v. parseDegMin (Some (ps ! 4 @ [0])) (hd (ps ! 5 @ [0])) = Some (False, v))
     \<or> i = 6 \<and> (\<exists>v. parseU8 (Some (ps ! 6 @ [0])) = Some (False, v))
     \<or> i = 7 \<and> (\<exists>v. parseU8 (Some (ps ! 7 @ [0])) = Some (False, v))
     \<or> i = 8 \<and> (\<exists>v. parseFP (Some (ps ! 8 @ [0])) 100 = Some (False, v))
     \<or> i = 9 \<and> (\<exists>v. parseFP (Some (ps ! 9 @ [0])) 100 = Some (False, v))"

text \<open>A line with the header and a correct checksum, and its fields.\<close>

definition valid_gga :: "bytes \<Rightarrow> bytes list \<Rightarrow> bool" where
  "valid_gga L ps \<longleftrightarrow> gga_header L \<and> checksum_ok L \<and> ps = csv 15 (cstr L)"

text \<open>What the receiver may say, and the characters it says it of.\<close>

inductive gps_origin :: "bytes \<Rightarrow> gps_output list \<Rightarrow> bool" where
  overlong: "length L = 99 \<Longrightarrow> gps_origin (L @ [c]) [LogUartOverrun 99]"
| corrupt: "gga_header L \<Longrightarrow> \<not> checksum_ok L \<Longrightarrow> gps_origin (L @ [10]) [LogNmeaChecksumError (cstr L)]"
| truncated: "valid_gga L ps \<Longrightarrow> length ps < 10 \<Longrightarrow> gps_origin (L @ [10]) [LogParseError 0]"
| refused: "valid_gga L ps \<Longrightarrow> 10 \<le> length ps \<Longrightarrow> field_refused ps i \<Longrightarrow>
    gps_origin (L @ [10]) [TlmUtcTime (utc_hms (ps ! 1)), LogParseError i]"
| sentence: "valid_gga L ps \<Longrightarrow> 10 \<le> length ps \<Longrightarrow>
    parseDegMin (Some (ps ! 2 @ [0])) (hd (ps ! 3 @ [0])) = Some (True, lat) \<Longrightarrow>
    parseDegMin (Some (ps ! 4 @ [0])) (hd (ps ! 5 @ [0])) = Some (True, lon) \<Longrightarrow>
    parseU8 (Some (ps ! 6 @ [0])) = Some (True, quality) \<Longrightarrow>
    parseU8 (Some (ps ! 7 @ [0])) = Some (True, sats) \<Longrightarrow>
    parseFP (Some (ps ! 8 @ [0])) 100 = Some (True, hdop) \<Longrightarrow>
    parseFP (Some (ps ! 9 @ [0])) 100 = Some (True, alt) \<Longrightarrow>
    gps_origin (L @ [10]) ([TlmUtcTime (utc_hms (ps ! 1)), TlmFixQuality quality, TlmSatCount sats, TlmLatitude lat,
      TlmLongitude lon, TlmAltitude alt, TlmHDOP (gga_hdop hdop)] @ fix_event old quality sats @ [TlmSentenceCount n])"
| command: "gps_origin [] [GpsCmdOK opCode cmdSeq]"

text \<open>The parser of the fields says one of the last two, the count still to come.\<close>

definition gga_accounts :: "bytes \<Rightarrow> gps \<Rightarrow> bool \<times> gps \<Rightarrow> bool" where
  "gga_accounts L g r \<longleftrightarrow>
     (case r of (ok, g') \<Rightarrow> \<forall>n. \<exists>xs. gps_out g' @ (if ok then [TlmSentenceCount n] else []) = gps_out g @ xs \<and> gps_origin (L @ [10]) xs)"

lemma gga_fail_accounts:
  "gps_origin (L @ [10]) (pre @ [LogParseError i]) \<Longrightarrow> gps_out g' = gps_out g @ pre \<Longrightarrow> on_return (gga_accounts L g) (gga_fail g' i)"
  by (simp add: on_return_def gga_fail_def gga_accounts_def gps_emit_def)

lemma gga_eval_accounts:
  assumes "valid_gga L ps"
  shows "on_return (gga_accounts L g) (gga_eval g ps)"
proof -
  have refuse: "on_return (gga_accounts L g) (gga_fail (gps_emit (TlmUtcTime (utc_hms (ps ! 1))) g) i)"
    if "10 \<le> length ps" "field_refused ps i" for i
    using gga_fail_accounts [where pre = "[TlmUtcTime (utc_hms (ps ! 1))]"] refused [OF assms that] by (simp add: gps_emit_def)
  have publish: "gga_accounts L g (True, gga_publish (gps_emit (TlmUtcTime (utc_hms (ps ! 1))) g) quality sats lat lon alt (gga_hdop hdop))"
    if "10 \<le> length ps" "parseDegMin (Some (ps ! 2 @ [0])) (hd (ps ! 3 @ [0])) = Some (True, lat)"
      "parseDegMin (Some (ps ! 4 @ [0])) (hd (ps ! 5 @ [0])) = Some (True, lon)" "parseU8 (Some (ps ! 6 @ [0])) = Some (True, quality)"
      "parseU8 (Some (ps ! 7 @ [0])) = Some (True, sats)" "parseFP (Some (ps ! 8 @ [0])) 100 = Some (True, hdop)"
      "parseFP (Some (ps ! 9 @ [0])) 100 = Some (True, alt)" for lat lon quality sats hdop alt
    using sentence [OF assms that] by (simp add: gga_accounts_def gga_publish_eq gps_emit_def)
  have few: "length ps < 10 \<Longrightarrow> on_return (gga_accounts L g) (gga_fail g 0)"
    using truncated [OF assms] by (intro gga_fail_accounts [where pre = "[]"]) simp_all
  show ?thesis
    unfolding gga_eval_def
    by (intro post_rules few; simp only: not_less)
      (auto simp: field_refused_def intro!: refuse [simplified] publish [simplified])
qed

text \<open>
  One character, taken after the \<open>pending\<close> ones: it is stored, skipped or dropped without an output, or it ends
  the line, and what is sent rests on that line.
\<close>

definition byte_accounts :: "(bytes \<Rightarrow> 'o list \<Rightarrow> bool) \<Rightarrow> bytes \<Rightarrow> 'o list \<Rightarrow> bytes \<Rightarrow> 'o list \<Rightarrow> u8 \<Rightarrow> bool" where
  "byte_accounts origin pend out pend' out' b \<longleftrightarrow>
     out' = out \<and> subseq pend' (pend @ [b]) \<or> pend' = [] \<and> (\<exists>xs. out' = out @ xs \<and> origin (pend @ [b]) xs)"

lemma byte_accounts_ledger:
  assumes "byte_accounts origin pend out pend' out' b" "ledger origin bs out" "heard F u (bs @ pend @ [b]) w"
  shows "\<exists>bs'. ledger origin bs' out' \<and> heard F u (bs' @ pend') w"
  using assms unfolding byte_accounts_def
  by (auto intro: entry heard_mono [where bs = "bs @ pend @ [b]"] list_emb_append_mono)

lemma processLine_accounts:
  assumes wf: "gps_wf g"
  shows "on_return (\<lambda>g'. gps_out g' = gps_out g \<or> (\<exists>xs. gps_out g' = gps_out g @ xs \<and> gps_origin (gps_pending g @ [10]) xs)) (processLine g)"
proof -
  let ?L = "gps_pending g"
  note len = gps_wf_pending [OF wf]
  obtain c r where "drop (m_lineLen g) (m_lineBuf g) = c # r"
    using wf by (cases "drop (m_lineLen g) (m_lineBuf g)") (auto simp: gps_wf_def)
  then have "m_lineBuf g = ?L @ c # r" unfolding gps_pending_def by (metis append_take_drop_id)
  then have wr: "wr (m_lineBuf g) (m_lineLen g) 0 = Some (?L @ 0 # r)"
    using len by (simp add: wr_def list_update_append)
  let ?b = "?L @ 0 # r"
  have valid: "verifyChecksum ?b (m_lineLen g) = Some (checksum_ok ?L)"
    using verifyChecksum_spec [of "length ?L" ?b] len by simp
  obtain rest where c: "?b = cstr ?L @ 0 # rest" "0 \<notin> set (cstr ?L)" "length (cstr ?L) \<le> length ?L" by (rule cstr_split)
  have "length (cstr ?L) \<le> 99" "length (gps_scratch (g\<lparr>m_lineBuf := ?b\<rparr>)) = 100" using c(3) len wf by (simp_all add: gps_wf_def)
  then obtain sc where sc: "parseGGA (g\<lparr>m_lineBuf := ?b\<rparr>) ?b = gga_eval (g\<lparr>m_lineBuf := ?b, gps_scratch := sc\<rparr>) (csv 15 (cstr ?L))"
    using parseGGA_csv [OF c(2), of "g\<lparr>m_lineBuf := ?b\<rparr>" rest] c(1) by metis
  have gga: "is_gga ?b (m_lineLen g) = Some (gga_header ?L)" using is_gga_line [of ?L] len by simp
  have parsed: "\<exists>xs. gps_out g1 @ (if ok then [TlmSentenceCount n] else []) = gps_out g @ xs \<and> gps_origin (?L @ [10]) xs"
    if "gga_header ?L" "checksum_ok ?L" "parseGGA (g\<lparr>m_lineBuf := ?b\<rparr>) ?b = Some (ok, g1)" for ok g1 n
  proof -
    have "valid_gga ?L (csv 15 (cstr ?L))" using that by (simp add: valid_gga_def)
    from postD [OF gga_eval_accounts [OF this]] that(3) sc show ?thesis by (fastforce simp: gga_accounts_def)
  qed
  show ?thesis
    unfolding processLine_def wr bind.bind_lunit Let_def gps.simps gga
    by (intro post_rules)
      (auto simp: gga valid gps_emit_def cstr_append_nul intro: corrupt dest: parsed [of True, simplified] parsed [of False _ 0, simplified])
qed

lemma gps_byte_accounts:
  assumes "gps_wf g"
  shows "on_return (\<lambda>g'. byte_accounts gps_origin (gps_pending g) (gps_out g) (gps_pending g') (gps_out g') b) (gps_byte b g)"
proof -
  have core: "gps_out g' = gps_out g''" if "gps_core g' = gps_core g''" for g' g'' using that by (simp add: gps_core_def)
  consider "b = 10" | "b = 13" | "b \<noteq> 10" "b \<noteq> 13" "length (gps_pending g) < 99" | "b \<noteq> 10" "b \<noteq> 13" "length (gps_pending g) = 99"
    using gps_wf_pending [OF assms] by fastforce
  then show ?thesis
  proof cases
    case 1
    have "gps_pending (g'\<lparr>m_lineLen := 0\<rparr>) = []" for g' by (simp add: gps_pending_def)
    with 1 show ?thesis
      unfolding gps_byte_def byte_accounts_def
      by (auto intro!: post_rules dest: postD [OF processLine_accounts [OF assms]] split: if_splits)
  next
    case 2
    then show ?thesis by (simp add: gps_byte_def byte_accounts_def on_return_def subseq_rev_drop_many)
  next
    case 3
    from gps_byte_room [OF assms 3] show ?thesis by (auto simp: on_return_def byte_accounts_def dest: core)
  next
    case 4
    from gps_byte_full [OF assms 4] obtain g' where "gps_byte b g = Some g'" "gps_pending g' = []" "gps_core g' = gps_core (gps_overrun g)"
      by blast
    with core [of g' "gps_overrun g"] overlong [OF 4(3)] show ?thesis
      by (simp add: on_return_def byte_accounts_def gps_overrun_def gps_emit_def)
  qed
qed

text \<open>The account of the receiver: its outputs, from characters heard on UART1 before the unfinished line.\<close>

definition gps_account :: "(u8 \<Rightarrow> nat \<Rightarrow> bytes) \<Rightarrow> gps \<Rightarrow> world \<Rightarrow> bool" where
  "gps_account F g w \<longleftrightarrow> gps_wf g \<and> (\<exists>bs. ledger gps_origin bs (gps_out g) \<and> heard F HAL_UART1 (bs @ gps_pending g) w)"

lemma gps_account_byte:
  assumes "gps_account F g w" "hal_uart_getc HAL_UART1 b0 w = Some (rc, b, w1)"
  shows "rc \<noteq> HAL_OK \<Longrightarrow> gps_account F g w1"
    and "rc = HAL_OK \<Longrightarrow> gps_byte b g = Some g1 \<Longrightarrow> gps_account F g1 w1"
proof -
  obtain bs where bs: "gps_wf g" "ledger gps_origin bs (gps_out g)" "heard F HAL_UART1 (bs @ gps_pending g) w"
    using assms(1) by (auto simp: gps_account_def)
  note h = postD [OF getc_heard [OF bs(3)] assms(2)]
  show "rc \<noteq> HAL_OK \<Longrightarrow> gps_account F g w1" using h bs by (auto simp: gps_account_def)
  show "rc = HAL_OK \<Longrightarrow> gps_byte b g = Some g1 \<Longrightarrow> gps_account F g1 w1"
    using h bs byte_accounts_ledger [OF postD [OF gps_byte_accounts [OF bs(1)]] bs(2), of b g1 F HAL_UART1 w1] gps_byte_keeps [of b g g1]
    by (auto simp: gps_account_def)
qed

lemma gps_drain_account: "gps_account F g w \<Longrightarrow> on_return (\<lambda>(g', w'). gps_account F g' w') (gps_drain lim n b g w)"
proof (induction lim n b g w rule: gps_drain.induct)
  case (1 lim n b g w)
  have "on_return (\<lambda>(g', w'). gps_account F g' w') (gps_drain lim (Suc n) b' g1 w1)"
    if "n < lim" "hal_uart_getc HAL_UART1 b w = Some (HAL_OK, b', w1)" "gps_byte b' g = Some g1" for b' g1 w1
    using 1(1) [OF that(1,2) refl refl refl that(3)] gps_account_byte(2) [OF 1(2) that(2) refl that(3)] by blast
  with 1(2) gps_account_byte(1) [OF 1(2)] show ?case
    by (subst gps_drain.simps) (auto intro!: post_rules)
qed

lemma gps_account_free:
  assumes "gps_account F g w" "gps_origin [] xs" "gps_wf g'" "gps_out g' = gps_out g @ xs" "subseq (gps_pending g') (gps_pending g)"
  shows "gps_account F g' w"
  using assms unfolding gps_account_def by (auto intro: ledger_free heard_mono list_emb_append_mono)

lemma gps_account_heard: "gps_account F g w \<Longrightarrow> (\<And>bs. heard F HAL_UART1 bs w \<Longrightarrow> heard F HAL_UART1 bs w') \<Longrightarrow> gps_account F g w'"
  by (auto simp: gps_account_def)

lemma gps_handlers_account:
  assumes "gps_account F g w"
  shows "on_return (\<lambda>(g', w'). gps_account F g' w') (gps_schedIn_handler g w)"
    and "on_return (\<lambda>(g', w'). gps_account F g' w') (GPS_RESET_cmdHandler opCode cmdSeq g w)"
    and "gps_account F (GPS_SET_ENABLED_cmdHandler opCode cmdSeq e g) w"
proof -
  have wf: "gps_wf g" using assms by (simp add: gps_account_def)
  show "on_return (\<lambda>(g', w'). gps_account F g' w') (gps_schedIn_handler g w)"
    unfolding gps_schedIn_handler_def by (intro post_rules) (auto simp: assms gps_drain_account)
  have "gps_account F (gps_emit (GpsCmdOK opCode cmdSeq) (g\<lparr>m_lineLen := 0, m_lastFixQuality := 0\<rparr>)) w"
    by (rule gps_account_free [OF assms command]) (use wf in \<open>auto simp: gps_wf_def gps_emit_def gps_pending_def\<close>)
  then show "on_return (\<lambda>(g', w'). gps_account F g' w') (GPS_RESET_cmdHandler opCode cmdSeq g w)"
    unfolding GPS_RESET_cmdHandler_def by (intro post_rules) (auto intro: gps_account_heard heardD)
  show "gps_account F (GPS_SET_ENABLED_cmdHandler opCode cmdSeq e g) w"
    by (rule gps_account_free [OF assms command]) (use wf in \<open>auto simp: gps_wf_def gps_emit_def gps_pending_def GPS_SET_ENABLED_cmdHandler_def\<close>)
qed

subsection \<open>The LoRa driver\<close>

text \<open>
  The driver reads UART0 in two ways: polling for packets, and waiting for the answer to a command. Each has a
  ledger of its own, because \<open>readATLine\<close> leaves the answer in the buffer, where \<open>pollRx\<close> goes on: the same
  characters can be the answer to a transmission and the start of a packet line.
\<close>

definition no_packet :: "lora_output \<Rightarrow> bool" where
  "no_packet x \<longleftrightarrow> (case x of TlmLastRxRssi _ \<Rightarrow> False | TlmLastRxSnr _ \<Rightarrow> False | TlmRxPacketCount _ \<Rightarrow> False
     | LogPacketReceived _ _ \<Rightarrow> False | _ \<Rightarrow> True)"

inductive packet_origin :: "bytes \<Rightarrow> lora_output list \<Rightarrow> bool" where
  packet_line: "take 5 L = ascii ''+RCV='' \<Longrightarrow> parseRcv (L @ [0]) = Some (True, rssi, snr) \<Longrightarrow>
    packet_origin (L @ [10]) [TlmLastRxRssi rssi, TlmLastRxSnr snr, TlmRxPacketCount n, LogPacketReceived rssi snr]"
| packet_overlong: "length L = 127 \<Longrightarrow> packet_origin (L @ [c]) [LogAtBufOverrun]"
| packet_free: "list_all no_packet xs \<Longrightarrow> packet_origin [] xs"

text \<open>The answers of the module: \<open>sendAT\<close> takes \<open>+O\<close> and \<open>+R\<close> for success, a transmission \<open>+E\<close> for a refusal.\<close>

definition accepted :: "bytes \<Rightarrow> bool" where
  "accepted L \<longleftrightarrow> L \<noteq> [] \<and> L ! 0 = ch CHR ''+'' \<and> (L @ [0]) ! 1 \<in> {ch CHR ''O'', ch CHR ''R''}"

definition refusal :: "bytes \<Rightarrow> bool" where
  "refusal L \<longleftrightarrow> L \<noteq> [] \<and> L ! 0 = ch CHR ''+'' \<and> (L @ [0]) ! 1 = ch CHR ''E''"

definition refusal_code :: "bytes \<Rightarrow> u8" where
  "refusal_code L = (if 6 \<le> length L then L ! 5 - ch CHR ''0'' else 0)"

definition lines_of :: "bytes list \<Rightarrow> bytes" where
  "lines_of Ls = concat (map (\<lambda>L. L @ [10]) Ls)"

definition no_claim :: "lora_output \<Rightarrow> bool" where
  "no_claim x \<longleftrightarrow> (case x of LoraCmdResponse _ _ r \<Rightarrow> r \<noteq> CmdOK | LogModuleReady \<Rightarrow> False | TlmModuleState s \<Rightarrow> s \<noteq> 1
     | TlmTxPacketCount _ \<Rightarrow> False | LogTxError _ \<Rightarrow> False | _ \<Rightarrow> True)"

inductive answer_origin :: "bytes \<Rightarrow> lora_output list \<Rightarrow> bool" where
  command_ok: "accepted L \<Longrightarrow> answer_origin (L @ [10]) [LoraCmdResponse opCode cmdSeq CmdOK]"
| module_ready: "length Ls = 7 \<Longrightarrow> list_all accepted Ls \<Longrightarrow> answer_origin (lines_of Ls) [LogModuleReady, TlmModuleState 1]"
| reset_ok: "length Ls = 7 \<Longrightarrow> list_all accepted Ls \<Longrightarrow>
    answer_origin (lines_of Ls) [LogModuleReady, TlmModuleState 1, LoraCmdResponse opCode cmdSeq CmdOK]"
| packet_sent: "L \<noteq> [] \<Longrightarrow> \<not> refusal L \<Longrightarrow> answer_origin (L @ [10]) [TlmTxPacketCount n]"
| packet_refused: "refusal L \<Longrightarrow> answer_origin (L @ [10]) [LogTxError (refusal_code L), TlmTxErrorCount n]"
| unanswered: "answer_origin [] [LogTxError 0, TlmTxErrorCount n]"
| no_claims: "list_all no_claim xs \<Longrightarrow> answer_origin [] xs"

text \<open>
  What an operation does that writes to UART0 and waits for answers: it sends nothing but overruns, hears nothing of
  UART1, leaves in the buffer what it read last, and has heard \<open>k\<close> accepting lines.
\<close>

definition talks :: "(u8 \<Rightarrow> nat \<Rightarrow> bytes) \<Rightarrow> nat \<Rightarrow> lora \<Rightarrow> world \<Rightarrow> lora \<Rightarrow> world \<Rightarrow> bool" where
  "talks F k l w l' w' \<longleftrightarrow> (lora_wf l \<longrightarrow> lora_wf l' \<and> (\<exists>m. lora_out l' = lora_out l @ replicate m LogAtBufOverrun)
     \<and> (\<forall>bs. heard F HAL_UART1 bs w \<longrightarrow> heard F HAL_UART1 bs w')
     \<and> (\<forall>bs. heard F HAL_UART0 (bs @ lora_pending l) w \<longrightarrow> heard F HAL_UART0 (bs @ lora_pending l') w')
     \<and> (\<forall>bs. heard F HAL_UART0 bs w \<longrightarrow> (\<exists>Ls. length Ls = k \<and> list_all accepted Ls \<and> heard F HAL_UART0 (bs @ lines_of Ls) w')))"

lemma lines_of_simps [simp]: "lines_of [] = []" "lines_of (xs @ ys) = lines_of xs @ lines_of ys" "lines_of [L] = L @ [10]"
  by (simp_all add: lines_of_def)

lemma talksI:
  assumes "lora_wf l \<Longrightarrow> lora_wf l'" "lora_wf l \<Longrightarrow> \<exists>m. lora_out l' = lora_out l @ replicate m LogAtBufOverrun"
    and "\<And>bs. lora_wf l \<Longrightarrow> heard F HAL_UART1 bs w \<Longrightarrow> heard F HAL_UART1 bs w'"
    and "\<And>bs. lora_wf l \<Longrightarrow> heard F HAL_UART0 (bs @ lora_pending l) w \<Longrightarrow> heard F HAL_UART0 (bs @ lora_pending l') w'"
    and "\<And>bs. lora_wf l \<Longrightarrow> heard F HAL_UART0 bs w \<Longrightarrow> \<exists>Ls. length Ls = k \<and> list_all accepted Ls \<and> heard F HAL_UART0 (bs @ lines_of Ls) w'"
  shows "talks F k l w l' w'"
  using assms unfolding talks_def by blast

lemma talksD:
  assumes "talks F k l w l' w'" "lora_wf l"
  shows "lora_wf l'" "\<exists>m. lora_out l' = lora_out l @ replicate m LogAtBufOverrun"
    and "heard F HAL_UART1 bs w \<Longrightarrow> heard F HAL_UART1 bs w'"
    and "heard F HAL_UART0 (bs @ lora_pending l) w \<Longrightarrow> heard F HAL_UART0 (bs @ lora_pending l') w'"
    and "heard F HAL_UART0 bs w \<Longrightarrow> \<exists>Ls. length Ls = k \<and> list_all accepted Ls \<and> heard F HAL_UART0 (bs @ lines_of Ls) w'"
  using assms unfolding talks_def by blast+

lemma talks_hears: "talks F k l w l' w' \<Longrightarrow> lora_wf l \<Longrightarrow> heard F HAL_UART0 bs w \<Longrightarrow> heard F HAL_UART0 bs w'"
  using talksD(5) heard_drop(1) by meson

lemma talks_refl: "talks F 0 l w l w"
  unfolding talks_def by (auto intro!: exI [of _ 0] exI [of _ "[]"])

lemma talks_trans:
  assumes "talks F j l w l1 w1" "talks F k l1 w1 l2 w2"
  shows "talks F (j + k) l w l2 w2"
proof -
  have "\<exists>Ls. length Ls = j + k \<and> list_all accepted Ls \<and> heard F HAL_UART0 (bs @ lines_of Ls) w2"
    if l: "lora_wf l" "heard F HAL_UART0 bs w" for bs
  proof -
    obtain Ls where Ls: "length Ls = j" "list_all accepted Ls" "heard F HAL_UART0 (bs @ lines_of Ls) w1" "lora_wf l1"
      using assms(1) l unfolding talks_def by meson
    then obtain Ms where "length Ms = k" "list_all accepted Ms" "heard F HAL_UART0 ((bs @ lines_of Ls) @ lines_of Ms) w2"
      using assms(2) unfolding talks_def by meson
    with Ls show ?thesis by (intro exI [of _ "Ls @ Ms"]) simp
  qed
  moreover have "\<exists>m. lora_out l2 = lora_out l @ replicate m LogAtBufOverrun" if "lora_wf l"
    using assms that unfolding talks_def by (metis append.assoc replicate_add)
  ultimately show ?thesis using assms unfolding talks_def by blast
qed

lemma talks_weaken: "talks F k l w l' w' \<Longrightarrow> talks F 0 l w l' w'"
  by (rule talksI) (auto dest: talksD talks_hears)

lemma talks_upgrade:
  assumes "talks F 0 l w l' w'"
    and "\<And>bs. lora_wf l \<Longrightarrow> heard F HAL_UART0 bs w \<Longrightarrow> \<exists>Ls. length Ls = k \<and> list_all accepted Ls \<and> heard F HAL_UART0 (bs @ lines_of Ls) w'"
  shows "talks F k l w l' w'"
  using talksD(1-4) [OF assms(1)] assms(2) by (intro talksI)

lemma talks_world: "(\<And>u bs. heard F u bs w \<Longrightarrow> heard F u bs w') \<Longrightarrow> talks F 0 l w l w'"
  unfolding talks_def by (auto intro!: exI [of _ 0] exI [of _ "[]"])

text \<open>\<open>readATLine\<close>: a line it returns is in the buffer, and was heard with its line feed.\<close>

definition reads_on :: "(u8 \<Rightarrow> nat \<Rightarrow> bytes) \<Rightarrow> lora \<Rightarrow> world \<Rightarrow> nat \<times> lora \<times> world \<Rightarrow> bool" where
  "reads_on F l w r \<longleftrightarrow> (case r of (n, l', w') \<Rightarrow> lora_wf l \<longrightarrow> lora_wf l'
     \<and> (\<exists>m. lora_out l' = lora_out l @ replicate m LogAtBufOverrun)
     \<and> (\<forall>bs. heard F HAL_UART1 bs w \<longrightarrow> heard F HAL_UART1 bs w')
     \<and> (\<forall>bs. heard F HAL_UART0 (bs @ lora_pending l) w \<longrightarrow> heard F HAL_UART0 (bs @ lora_pending l') w'
          \<and> (n \<noteq> 0 \<longrightarrow> heard F HAL_UART0 (bs @ lora_pending l' @ [10]) w'))
     \<and> (n \<noteq> 0 \<longrightarrow> n = length (lora_pending l') \<and> (\<exists>r. m_atBuf l' = lora_pending l' @ 0 # r)))"

lemma reads_on_step:
  assumes "lora_wf l \<Longrightarrow> lora_wf l1" "lora_out l1 = lora_out l"
    and "\<And>bs. heard F HAL_UART1 bs w \<Longrightarrow> heard F HAL_UART1 bs w1"
    and "\<And>bs. lora_wf l \<Longrightarrow> heard F HAL_UART0 (bs @ lora_pending l) w \<Longrightarrow> heard F HAL_UART0 (bs @ lora_pending l1) w1"
    and "reads_on F l1 w1 r"
  shows "reads_on F l w r"
  using assms unfolding reads_on_def by (simp split: prod.splits)

lemma lora_wf_store:
  assumes "lora_wf l" "m_atBufLen l < 127" "wr (m_atBuf l) (m_atBufLen l) b = Some buf"
  shows "lora_wf (l\<lparr>m_atBuf := buf, m_atBufLen := m_atBufLen l + 1\<rparr>)"
    and "lora_pending (l\<lparr>m_atBuf := buf, m_atBufLen := m_atBufLen l + 1\<rparr>) = lora_pending l @ [b]"
  using assms by (auto simp: lora_wf_def lora_pending_def take_Suc_conv_app_nth dest!: wr_SomeD)

lemma lora_wf_end:
  assumes "lora_wf l" "wr (m_atBuf l) (m_atBufLen l) 0 = Some buf"
  shows "lora_wf (l\<lparr>m_atBuf := buf\<rparr>)" "lora_pending (l\<lparr>m_atBuf := buf\<rparr>) = lora_pending l"
    "\<exists>r. buf = lora_pending l @ 0 # r"
  using assms by (auto simp: lora_wf_def lora_pending_def upd_conv_take_nth_drop dest!: wr_SomeD)

lemma read_at_loop_hears: "on_return (reads_on F l w) (read_at_loop d l w)"
proof -
  have "reads_on F l w r" if "read_at_loop d l w = Some r" for r
  proof (rule read_at_loop.raw_induct [where P = "\<lambda>d l w r. reads_on F l w r", OF _ that], goal_cases)
    case (1 loop d l w r)
    have rec: "on_return (reads_on F l w) (loop d l1 w1)"
      if "lora_wf l \<Longrightarrow> lora_wf l1" "lora_out l1 = lora_out l"
        "\<And>bs. heard F HAL_UART1 bs w \<Longrightarrow> heard F HAL_UART1 bs w1"
        "\<And>bs. lora_wf l \<Longrightarrow> heard F HAL_UART0 (bs @ lora_pending l) w \<Longrightarrow> heard F HAL_UART0 (bs @ lora_pending l1) w1" for l1 w1
      using 1(1) reads_on_step [OF that] by (auto simp: on_return_def)
    have ret: "reads_on F l w (0, l, w1)" if "hal_time_us w = Some (t, w1)" for t w1
      using that unfolding reads_on_def by (auto intro: heardD intro!: exI [of _ 0])
    have lf: "reads_on F l w (m_atBufLen l, l\<lparr>m_atBuf := buf\<rparr>, w2)"
      if "hal_time_us w = Some (t, w1)" "hal_uart_getc HAL_UART0 0 w1 = Some (HAL_OK, 10, w2)"
        "wr (m_atBuf l) (m_atBufLen l) 0 = Some buf" for t w1 w2 buf
      unfolding reads_on_def
      using lora_wf_end [OF _ that(3)] heardD(2) [OF that(1)] getcD [OF that(2)] lora_wf_pending [of l]
      by (fastforce intro!: exI [of _ 0])
    have over: "reads_on F l w (0, (lora_emit LogAtBufOverrun l)\<lparr>m_atBufLen := 0\<rparr>, w2)"
      if "hal_time_us w = Some (t, w1)" "hal_uart_getc HAL_UART0 0 w1 = Some (rc, b, w2)" for t w1 w2 rc b
      unfolding reads_on_def
      using heardD(2) [OF that(1)] getcD(1) [OF that(2)]
      by (auto simp: lora_wf_def lora_emit_def lora_pending_def intro!: exI [of _ 1] dest: heard_drop)
    have store: "heard F HAL_UART0 (bs @ lora_pending (l\<lparr>m_atBuf := buf, m_atBufLen := m_atBufLen l + 1\<rparr>)) w2"
      if "hal_time_us w = Some (t, w1)" "hal_uart_getc HAL_UART0 0 w1 = Some (HAL_OK, b, w2)" "wr (m_atBuf l) (m_atBufLen l) b = Some buf"
        "m_atBufLen l < 127" "lora_wf l" "heard F HAL_UART0 (bs @ lora_pending l) w" for t w1 w2 b buf bs
      using getcD(2) [OF that(2) heardD(2) [OF that(1,6)]] lora_wf_store(2) [OF that(5,4,3)] by simp
    show ?case
      by (rule postD [OF _ 1(2)], intro post_rules rec)
        (auto simp: LORA_AT_BUF_SIZE_def intro: ret lf over getcD(1) [OF _ heardD(2)] lora_wf_store(1) [simplified] store [simplified])
  qed
  then show ?thesis by (simp add: on_return_def)
qed

definition reads :: "(u8 \<Rightarrow> nat \<Rightarrow> bytes) \<Rightarrow> lora \<Rightarrow> world \<Rightarrow> nat \<times> lora \<times> world \<Rightarrow> bool" where
  "reads F l w r \<longleftrightarrow> (case r of (n, l', w') \<Rightarrow> talks F 0 l w l' w'
     \<and> (lora_wf l \<and> n \<noteq> 0 \<longrightarrow> n = length (lora_pending l') \<and> (\<exists>r. m_atBuf l' = lora_pending l' @ 0 # r)
          \<and> (\<forall>bs. heard F HAL_UART0 bs w \<longrightarrow> heard F HAL_UART0 (bs @ lora_pending l' @ [10]) w')))"

lemma readsD: "reads F l w (n, l', w') \<Longrightarrow> talks F 0 l w l' w'"
  unfolding reads_def prod.case by (rule conjunct1)

lemma reads_line:
  assumes "reads F l w (n, l', w')" "n \<noteq> 0" "lora_wf l" "heard F HAL_UART0 bs w"
  obtains r where "lora_pending l' \<noteq> []" "n = length (lora_pending l')" "m_atBuf l' = lora_pending l' @ 0 # r"
    "heard F HAL_UART0 (bs @ lora_pending l' @ [10]) w'"
  using assms unfolding reads_def prod.case by (metis list.size(3))

lemma readATLine_reads: "on_return (reads F l w) (readATLine t l w)"
proof -
  let ?l = "l\<lparr>m_atBufLen := 0\<rparr>"
  have "reads F l w (n, l', w')" if t: "hal_time_us w = Some (t1, w1)" and r: "reads_on F ?l w1 (n, l', w')" for t1 w1 n l' w'
  proof -
    have l0: "lora_pending ?l = []" "lora_out ?l = lora_out l" "lora_wf l \<Longrightarrow> lora_wf ?l" by (simp_all add: lora_pending_def lora_wf_def)
    have h0: "heard F HAL_UART0 (bs @ lora_pending l') w' \<and> (n \<noteq> 0 \<longrightarrow> heard F HAL_UART0 (bs @ lora_pending l' @ [10]) w')"
      if "lora_wf l" "heard F HAL_UART0 bs w" for bs
      using r l0 heardD(2) [OF t that(2)] that(1) unfolding reads_on_def by simp
    have h1: "heard F HAL_UART1 bs w'" if "lora_wf l" "heard F HAL_UART1 bs w" for bs
      using r l0 heardD(2) [OF t that(2)] that(1) unfolding reads_on_def by simp
    have rest: "lora_wf l' \<and> (\<exists>m. lora_out l' = lora_out l @ replicate m LogAtBufOverrun)
      \<and> (n \<noteq> 0 \<longrightarrow> n = length (lora_pending l') \<and> (\<exists>r. m_atBuf l' = lora_pending l' @ 0 # r))" if "lora_wf l"
      using r l0 that unfolding reads_on_def by simp
    have "talks F 0 l w l' w'"
    proof (rule talksI)
      show "heard F HAL_UART0 (bs @ lora_pending l') w'" if "lora_wf l" "heard F HAL_UART0 (bs @ lora_pending l) w" for bs
        using h0 [OF that(1) heard_drop(1) [OF that(2)]] ..
      show "\<exists>Ls. length Ls = 0 \<and> list_all accepted Ls \<and> heard F HAL_UART0 (bs @ lines_of Ls) w'" if "lora_wf l" "heard F HAL_UART0 bs w" for bs
        using heard_drop(1) [OF conjunct1 [OF h0 [OF that]]] by simp
    qed (use rest h1 in simp_all)
    then show ?thesis unfolding reads_def using rest h0 by simp
  qed
  then show ?thesis
    unfolding readATLine_def by (intro post_rules) (auto simp: on_return_def dest: postD [OF read_at_loop_hears [where F = F]])
qed

lemma talks_write: "hal_uart_write v buf len t w = Some (rc, w') \<Longrightarrow> talks F 0 l w l w'"
  by (rule talks_world) (rule writeD)

lemma talks_two_writes:
  assumes "hal_uart_write v buf n t w = Some (rc, w1)" "hal_uart_write v' buf' n' t' w1 = Some (rc', w2)"
  shows "talks F 0 l w l w2"
  using talks_trans [OF talks_write [OF assms(1)] talks_write [OF assms(2)]] by simp

lemma sendAT_talks: "on_return (\<lambda>(ok, l', w'). talks F (if ok then 1 else 0) l w l' w') (sendAT cmd t l w)"
proof -
  have read: "talks F 0 l w l' w'" if "talks F 0 l w l w1" "reads F l w1 (n, l', w')" for w1 n l' w'
    using talks_trans [OF that(1) readsD [OF that(2)]] by simp
  have answered: "talks F 1 l w l' w'"
    if r: "talks F 0 l w l w1" "reads F l w1 (n, l', w')" "n \<noteq> 0" "rd (m_atBuf l') 0 = Some 43" "rd (m_atBuf l') 1 = Some c" "c = 79 \<or> c = 82" for w1 n l' w' c
  proof -
    have "\<exists>Ls. length Ls = 1 \<and> list_all accepted Ls \<and> heard F HAL_UART0 (bs @ lines_of Ls) w'" if wf: "lora_wf l" "heard F HAL_UART0 bs w" for bs
    proof -
      have wf1: "lora_wf l" "heard F HAL_UART0 bs w1" using wf talks_hears [OF r(1)] by simp_all
      obtain r' where L: "lora_pending l' \<noteq> []" "m_atBuf l' = lora_pending l' @ 0 # r'" "heard F HAL_UART0 (bs @ lora_pending l' @ [10]) w'"
        by (rule reads_line [OF r(2,3) wf1])
      have "accepted (lora_pending l')"
        using r(4-6) L(1,2) by (cases "lora_pending l'"; cases "tl (lora_pending l')") (auto simp: accepted_def rd_eq_Some)
      with L(3) show ?thesis by (intro exI [of _ "[lora_pending l']"]) simp
    qed
    then show ?thesis by (rule talks_upgrade [OF read [OF r(1,2)]])
  qed
  show ?thesis
    unfolding sendAT_def
    by (intro post_rules) (auto intro: talks_write talks_two_writes read answered [simplified] dest: postD [OF readATLine_reads])
qed

text \<open>Exchanges in sequence: \<open>k\<close> accepting lines when they all succeed.\<close>

abbreviation exchanges :: "(u8 \<Rightarrow> nat \<Rightarrow> bytes) \<Rightarrow> nat \<Rightarrow> lora \<Rightarrow> world \<Rightarrow> (bool \<times> lora \<times> world) option \<Rightarrow> bool" where
  "exchanges F k l w \<equiv> on_return (\<lambda>(ok, l', w'). talks F (if ok then k else 0) l w l' w')"

lemma exchanges_after:
  assumes "talks F j l w l1 w1" "exchanges F k l1 w1 m"
  shows "exchanges F (j + k) l w m"
  using assms talks_trans [OF assms(1)] talks_trans [OF talks_weaken [OF assms(1)]]
  unfolding on_return_def by (fastforce split: if_splits)

lemma init_alive_talks: "exchanges F 1 l w (init_alive n l w)"
proof (induction n l w rule: init_alive.induct)
  case (1 n l w)
  have rec: "exchanges F 1 l w (init_alive (Suc n) l1 w2)"
    if "n < LORA_INIT_RETRIES" "sendAT (cstr_lit ''AT'') LORA_AT_TIMEOUT_US l w = Some (False, l1, w1)" "hal_delay_ms 200 w1 = Some w2" for l1 w1 w2
  proof -
    have "talks F 0 l w l1 w1" using postD [OF sendAT_talks that(2)] by simp
    moreover have "talks F 0 l1 w1 l1 w2" by (rule talks_world) (rule heardD(3) [OF that(3)])
    ultimately have "talks F 0 l w l1 w2" by (rule talks_trans [where j = 0 and k = 0, simplified])
    from exchanges_after [OF this 1 [OF that(1,2) refl refl _ that(3)]] show ?thesis by (simp only: add_0 not_False_eq_True)
  qed
  show ?case
    by (subst init_alive.simps, intro post_rules) (auto simp: rec [simplified] talks_refl dest: postD [OF sendAT_talks])
qed

lemma at_step_talks:
  assumes "\<And>l w. exchanges F k l w (rest l w)"
  shows "exchanges F (Suc k) l w (at_step cmd t rest l w)"
proof -
  have "exchanges F (Suc k) l w (rest l1 w1)" if "talks F 1 l w l1 w1" for l1 w1
    using exchanges_after [OF that assms] by (simp only: plus_1_eq_Suc)
  then show ?thesis
    unfolding at_step_def by (intro post_rules) (auto dest!: postD [OF sendAT_talks])
qed

lemma initModule_talks: "exchanges F 7 l w (initModule l w)"
proof -
  have stop: "exchanges F 0 l w (Some (True, l, w))" for l w by (simp add: on_return_def talks_refl)
  have params: "exchanges F 4 l w (init_params l w)" for l w
  proof -
    have "exchanges F (Suc (Suc (Suc (Suc 0)))) l w (init_params l w)" unfolding init_params_def by (intro at_step_talks stop)
    moreover have "Suc (Suc (Suc (Suc 0))) = 4" by simp
    ultimately show ?thesis by (simp only:)
  qed
  have after_delay: "exchanges F 5 l w (do { w \<leftarrow> hal_delay_ms 500 w; cmd \<leftarrow> init_band_cmd; at_step cmd LORA_AT_TIMEOUT_US init_params l w })" for l w
  proof (intro post_bind)
    fix w1 cmd
    assume "hal_delay_ms 500 w = Some w1"
    then have "talks F 0 l w l w1" by (intro talks_world) (rule heardD(3))
    from exchanges_after [OF this at_step_talks [OF params]] show "exchanges F 5 l w (at_step cmd LORA_AT_TIMEOUT_US init_params l w1)"
      by (simp only: add_0 Suc_numeral add_num_simps)
  qed
  have configured: "exchanges F 7 l w (at_step cmd t (\<lambda>l w. do {
       w \<leftarrow> hal_delay_ms 500 w; cmd \<leftarrow> init_band_cmd; at_step cmd LORA_AT_TIMEOUT_US init_params l w }) l1 w1)"
    if "talks F 1 l w l1 w1" for cmd t l1 w1
    using exchanges_after [OF that at_step_talks [OF after_delay]] by (simp only: plus_1_eq_Suc Suc_numeral add_num_simps)
  show ?thesis
    unfolding initModule_def by (intro post_rules) (auto dest!: postD [OF init_alive_talks] intro: configured)
qed

text \<open>The accounts of the driver: its packets, with the unfinished line, and its answers.\<close>

definition lora_account :: "(u8 \<Rightarrow> nat \<Rightarrow> bytes) \<Rightarrow> lora \<Rightarrow> world \<Rightarrow> bool" where
  "lora_account F l w \<longleftrightarrow> lora_wf l
     \<and> (\<exists>bs. ledger packet_origin bs (lora_out l) \<and> heard F HAL_UART0 (bs @ lora_pending l) w)
     \<and> (\<exists>bs. ledger answer_origin bs (lora_out l) \<and> heard F HAL_UART0 bs w)"

text \<open>Packets aside, an operation that rests its outputs on answers extends both.\<close>

lemma lora_account_step:
  assumes acc: "lora_account F l w" and t: "talks F k l w l1 w1"
    and l2: "lora_wf l2" "lora_pending l2 = lora_pending l1" "lora_out l2 = lora_out l1 @ ys" "list_all no_packet ys"
    and bs: "\<And>bs. heard F HAL_UART0 bs w \<Longrightarrow> \<exists>cs. answer_origin cs ys \<and> heard F HAL_UART0 (bs @ cs) w1"
  shows "lora_account F l2 w1"
proof -
  from acc obtain ps as where a: "lora_wf l" "ledger packet_origin ps (lora_out l)" "heard F HAL_UART0 (ps @ lora_pending l) w"
    "ledger answer_origin as (lora_out l)" "heard F HAL_UART0 as w" by (auto simp: lora_account_def)
  obtain m where m: "lora_out l1 = lora_out l @ replicate m LogAtBufOverrun" using talksD(2) [OF t a(1)] by blast
  have over: "packet_origin [] (replicate m LogAtBufOverrun)" "answer_origin [] (replicate m LogAtBufOverrun)"
    by (intro packet_free no_claims; simp add: list_all_iff no_packet_def no_claim_def)+
  obtain cs where cs: "answer_origin cs ys" "heard F HAL_UART0 (as @ cs) w1" using bs [OF a(5)] by blast
  have "ledger packet_origin ps (lora_out l2)"
    unfolding l2(3) m using ledger_free [OF ledger_free [OF a(2) over(1)] packet_free [OF l2(4)]] by simp
  moreover have "ledger answer_origin (as @ cs) (lora_out l2)"
    unfolding l2(3) m using entry [OF ledger_free [OF a(4) over(2)] cs(1)] by simp
  ultimately show ?thesis
    using l2(1,2) talksD(4) [OF t a(1,3)] cs(2) unfolding lora_account_def by metis
qed

lemma lora_account_lines:
  assumes "lora_account F l w" "talks F k l w l1 w1"
    and "lora_wf l1 \<Longrightarrow> lora_wf l2" "lora_pending l2 = lora_pending l1" "lora_out l2 = lora_out l1 @ ys" "list_all no_packet ys"
    and "\<And>Ls. length Ls = k \<Longrightarrow> list_all accepted Ls \<Longrightarrow> answer_origin (lines_of Ls) ys"
  shows "lora_account F l2 w1"
proof (rule lora_account_step [OF assms(1,2)])
  have wf: "lora_wf l" using assms(1) by (simp add: lora_account_def)
  show "lora_wf l2" using assms(3) talksD(1) [OF assms(2) wf] by blast
  show "\<exists>cs. answer_origin cs ys \<and> heard F HAL_UART0 (bs @ cs) w1" if "heard F HAL_UART0 bs w" for bs
    using talksD(5) [OF assms(2) wf that] assms(7) by blast
qed (use assms in auto)

lemma lora_account_silent:
  assumes "lora_account F l w" "talks F k l w l1 w1"
    and "lora_wf l1 \<Longrightarrow> lora_wf l2" "lora_pending l2 = lora_pending l1" "lora_out l2 = lora_out l1 @ ys" "list_all no_packet ys" "list_all no_claim ys"
  shows "lora_account F l2 w1"
  by (rule lora_account_lines [OF assms(1) talks_weaken [OF assms(2)] assms(3-6)]) (use assms(7) in \<open>auto intro: no_claims\<close>)

abbreviation accounts :: "(u8 \<Rightarrow> nat \<Rightarrow> bytes) \<Rightarrow> lora \<Rightarrow> world \<Rightarrow> (lora \<times> world) option \<Rightarrow> bool" where
  "accounts F l w \<equiv> on_return (\<lambda>(l', w'). lora_account F l' w' \<and> (\<forall>bs. heard F HAL_UART1 bs w \<longrightarrow> heard F HAL_UART1 bs w'))"

lemma account_wf: "lora_account F l w \<Longrightarrow> lora_wf l"
  by (simp add: lora_account_def)

lemma silent_emit [simp]:
  "lora_wf (lora_emit x l) = lora_wf l" "lora_pending (lora_emit x l) = lora_pending l" "lora_out (lora_emit x l) = lora_out l @ [x]"
  "lora_wf (l\<lparr>m_state := s\<rparr>) = lora_wf l" "lora_pending (l\<lparr>m_state := s\<rparr>) = lora_pending l" "lora_out (l\<lparr>m_state := s\<rparr>) = lora_out l"
  "lora_wf (l\<lparr>m_txCount := c\<rparr>) = lora_wf l" "lora_pending (l\<lparr>m_txCount := c\<rparr>) = lora_pending l"
  "lora_wf (l\<lparr>m_txErrors := c\<rparr>) = lora_wf l" "lora_pending (l\<lparr>m_txErrors := c\<rparr>) = lora_pending l"
  by (simp_all add: lora_wf_def lora_pending_def lora_emit_def)

lemma exchange_accounts:
  assumes "lora_account F l w"
  shows "accounts F l w (do { (ok, l, w) \<leftarrow> sendAT cmd t l w; Some (cmd_respond opCode cmdSeq ok l, w) })"
proof -
  have "lora_account F (cmd_respond opCode cmdSeq ok l1) w1 \<and> (\<forall>bs. heard F HAL_UART1 bs w \<longrightarrow> heard F HAL_UART1 bs w1)"
    if r: "sendAT cmd t l w = Some (ok, l1, w1)" for ok l1 w1
  proof -
    have t: "talks F (if ok then 1 else 0) l w l1 w1" using postD [OF sendAT_talks r] by simp
    have "lora_account F (cmd_respond opCode cmdSeq ok l1) w1"
    proof (cases ok)
      case True
      have "answer_origin (lines_of Ls) [LoraCmdResponse opCode cmdSeq CmdOK]" if "length Ls = 1" "list_all accepted Ls" for Ls
        using that by (cases Ls) (simp_all add: command_ok)
      with True t show ?thesis
        by (intro lora_account_lines [OF assms t, where ys = "[LoraCmdResponse opCode cmdSeq CmdOK]"]) (simp_all add: cmd_respond_def no_packet_def)
    next
      case False
      with t show ?thesis
        by (intro lora_account_silent [OF assms t, where ys = "[LoraCmdResponse opCode cmdSeq EXECUTION_ERROR]"])
          (simp_all add: cmd_respond_def no_packet_def no_claim_def)
    qed
    then show ?thesis using talksD(3) [OF t account_wf [OF assms]] by simp
  qed
  then show ?thesis by (intro post_rules) auto
qed

text \<open>Initialisation, with what is sent at its end.\<close>

lemma init_accounts:
  assumes "lora_account F l w"
    and up: "\<And>l. lora_wf (f True l) = lora_wf l \<and> lora_pending (f True l) = lora_pending l \<and> lora_out (f True l) = lora_out l @ ups"
      "list_all no_packet ups" "\<And>Ls. length Ls = 7 \<Longrightarrow> list_all accepted Ls \<Longrightarrow> answer_origin (lines_of Ls) ups"
    and down: "\<And>l. lora_wf (f False l) = lora_wf l \<and> lora_pending (f False l) = lora_pending l \<and> lora_out (f False l) = lora_out l @ downs"
      "list_all no_packet downs" "list_all no_claim downs"
  shows "accounts F l w (do { (ok, l, w) \<leftarrow> initModule l w; Some (f ok l, w) })"
proof -
  have "lora_account F (f ok l1) w1 \<and> (\<forall>bs. heard F HAL_UART1 bs w \<longrightarrow> heard F HAL_UART1 bs w1)"
    if r: "initModule l w = Some (ok, l1, w1)" for ok l1 w1
  proof -
    have t: "talks F (if ok then 7 else 0) l w l1 w1" using postD [OF initModule_talks r] by simp
    have "lora_account F (f ok l1) w1"
    proof (cases ok)
      case True
      with t up show ?thesis by (intro lora_account_lines [OF assms(1) t, where ys = ups]) simp_all
    next
      case False
      with down show ?thesis by (intro lora_account_silent [OF assms(1) t, where ys = downs]) simp_all
    qed
    then show ?thesis using talksD(3) [OF t account_wf [OF assms(1)]] by simp
  qed
  then show ?thesis by (intro post_rules) auto
qed

lemma lora_start_accounts:
  assumes "lora_account F l w"
  shows "accounts F l w (preamble l w)" "accounts F l w (LORA_RESET_cmdHandler opCode cmdSeq l w)"
proof -
  let ?f = "\<lambda>ok l. if ok then module_up l else module_down l"
  show "accounts F l w (preamble l w)"
    unfolding preamble_eq
    by (rule init_accounts [OF assms, where f = ?f and ups = "[LogModuleReady, TlmModuleState 1]" and downs = "[LogInitFailed 3, TlmModuleState 2]"])
      (simp_all add: module_up_def module_down_def no_packet_def no_claim_def module_ready)
  show "accounts F l w (LORA_RESET_cmdHandler opCode cmdSeq l w)"
    unfolding LORA_RESET_eq
    by (rule init_accounts [OF assms, where f = "\<lambda>ok l. cmd_respond opCode cmdSeq ok (?f ok l)"
          and ups = "[LogModuleReady, TlmModuleState 1, LoraCmdResponse opCode cmdSeq CmdOK]"
          and downs = "[LogInitFailed 3, TlmModuleState 2, LoraCmdResponse opCode cmdSeq EXECUTION_ERROR]"])
      (simp_all add: module_up_def module_down_def no_packet_def no_claim_def reset_ok cmd_respond_def)
qed

text \<open>Polling: one character.\<close>

lemma lora_byte_accounts:
  assumes "lora_wf l"
  shows "on_return (\<lambda>l'. lora_wf l' \<and> byte_accounts packet_origin (lora_pending l) (lora_out l) (lora_pending l') (lora_out l') b
    \<and> (\<exists>xs. lora_out l' = lora_out l @ xs \<and> list_all no_claim xs)) (lora_byte b l)"
proof -
  have core: "lora_out l' = lora_out l''" if "lora_core l' = lora_core l''" for l' l'' using that by (simp add: lora_core_def)
  consider "b = 10" | "b = 13" | "b \<noteq> 10" "b \<noteq> 13" "length (lora_pending l) < 127" | "b \<noteq> 10" "b \<noteq> 13" "length (lora_pending l) = 127"
    using lora_wf_pending [OF assms] by fastforce
  then show ?thesis
  proof cases
    case 1
    let ?L = "lora_pending l"
    from lora_byte_lf [OF assms] obtain l' where l': "lora_byte 10 l = Some l'" "lora_wf l'" "lora_pending l' = []"
      "lora_out l' = lora_out (rcv_effect ?L l)" using core by blast
    show ?thesis
    proof (cases "5 \<le> length ?L \<and> take 5 ?L = ascii ''+RCV='' \<and> (\<exists>x y. parseRcv (?L @ [0]) = Some (True, x, y))")
      case True
      then obtain x y where x: "take 5 ?L = ascii ''+RCV=''" "parseRcv (?L @ [0]) = Some (True, x, y)" "5 \<le> length ?L" by blast
      then have "lora_out l' = lora_out l @ [TlmLastRxRssi x, TlmLastRxSnr y, TlmRxPacketCount (m_rxCount l + 1), LogPacketReceived x y]"
        using l'(4) by (simp add: rcv_effect_def)
      with l'(1-3) packet_line [OF x(1,2)] 1 show ?thesis by (simp add: on_return_def byte_accounts_def no_claim_def)
    next
      case False
      then have "rcv_effect ?L l = l" by (auto simp: rcv_effect_def split: option.split bool.split)
      with l' 1 show ?thesis by (simp add: on_return_def byte_accounts_def)
    qed
  next
    case 2
    with assms show ?thesis by (simp add: lora_byte_def byte_accounts_def on_return_def subseq_rev_drop_many)
  next
    case 3
    from lora_byte_room [OF assms 3] show ?thesis by (auto simp: on_return_def byte_accounts_def dest: core)
  next
    case 4
    from lora_byte_full [OF assms 4] obtain l' where "lora_byte b l = Some l'" "lora_wf l'" "lora_pending l' = []"
      "lora_core l' = lora_core (lora_emit LogAtBufOverrun l)" by blast
    with core [of l' "lora_emit LogAtBufOverrun l"] packet_overlong [OF 4(3)] show ?thesis
      by (simp add: on_return_def byte_accounts_def no_claim_def)
  qed
qed

lemma lora_account_byte:
  assumes "lora_account F l w" "hal_uart_getc HAL_UART0 b0 w = Some (rc, b, w1)"
  shows "rc \<noteq> HAL_OK \<Longrightarrow> lora_account F l w1"
    and "rc = HAL_OK \<Longrightarrow> lora_byte b l = Some l1 \<Longrightarrow> lora_account F l1 w1"
proof -
  from assms(1) obtain ps as where a: "lora_wf l" "ledger packet_origin ps (lora_out l)" "heard F HAL_UART0 (ps @ lora_pending l) w"
    "ledger answer_origin as (lora_out l)" "heard F HAL_UART0 as w" by (auto simp: lora_account_def)
  note h = getcD [OF assms(2)]
  show "rc \<noteq> HAL_OK \<Longrightarrow> lora_account F l w1" using h(1) a unfolding lora_account_def by blast
  show "lora_account F l1 w1" if rc: "rc = HAL_OK" and l1: "lora_byte b l = Some l1"
  proof -
    from postD [OF lora_byte_accounts [OF a(1)] l1] obtain xs where
      b: "lora_wf l1" "byte_accounts packet_origin (lora_pending l) (lora_out l) (lora_pending l1) (lora_out l1) b"
      "lora_out l1 = lora_out l @ xs" "list_all no_claim xs" by blast
    have "heard F HAL_UART0 (ps @ lora_pending l @ [b]) w1" using h(2) [OF a(3) rc] by simp
    from byte_accounts_ledger [OF b(2) a(2) this] ledger_free [OF a(4) no_claims [OF b(4)]] h(1) [OF a(5)] b(1,3)
    show ?thesis by (auto simp: lora_account_def)
  qed
qed

lemma pollRx_accounts: "lora_account F l w \<Longrightarrow> accounts F l w (pollRx lim n b l w)"
proof (induction lim n b l w rule: pollRx.induct)
  case (1 lim n b l w)
  have rec: "accounts F l w (pollRx lim (Suc n) b' l1 w1)"
    if "n < lim" "hal_uart_getc HAL_UART0 b w = Some (HAL_OK, b', w1)" "lora_byte b' l = Some l1" for b' l1 w1
    using 1(1) [OF that(1,2) refl refl refl that(3)] lora_account_byte(2) [OF 1(2) that(2) refl that(3)] getcD(1) [OF that(2)]
    by (auto simp: on_return_def)
  show ?case
    by (subst pollRx.simps, intro post_rules)
      (auto simp: rec 1(2) dest: lora_account_byte(1) [OF 1(2)] getcD(1))
qed

text \<open>A transmission.\<close>

lemma tx_response_origin:
  assumes "tx_response n l1 = Some l2" "n \<noteq> 0 \<Longrightarrow> n = length (lora_pending l1) \<and> (\<exists>r. m_atBuf l1 = lora_pending l1 @ 0 # r)"
  shows "\<exists>ys. lora_out l2 = lora_out l1 @ ys \<and> list_all no_packet ys \<and> lora_wf l2 = lora_wf l1 \<and> lora_pending l2 = lora_pending l1
    \<and> answer_origin (if n = 0 then [] else lora_pending l1 @ [10]) ys"
proof (cases "n = 0")
  case True
  with assms(1) show ?thesis
    by (auto simp: tx_response_def tx_failed_def no_packet_def Let_def intro!: unanswered)
next
  case False
  then obtain r where L: "n = length (lora_pending l1)" "m_atBuf l1 = lora_pending l1 @ 0 # r" "lora_pending l1 \<noteq> []" using assms(2) by fastforce
  let ?L = "lora_pending l1"
  have c: "rd (m_atBuf l1) 0 = Some (?L ! 0)" "rd (m_atBuf l1) 1 = Some ((?L @ [0]) ! 1)" "6 \<le> n \<Longrightarrow> rd (m_atBuf l1) 5 = Some (?L ! 5)"
    using L by (auto simp: rd_def nth_append) (cases ?L; simp add: Suc_lessI)+
  have code: "(if 6 \<le> n then do { c5 \<leftarrow> rd (m_atBuf l1) 5; Some (c5 - ch CHR ''0'') } else Some 0) = Some (refusal_code ?L)"
    using c(3) L(1) by (simp add: refusal_code_def)
  have "refusal ?L \<longleftrightarrow> ?L ! 0 = ch CHR ''+'' \<and> (?L @ [0]) ! 1 = ch CHR ''E''" using L(3) by (simp add: refusal_def)
  with assms(1) False show ?thesis
    unfolding tx_response_def code c(1,2) bind.bind_lunit Let_def
    using packet_refused [of ?L] packet_sent [OF L(3)] by (auto simp: tx_failed_def no_packet_def Let_def split: if_splits)
qed

lemma dataIn_accounts:
  assumes "lora_account F l w"
  shows "accounts F l w (dataIn_handler payload l w)"
proof -
  note wf = account_wf [OF assms]
  have silent: "lora_account F (lora_emit x l') w1 \<and> (\<forall>bs. heard F HAL_UART1 bs w \<longrightarrow> heard F HAL_UART1 bs w1)"
    if "talks F 0 l w l w1" "no_packet x" "no_claim x" "lora_wf l' = lora_wf l" "lora_pending l' = lora_pending l" "lora_out l' = lora_out l" for w1 x l'
    using lora_account_silent [OF assms that(1), of "lora_emit x l'" "[x]"] that(2-) talksD(3) [OF that(1) wf] by simp
  have failed: "lora_account F (tx_failed l) w1 \<and> (\<forall>bs. heard F HAL_UART1 bs w \<longrightarrow> heard F HAL_UART1 bs w1)" if "talks F 0 l w l w1" for w1
    unfolding tx_failed_def Let_def by (rule silent [OF that]) (simp_all add: no_packet_def no_claim_def)
  have large: "lora_account F (lora_emit (LogPayloadTooLarge m) l) w" for m
    using silent [OF talks_refl, of "LogPayloadTooLarge m" l] by (simp add: no_packet_def no_claim_def)
  have response: "lora_account F l2 w2 \<and> (\<forall>bs. heard F HAL_UART1 bs w \<longrightarrow> heard F HAL_UART1 bs w2)"
    if t: "talks F 0 l w l w1" and r: "readATLine t1 l w1 = Some (n, l1, w2)" and x: "tx_response n l1 = Some l2" for w1 t1 n l1 w2 l2
  proof -
    note rd = postD [OF readATLine_reads r]
    have t2: "talks F 0 l w l1 w2" using talks_trans [OF t readsD [OF rd]] by simp
    have "heard F HAL_UART0 as w1" if "heard F HAL_UART0 as w" for as using talks_hears [OF t wf that] .
    have n: "n = length (lora_pending l1) \<and> (\<exists>r. m_atBuf l1 = lora_pending l1 @ 0 # r)" if "n \<noteq> 0"
      using rd wf that unfolding reads_def prod.case by blast
    from tx_response_origin [OF x n] obtain ys where ys: "lora_out l2 = lora_out l1 @ ys" "list_all no_packet ys" "lora_wf l2 = lora_wf l1"
      "lora_pending l2 = lora_pending l1" "answer_origin (if n = 0 then [] else lora_pending l1 @ [10]) ys" by blast
    have bs: "\<exists>cs. answer_origin cs ys \<and> heard F HAL_UART0 (bs @ cs) w2" if "heard F HAL_UART0 bs w" for bs
    proof (intro exI conjI, rule ys(5))
      show "heard F HAL_UART0 (bs @ (if n = 0 then [] else lora_pending l1 @ [10])) w2"
        using talks_hears [OF t2 wf that] reads_line [OF rd _ wf talks_hears [OF t wf that]] by (cases "n = 0") auto
    qed
    show ?thesis
      using lora_account_step [OF assms t2 _ ys(4,1,2) bs] ys(3) talksD(1) [OF t2 wf] talksD(3) [OF t2 wf] by simp
  qed
  show ?thesis
    unfolding dataIn_handler_def
    by (intro post_rules)
      (auto simp: assms large intro: response [THEN conjunct1] response [THEN conjunct2, rule_format] talks_two_writes
        failed [OF talks_write, THEN conjunct1] failed [OF talks_write, THEN conjunct2, rule_format]
        failed [OF talks_two_writes, THEN conjunct1] failed [OF talks_two_writes, THEN conjunct2, rule_format])
qed

lemma lora_schedIn_accounts: "lora_account F l w \<Longrightarrow> accounts F l w (lora_schedIn_handler l w)"
  unfolding lora_schedIn_handler_def by (intro post_rules pollRx_accounts) simp_all

lemma lora_commands_account:
  assumes "lora_account F l w"
  shows "accounts F l w (LORA_SEND_AT_cmdHandler opCode cmdSeq cmd l w)"
    and "accounts F l w (LORA_SET_FREQ_cmdHandler opCode cmdSeq f l w)"
    and "accounts F l w (LORA_SET_SF_cmdHandler opCode cmdSeq sf l w)"
    and "accounts F l w (LORA_SET_POWER_cmdHandler opCode cmdSeq p l w)"
proof -
  have no: "accounts F l w (Some (lora_emit (LoraCmdResponse opCode cmdSeq VALIDATION_ERROR) l, w))"
    using lora_account_silent [OF assms talks_refl, of "lora_emit (LoraCmdResponse opCode cmdSeq VALIDATION_ERROR) l" "[LoraCmdResponse opCode cmdSeq VALIDATION_ERROR]"]
    by (simp add: on_return_def no_packet_def no_claim_def)
  show "accounts F l w (LORA_SEND_AT_cmdHandler opCode cmdSeq cmd l w)" "accounts F l w (LORA_SET_FREQ_cmdHandler opCode cmdSeq f l w)"
    "accounts F l w (LORA_SET_SF_cmdHandler opCode cmdSeq sf l w)" "accounts F l w (LORA_SET_POWER_cmdHandler opCode cmdSeq p l w)"
    unfolding LORA_SEND_AT_cmdHandler_def LORA_SET_FREQ_cmdHandler_def LORA_SET_SF_cmdHandler_def LORA_SET_POWER_cmdHandler_def
    by (intro post_if no post_bind [of "freq_cmd f"] post_bind [of "sf_cmd sf"] post_bind [of "power_cmd p"] exchange_accounts [OF assms])+
qed

lemmas lora_handlers_account =
  lora_start_accounts lora_schedIn_accounts dataIn_accounts lora_commands_account

subsection \<open>Runs of the firmware\<close>

definition fw_account :: "(u8 \<Rightarrow> nat \<Rightarrow> bytes) \<Rightarrow> 'd firmware \<Rightarrow> bool" where
  "fw_account F s \<longleftrightarrow> gps_account F (gpsReceiver s) (hw s) \<and> lora_account F (loraDriver s) (hw s)"

lemma gps_drain_heard: "heard F HAL_UART0 bs w \<Longrightarrow> on_return (\<lambda>(g', w'). heard F HAL_UART0 bs w') (gps_drain lim n b g w)"
proof (induction lim n b g w rule: gps_drain.induct)
  case (1 lim n b g w)
  have "on_return (\<lambda>(g', w'). heard F HAL_UART0 bs w') (gps_drain lim (Suc n) b' g1 w1)"
    if "n < lim" "hal_uart_getc HAL_UART1 b w = Some (HAL_OK, b', w1)" "gps_byte b' g = Some g1" for b' g1 w1
    by (rule 1(1) [OF that(1,2) refl refl refl that(3) getcD(1) [OF that(2) 1(2)]])
  with 1(2) show ?case
    by (subst gps_drain.simps) (auto intro!: post_rules intro: getcD(1))
qed

lemma with_lora_accounts:
  assumes "fw_account F s" "accounts F (loraDriver s) (hw s) (f (loraDriver s) (hw s))"
  shows "on_return (fw_account F) (with_lora f s)"
  using assms unfolding with_lora_def fw_account_def
  by (intro post_rules) (auto simp: on_return_def intro: gps_account_heard)

lemma with_gps_accounts:
  assumes "fw_account F s" "on_return (\<lambda>(g', w'). gps_account F g' w') (f (gpsReceiver s) (hw s))"
    and "\<And>bs. heard F HAL_UART0 bs (hw s) \<Longrightarrow> on_return (\<lambda>(g', w'). heard F HAL_UART0 bs w') (f (gpsReceiver s) (hw s))"
  shows "on_return (fw_account F) (with_gps f s)"
proof -
  have "fw_account F (s\<lparr>gpsReceiver := g', hw := w'\<rparr>)" if r: "f (gpsReceiver s) (hw s) = Some (g', w')" for g' w'
  proof -
    have "heard F HAL_UART0 bs w'" if "heard F HAL_UART0 bs (hw s)" for bs using postD [OF assms(3) [OF that] r] by simp
    then show ?thesis using assms(1) postD [OF assms(2) r] by (auto simp: fw_account_def lora_account_def)
  qed
  then show ?thesis unfolding with_gps_def by (auto intro!: post_rules)
qed

lemma fw_handle_accounts:
  assumes "fw_account F s"
  shows "on_return (fw_account F) (fw_handle sdk c s)"
proof (cases c)
  case (BatteryCall bc)
  with assms show ?thesis by (auto simp: fw_handle_def fw_account_def intro!: post_rules)
next
  case GpsSched
  have "on_return (\<lambda>(g', w'). heard F HAL_UART0 bs w') (gps_schedIn_handler (gpsReceiver s) (hw s))" if "heard F HAL_UART0 bs (hw s)" for bs
    unfolding gps_schedIn_handler_def using that by (auto intro!: post_rules gps_drain_heard)
  with GpsSched assms show ?thesis
    by (auto simp: fw_handle_def fw_account_def intro!: with_gps_accounts gps_handlers_account)
next
  case (GpsReset opCode cmdSeq)
  have "on_return (\<lambda>(g', w'). heard F HAL_UART0 bs w') (GPS_RESET_cmdHandler opCode cmdSeq (gpsReceiver s) (hw s))" if "heard F HAL_UART0 bs (hw s)" for bs
    unfolding GPS_RESET_cmdHandler_def using that by (auto intro!: post_rules intro: heardD)
  with GpsReset assms show ?thesis
    by (auto simp: fw_handle_def fw_account_def intro!: with_gps_accounts gps_handlers_account)
next
  case (GpsSetEnabled opCode cmdSeq e)
  with assms gps_handlers_account(3) show ?thesis by (simp add: fw_handle_def on_return_def fw_account_def)
qed (use assms in \<open>auto simp: fw_handle_def fw_account_def intro!: with_lora_accounts lora_handlers_account\<close>)

lemma fw_handles_account: "fw_account F s \<Longrightarrow> on_return (fw_account F) (foldM (fw_handle sdk) calls s)"
proof (induction calls arbitrary: s)
  case (Cons c calls)
  then show ?case by (auto simp: on_return_def Option.bind_eq_Some_conv dest: postD [OF fw_handle_accounts])
qed (simp add: on_return_def)

lemma fw_account_start: "fw_account (w_fifo w) (hw_init sdk (fw_reset w d))"
proof -
  have "rb_wf \<lparr>rb_buf = replicate 256 0, rb_head = 0, rb_tail = 0\<rparr> \<and> rb_list \<lparr>rb_buf = replicate 256 0, rb_head = 0, rb_tail = 0\<rparr> = []"
    by (simp add: rb_wf_def rb_list_def rb_count_def)
  then have "heard (w_fifo w) u [] (hw (hw_init sdk (fw_reset w d)))" for u
    by (auto simp: heard_def hw_init_def fw_reset_def hal_uart0_init_def hal_uart1_init_def uart0_init_hw_def uart1_init_hw_def
        hal_watchdog_enable_def sdk_do_def Let_def world_wf_def rx_list_def rx_of_def split: prod.splits)
  moreover have "gpsReceiver (hw_init sdk (fw_reset w d)) = gps_init" "loraDriver (hw_init sdk (fw_reset w d)) = lora_init"
    by (simp_all add: hw_init_def fw_reset_def Let_def split: prod.splits)
  ultimately show ?thesis
    using gps_init_wf lora_init_wf
    by (auto simp: fw_account_def gps_account_def lora_account_def gps_init_def lora_init_def gps_pending_def lora_pending_def
        intro!: exI [of _ "[]"] blank)
qed

lemma fw_main_accounts:
  assumes "fw_main sdk setup ticks acts (fw_reset w d) = Some m"
  shows "fw_account (w_fifo w) (fst (main_app m))"
proof (rule fw_main_run [where J = "\<lambda>n. fw_account (w_fifo w)", OF assms], goal_cases)
  case (1 s)
  then show ?case by (rule postD [OF fw_handles_account [OF fw_account_start]])
next
  case (2 n s c)
  then show ?case by (simp add: fw_account_def gps_account_def lora_account_def)
next
  case (3 n s s')
  then show ?case using postD [OF fw_handles_account] by blast
qed

lemma ledger_on_wire: "ledger origin bs out \<Longrightarrow> heard F u (bs @ p) w \<Longrightarrow> subseq bs (wire F u (w_step w))"
  unfolding heard_def append_assoc by (meson prefix_imp_subseq prefixI subseq_order.order_trans)

subsection \<open>A run with a sentence\<close>

text \<open>A machine on which the sample report comes in over UART1 at the first step.\<close>

definition report_world :: world where
  "report_world = (sim_world [] [])\<lparr>w_fifo := (\<lambda>u n. if u = HAL_UART1 \<and> n = 0 then fx_line fx_sample @ [13, 10] else [])\<rparr>"

text \<open>All that arrives with the first poll, on a line that is quiet afterwards, is read.\<close>

lemma gps_schedIn_burst:
  assumes "world_wf w" "rx_list HAL_UART1 w = []" "w_fifo w HAL_UART1 (w_step w) = bs" "\<forall>n > w_step w. w_fifo w HAL_UART1 n = []"
    and "bs \<noteq> []" "length bs < 256" "m_enabled g" "foldM gps_byte bs g = Some g'"
  shows "\<exists>w'. gps_schedIn_handler g w = Some (g', w') \<and> later w w'"
proof -
  have rx: "rx_list HAL_UART1 w @ rx_arriving HAL_UART1 w = bs" using assms(2,3,6) by (simp add: rx_arriving_def rx_fifo_id_def)
  obtain b w1 where w1: "hal_uart_getc HAL_UART1 0 w = Some (HAL_OK, b, w1)" "world_wf w1" "later w w1" "w_step w1 = Suc (w_step w)"
      "bs = b # rx_list HAL_UART1 w1"
    using hal_uart_getc_cases [OF assms(1), of HAL_UART1 0] rx assms(5) by metis
  have poll: "hal_poll HAL_UART1 w = Some (Some b, w1)" using w1(1) by (simp add: hal_poll_def)
  have q: "rx_quiet HAL_UART1 w1" using w1(3,4) assms(4) by (simp add: rx_quiet_def rx_fifo_id_def later_def same_hw_def)
  obtain g1 where g1: "gps_byte b g = Some g1" "foldM gps_byte (rx_list HAL_UART1 w1) g1 = Some g'"
    using assms(8) w1(5) by (auto simp: Option.bind_eq_Some_conv)
  have "length (rx_list HAL_UART1 w1) < 255" using assms(6) w1(5) by simp
  from uart1.drain_quiet [OF w1(2) q this g1(2)] obtain w' where
    w': "drain (hal_poll HAL_UART1) gps_byte 255 g1 w1 = Some (g', w')" "later w1 w'" by blast
  have n: "256 = Suc 255" by simp
  have "gps_schedIn_handler g w = Some (g', w')"
    unfolding gps_schedIn_drain [OF assms(1)] n drain.simps using poll g1(1) w'(1) assms(7) by simp
  then show ?thesis using later_trans [OF w1(3) w'(2)] by blast
qed

lemma report_run:
  "\<exists>m. fw_main sim_i2c [] [[GpsSched]] sim_acts (fw_reset report_world ()) = Some m
    \<and> gps_out (gpsReceiver (fst (main_app m))) = [TlmUtcTime 795411, TlmFixQuality 1, TlmSatCount 8, TlmLatitude 48117300,
        TlmLongitude 11516666, TlmAltitude 54540, TlmHDOP 90, LogFixAcquired 8, TlmSentenceCount 1]"
proof -
  let ?bs = "fx_line fx_sample @ [13, 10]"
  have i: "m_lineLen gps_init = 0" "m_lastFixQuality gps_init = 0" "gps_out gps_init = []" "m_enabled gps_init" "m_sentenceCount gps_init = 0"
    by (simp_all add: gps_init_def)
  have len: "length (fx_line fx_sample) \<le> 99" "length ?bs < 256" using fx_sample_ok(2) by simp_all
  obtain g' where g': "foldM gps_byte ?bs gps_init = Some g'" "gps_core g' = gps_core (fx_effect fx_sample gps_init)"
    using gps_frame_fix [OF fx_sample_ok(1) len(1) gps_init_wf i(1)] by blast
  have out: "gps_out g' = [TlmUtcTime 795411, TlmFixQuality 1, TlmSatCount 8, TlmLatitude 48117300,
        TlmLongitude 11516666, TlmAltitude 54540, TlmHDOP 90, LogFixAcquired 8, TlmSentenceCount 1]"
    using g'(2) i fx_sample_outputs by (simp add: gps_core_def fx_effect_def)
  let ?s = "hw_init sim_i2c (fw_reset report_world ())"
  let ?w = "sdk_do WatchdogUpdate (sdk_do (AddRepeatingTimerMs 250) (hw ?s))"
  have a: "fw_account (w_fifo report_world) ?s" by (rule fw_account_start)
  have g: "gpsReceiver ?s = gps_init" by (simp add: hw_init_def fw_reset_def Let_def split: prod.splits)
  have w: "w_step ?w = 0" "w_fifo ?w = w_fifo report_world" "rx_list HAL_UART1 ?w = []"
    by (auto simp: hw_init_def fw_reset_def hal_uart0_init_def hal_uart1_init_def uart0_init_hw_def uart1_init_hw_def
        hal_watchdog_enable_def sdk_do_def Let_def rx_list_def rx_of_def rb_list_def rb_count_def split: prod.splits)
  have wf: "world_wf ?w" using a by (auto simp: fw_account_def gps_account_def heard_def sdk_do_def world_wf_def)
  have f: "w_fifo ?w HAL_UART1 (w_step ?w) = ?bs" "\<forall>n > w_step ?w. w_fifo ?w HAL_UART1 n = []"
    using w by (simp_all add: report_world_def)
  obtain w' where w': "gps_schedIn_handler gps_init ?w = Some (g', w')"
    using gps_schedIn_burst [OF wf w(3) f _ len(2) i(4) g'(1)] by blast
  have "\<exists>m. fw_main sim_i2c [] [[GpsSched]] sim_acts (fw_reset report_world ()) = Some m \<and> gpsReceiver (fst (main_app m)) = g'"
    using w' g
    by (simp add: fw_main_def main_setup_def main_exec_def main_act_defs main_start_def fw_kick_def BaremetalTimer_tick_def
        hal_watchdog_kick_def Let_def fw_handle_def with_gps_def)
  then show ?thesis using out by auto
qed

text \<open>A machine on which the module accepts one command and refuses the next.\<close>

definition answer_world :: world where
  "answer_world = (sim_world [] [])\<lparr>w_fifo := (\<lambda>u n. if u = HAL_UART0 \<and> n = 0 then ascii ''+OK'' @ [10] @ ascii ''+ERR=4'' @ [10] else [])\<rparr>"

declare uart_wait_writable.simps [code] read_at_loop.simps [code]

lemma answer_run:
  "\<exists>m. fw_main sim_i2c [] [[LoraSendAt 3 4 (ascii ''AT''), LoraSendAt 3 5 (ascii ''AT'')]] sim_acts (fw_reset answer_world ()) = Some m
    \<and> lora_out (loraDriver (fst (main_app m))) = [LoraCmdResponse 3 4 CmdOK, LoraCmdResponse 3 5 EXECUTION_ERROR]"
proof -
  have "map_option (\<lambda>m. lora_out (loraDriver (fst (main_app m))))
      (fw_main sim_i2c [] [[LoraSendAt 3 4 (ascii ''AT''), LoraSendAt 3 5 (ascii ''AT'')]] sim_acts (fw_reset answer_world ()))
    = Some [LoraCmdResponse 3 4 CmdOK, LoraCmdResponse 3 5 EXECUTION_ERROR]"
    by code_simp
  then show ?thesis by (simp only: map_option_eq_Some)
qed

subsection \<open>Properties\<close>

text \<open>
  C6: No report without its sentence: in every run of \<open>main\<close> from reset, whatever arrives and whatever the
  framework does, all the GPS receiver sends is accounted for, in order, by characters that came over UART1
  in this order, each used once. A position, time, fix quality, satellite count, altitude and HDOP rest on one
  GGA line with a correct checksum whose fields give exactly these values, a parse error on such a line with a
  field that is missing or refused, a checksum error on a line whose checksum fails, an overrun on a hundred
  characters, and nothing else is sent but command responses.
\<close>

theorem gps_reports_genuine:
  assumes "fw_main sdk setup ticks acts (fw_reset w d) = Some m"
  shows "\<exists>bs. ledger gps_origin bs (gps_out (gpsReceiver (fst (main_app m))))
    \<and> subseq bs (wire (w_fifo w) HAL_UART1 (w_step (hw (fst (main_app m)))))"
  using fw_main_accounts [OF assms] ledger_on_wire unfolding fw_account_def gps_account_def by blast

lemma gps_reports_genuine_witness:
  "\<exists>bs n. ledger gps_origin bs [TlmUtcTime 795411, TlmFixQuality 1, TlmSatCount 8, TlmLatitude 48117300,
        TlmLongitude 11516666, TlmAltitude 54540, TlmHDOP 90, LogFixAcquired 8, TlmSentenceCount 1]
    \<and> subseq bs (wire (w_fifo report_world) HAL_UART1 n)"
  using report_run gps_reports_genuine [of sim_i2c "[]" "[[GpsSched]]" sim_acts report_world "()"] by fastforce

text \<open>
  C7: No packet without its line, no success without an answer: in every run of \<open>main\<close>, each packet the LoRa
  driver reports comes from a \<open>+RCV=\<close> line that came over UART0 and has exactly this RSSI and SNR, each line
  used once; and each successful command response, each module-ready report, each sent and each refused packet
  comes from the lines of the module that answer it, each line used once: one line that starts with \<open>+O\<close> or
  \<open>+R\<close> for a command, seven for a start or reset of the module, a line other than \<open>+E\<close> for a sent packet and a
  \<open>+E\<close> line with this error code for a refused one, where a silent module is reported with code 0.
\<close>

theorem lora_claims_genuine:
  assumes "fw_main sdk setup ticks acts (fw_reset w d) = Some m"
  shows "(\<exists>bs. ledger packet_origin bs (lora_out (loraDriver (fst (main_app m))))
      \<and> subseq bs (wire (w_fifo w) HAL_UART0 (w_step (hw (fst (main_app m))))))
    \<and> (\<exists>bs. ledger answer_origin bs (lora_out (loraDriver (fst (main_app m))))
      \<and> subseq bs (wire (w_fifo w) HAL_UART0 (w_step (hw (fst (main_app m))))))"
  using fw_main_accounts [OF assms] ledger_on_wire [where p = "[]", simplified] ledger_on_wire
  unfolding fw_account_def lora_account_def by blast

lemma lora_claims_genuine_witness:
  "\<exists>bs n. ledger answer_origin bs [LoraCmdResponse 3 4 CmdOK, LoraCmdResponse 3 5 EXECUTION_ERROR]
    \<and> subseq bs (wire (w_fifo answer_world) HAL_UART0 n)"
  using answer_run lora_claims_genuine [of sim_i2c "[]" "[[LoraSendAt 3 4 (ascii ''AT''), LoraSendAt 3 5 (ascii ''AT'')]]" sim_acts answer_world "()"]
  by fastforce

end
