(* ===== verification/Config.thy ===== *)
theory Config
  imports Telemetry Timing
begin

text \<open>
  The build configuration: the constants of \<open>config/\<close>, the instances of \<open>Top/PipiCubeTopology.fpp\<close> and the
  dictionary the \<open>.fpp\<close> files declare (channels, events and commands with their ids). The framework and its code
  generator read these files; what the theorems show is that they agree with each other and with the code.
\<close>

subsection \<open>Project constants, \<open>config/AcConstants.fpp\<close>\<close>

definition BATTERY_MONITOR_QUEUE_DEPTH :: nat where "BATTERY_MONITOR_QUEUE_DEPTH = 10"
definition GPS_RECEIVER_QUEUE_DEPTH :: nat where "GPS_RECEIVER_QUEUE_DEPTH = 10"
definition LORA_DRIVER_QUEUE_DEPTH :: nat where "LORA_DRIVER_QUEUE_DEPTH = 20"
definition BATTERY_MONITOR_STACK_SIZE :: nat where "BATTERY_MONITOR_STACK_SIZE = 2048"
definition GPS_RECEIVER_STACK_SIZE :: nat where "GPS_RECEIVER_STACK_SIZE = 2048"
definition LORA_DRIVER_STACK_SIZE :: nat where "LORA_DRIVER_STACK_SIZE = 4096"
definition BATTERY_MONITOR_PRIORITY :: nat where "BATTERY_MONITOR_PRIORITY = 80"
definition GPS_RECEIVER_PRIORITY :: nat where "GPS_RECEIVER_PRIORITY = 75"
definition LORA_DRIVER_PRIORITY :: nat where "LORA_DRIVER_PRIORITY = 70"
definition HAL_UART_RING_BUF_SIZE :: nat where "HAL_UART_RING_BUF_SIZE = 256"
definition LORA_PAYLOAD_MAX_BYTES :: nat where "LORA_PAYLOAD_MAX_BYTES = 80"
definition I2C_TIMEOUT_US :: u32 where "I2C_TIMEOUT_US = 2000"
definition UART_RX_TIMEOUT_US :: u32 where "UART_RX_TIMEOUT_US = 5000"
definition LORA_AT_RESPONSE_TIMEOUT_US :: u32 where "LORA_AT_RESPONSE_TIMEOUT_US = 200000"
definition BATTERY_LOW_THRESHOLD_DEFAULT :: u8 where "BATTERY_LOW_THRESHOLD_DEFAULT = 20"
definition LORA_DEFAULT_FREQ_KHZ :: u32 where "LORA_DEFAULT_FREQ_KHZ = 868000"
definition LORA_DEFAULT_SF :: u8 where "LORA_DEFAULT_SF = 9"
definition LORA_DEFAULT_POWER_DBM :: u8 where "LORA_DEFAULT_POWER_DBM = 14"
definition LORA_DEFAULT_NODE_ADDR :: nat where "LORA_DEFAULT_NODE_ADDR = 1"
definition LORA_GROUND_STATION_ADDR :: nat where "LORA_GROUND_STATION_ADDR = 0"

subsection \<open>Framework tables and switches, \<open>config/*.hpp\<close> and \<open>config/FpConfig.h\<close>\<close>

definition CMD_DISPATCHER_DISPATCH_TABLE_SIZE :: nat where "CMD_DISPATCHER_DISPATCH_TABLE_SIZE = 30"
definition CMD_DISPATCHER_SEQUENCER_TABLE_SIZE :: nat where "CMD_DISPATCHER_SEQUENCER_TABLE_SIZE = 5"
definition TLMCHAN_NUM_TLM_HASH_SLOTS :: nat where "TLMCHAN_NUM_TLM_HASH_SLOTS = 5"
definition TLMCHAN_HASH_MOD_VALUE :: nat where "TLMCHAN_HASH_MOD_VALUE = 23"
definition TLMCHAN_HASH_BUCKETS :: nat where "TLMCHAN_HASH_BUCKETS = 25"

definition FW_OBJECT_NAMES :: nat where "FW_OBJECT_NAMES = 0"
definition FW_OBJECT_REGISTRATION :: nat where "FW_OBJECT_REGISTRATION = 0"
definition FW_QUEUE_REGISTRATION :: nat where "FW_QUEUE_REGISTRATION = 0"
definition FW_PORT_TRACING :: nat where "FW_PORT_TRACING = 0"
definition FW_PORT_SERIALIZATION :: nat where "FW_PORT_SERIALIZATION = 1"
definition FW_USE_PRINTF_FAMILY_FUNCTIONS_IN_STRING_FORMATTING :: nat where
  "FW_USE_PRINTF_FAMILY_FUNCTIONS_IN_STRING_FORMATTING = 1"
definition FW_ENABLE_TEXT_LOGGING :: nat where "FW_ENABLE_TEXT_LOGGING = 0"
definition FW_SERIALIZABLE_TO_STRING :: nat where "FW_SERIALIZABLE_TO_STRING = 0"

definition FW_OPTIONAL_NAME :: "string \<Rightarrow> string" where
  "FW_OPTIONAL_NAME name = (if FW_OBJECT_NAMES = 1 then name else '''')"

subsection \<open>Instances\<close>

datatype instance_name =
    BaremetalTimerI | RateGroupDriverI | RateGroup1HzI | RateGroup4HzI | CmdDispI | TlmChanI | EventManagerI
  | SystemTimeI | BatteryMonitorI | GpsReceiverI | LoraDriverI

text \<open>An active instance has a queue and a task.\<close>

record active_cfg =
  queue_size :: nat
  stack_size :: nat
  priority :: nat

definition topology_instances :: "(instance_name \<times> nat \<times> active_cfg option) list" where
  "topology_instances =
     [(BaremetalTimerI, 0x0005, None),
      (RateGroupDriverI, 0x0010, None),
      (RateGroup1HzI, 0x0100, Some \<lparr>queue_size = 10, stack_size = 4096, priority = 90\<rparr>),
      (RateGroup4HzI, 0x0200, Some \<lparr>queue_size = 10, stack_size = 4096, priority = 85\<rparr>),
      (CmdDispI, 0x0300, Some \<lparr>queue_size = 20, stack_size = 4096, priority = 70\<rparr>),
      (TlmChanI, 0x0400, Some \<lparr>queue_size = 10, stack_size = 4096, priority = 60\<rparr>),
      (EventManagerI, 0x0500, Some \<lparr>queue_size = 10, stack_size = 4096, priority = 65\<rparr>),
      (SystemTimeI, 0x0600, None),
      (BatteryMonitorI, 0x1000, Some \<lparr>queue_size = 10, stack_size = 2048, priority = 80\<rparr>),
      (GpsReceiverI, 0x2000, Some \<lparr>queue_size = 10, stack_size = 2048, priority = 75\<rparr>),
      (LoraDriverI, 0x3000, Some \<lparr>queue_size = 20, stack_size = 4096, priority = 70\<rparr>)]"

definition base_id :: "instance_name \<Rightarrow> nat" where
  "base_id i = fst (the (map_of topology_instances i))"

definition active_instances :: "(instance_name \<times> active_cfg) list" where
  "active_instances = concat (map (\<lambda>(i, b, a). case a of None \<Rightarrow> [] | Some c \<Rightarrow> [(i, c)]) topology_instances)"

subsection \<open>The dictionary\<close>

text \<open>
  The declarations of the components: a channel or an event by its local id, its name and the types of its numeric
  arguments; a command by its opcode.
\<close>

datatype item_kind = Channel | Event

datatype fpp_item =
    BatteryPercent | ChargeState | OutputEnabled | I2cErrors | I2cReadError | BatteryLow
  | BatteryCritical | ChargeStateChanged | BatteryFull | FixQuality | SatCount | Latitude_1e6deg
  | Longitude_1e6deg | Altitude_cm | HDOP_x100 | UtcTime_hms | SentenceCount | NmeaChecksumError
  | FixAcquired | FixLost | UartOverrun | ParseError | LastRxRssi_dBm | LastRxSnr_x10
  | TxPacketCount | TxErrorCount | RxPacketCount | ModuleState | InitFailed | TxError
  | ModuleReady | PacketReceived | AtBufOverrun | PayloadTooLarge

datatype fpp_command =
    BATTERY_POLL | BATTERY_SET_LOW_THRESHOLD | GPS_RESET | GPS_SET_ENABLED | LORA_SEND_AT | LORA_SET_FREQ
  | LORA_SET_SF | LORA_SET_POWER | LORA_RESET

type_synonym declarations = "((item_kind \<times> nat) \<times> fpp_item \<times> fpp_type list) list"

definition bat_declarations :: declarations where
  "bat_declarations =
     [((Channel, 0x100), BatteryPercent, [U8]),
      ((Channel, 0x101), ChargeState, [U8]),
      ((Channel, 0x102), OutputEnabled, []),
      ((Channel, 0x103), I2cErrors, [U32]),
      ((Event, 0x100), I2cReadError, [U8, I32]),
      ((Event, 0x101), BatteryLow, [U8]),
      ((Event, 0x102), BatteryCritical, [U8]),
      ((Event, 0x103), ChargeStateChanged, [U8]),
      ((Event, 0x104), BatteryFull, [])]"

definition gps_declarations :: declarations where
  "gps_declarations =
     [((Channel, 0x200), FixQuality, [U8]),
      ((Channel, 0x201), SatCount, [U8]),
      ((Channel, 0x202), Latitude_1e6deg, [I32]),
      ((Channel, 0x203), Longitude_1e6deg, [I32]),
      ((Channel, 0x204), Altitude_cm, [I32]),
      ((Channel, 0x205), HDOP_x100, [U16]),
      ((Channel, 0x206), UtcTime_hms, [U32]),
      ((Channel, 0x207), SentenceCount, [U32]),
      ((Event, 0x200), NmeaChecksumError, []),
      ((Event, 0x201), FixAcquired, [U8]),
      ((Event, 0x202), FixLost, []),
      ((Event, 0x203), UartOverrun, [U32]),
      ((Event, 0x204), ParseError, [U8])]"

definition lora_declarations :: declarations where
  "lora_declarations =
     [((Channel, 0x300), LastRxRssi_dBm, [I16]),
      ((Channel, 0x301), LastRxSnr_x10, [I16]),
      ((Channel, 0x302), TxPacketCount, [U32]),
      ((Channel, 0x303), TxErrorCount, [U32]),
      ((Channel, 0x304), RxPacketCount, [U32]),
      ((Channel, 0x305), ModuleState, [U8]),
      ((Event, 0x300), InitFailed, [U8]),
      ((Event, 0x301), TxError, [U8]),
      ((Event, 0x302), ModuleReady, []),
      ((Event, 0x303), PacketReceived, [I16, I16]),
      ((Event, 0x304), AtBufOverrun, []),
      ((Event, 0x305), PayloadTooLarge, [U32])]"

definition bat_opcodes :: "(nat \<times> fpp_command) list" where
  "bat_opcodes = [(0x00, BATTERY_POLL), (0x01, BATTERY_SET_LOW_THRESHOLD)]"

definition gps_opcodes :: "(nat \<times> fpp_command) list" where
  "gps_opcodes = [(0x10, GPS_RESET), (0x11, GPS_SET_ENABLED)]"

definition lora_opcodes :: "(nat \<times> fpp_command) list" where
  "lora_opcodes = [(0x20, LORA_SEND_AT), (0x21, LORA_SET_FREQ), (0x22, LORA_SET_SF),
     (0x23, LORA_SET_POWER), (0x24, LORA_RESET)]"

text \<open>On the ground, an item is known by its kind and the sum of the instance's base id and its local id.\<close>

definition globally :: "instance_name \<Rightarrow> declarations \<Rightarrow> ((item_kind \<times> nat) \<times> instance_name \<times> fpp_item \<times> fpp_type list) list" where
  "globally i ds = map (\<lambda>((k, n), d). ((k, base_id i + n), i, d)) ds"

definition dictionary :: "((item_kind \<times> nat) \<times> instance_name \<times> fpp_item \<times> fpp_type list) list" where
  "dictionary = globally BatteryMonitorI bat_declarations @ globally GpsReceiverI gps_declarations
     @ globally LoraDriverI lora_declarations"

definition command_dictionary :: "(nat \<times> fpp_command) list" where
  "command_dictionary = concat (map (\<lambda>(i, cs). map (\<lambda>(n, c). (base_id i + n, c)) cs)
     [(BatteryMonitorI, bat_opcodes), (GpsReceiverI, gps_opcodes), (LoraDriverI, lora_opcodes)])"

text \<open>
  The item each output is sent as: the name of the generated function the code calls
  (\<open>tlmWrite_BatteryPercent\<close>, \<open>log_WARNING_HI_BatteryLow\<close> and so on). A command response is no item.
\<close>

definition bat_item :: "bat_output \<Rightarrow> (item_kind \<times> fpp_item) option" where
  "bat_item x =
     (case x of
        TlmBatteryPercent _ \<Rightarrow> Some (Channel, BatteryPercent)
      | TlmChargeState _ \<Rightarrow> Some (Channel, ChargeState)
      | TlmOutputEnabled _ \<Rightarrow> Some (Channel, OutputEnabled)
      | TlmI2cErrors _ \<Rightarrow> Some (Channel, I2cErrors)
      | LogI2cReadError _ _ \<Rightarrow> Some (Event, I2cReadError)
      | LogBatteryLow _ \<Rightarrow> Some (Event, BatteryLow)
      | LogBatteryCritical _ \<Rightarrow> Some (Event, BatteryCritical)
      | LogChargeStateChanged _ \<Rightarrow> Some (Event, ChargeStateChanged)
      | LogBatteryFull \<Rightarrow> Some (Event, BatteryFull)
      | BatCmdResponse _ _ _ \<Rightarrow> None)"

definition gps_item :: "gps_output \<Rightarrow> (item_kind \<times> fpp_item) option" where
  "gps_item x =
     (case x of
        TlmFixQuality _ \<Rightarrow> Some (Channel, FixQuality)
      | TlmSatCount _ \<Rightarrow> Some (Channel, SatCount)
      | TlmLatitude _ \<Rightarrow> Some (Channel, Latitude_1e6deg)
      | TlmLongitude _ \<Rightarrow> Some (Channel, Longitude_1e6deg)
      | TlmAltitude _ \<Rightarrow> Some (Channel, Altitude_cm)
      | TlmHDOP _ \<Rightarrow> Some (Channel, HDOP_x100)
      | TlmUtcTime _ \<Rightarrow> Some (Channel, UtcTime_hms)
      | TlmSentenceCount _ \<Rightarrow> Some (Channel, SentenceCount)
      | LogNmeaChecksumError _ \<Rightarrow> Some (Event, NmeaChecksumError)
      | LogFixAcquired _ \<Rightarrow> Some (Event, FixAcquired)
      | LogFixLost \<Rightarrow> Some (Event, FixLost)
      | LogUartOverrun _ \<Rightarrow> Some (Event, UartOverrun)
      | LogParseError _ \<Rightarrow> Some (Event, ParseError)
      | GpsCmdOK _ _ \<Rightarrow> None)"

definition lora_item :: "lora_output \<Rightarrow> (item_kind \<times> fpp_item) option" where
  "lora_item x =
     (case x of
        TlmLastRxRssi _ \<Rightarrow> Some (Channel, LastRxRssi_dBm)
      | TlmLastRxSnr _ \<Rightarrow> Some (Channel, LastRxSnr_x10)
      | TlmTxPacketCount _ \<Rightarrow> Some (Channel, TxPacketCount)
      | TlmTxErrorCount _ \<Rightarrow> Some (Channel, TxErrorCount)
      | TlmRxPacketCount _ \<Rightarrow> Some (Channel, RxPacketCount)
      | TlmModuleState _ \<Rightarrow> Some (Channel, ModuleState)
      | LogInitFailed _ \<Rightarrow> Some (Event, InitFailed)
      | LogTxError _ \<Rightarrow> Some (Event, TxError)
      | LogModuleReady \<Rightarrow> Some (Event, ModuleReady)
      | LogPacketReceived _ _ \<Rightarrow> Some (Event, PacketReceived)
      | LogAtBufOverrun \<Rightarrow> Some (Event, AtBufOverrun)
      | LogPayloadTooLarge _ \<Rightarrow> Some (Event, PayloadTooLarge)
      | LoraCmdResponse _ _ _ \<Rightarrow> None)"

text \<open>An item is declared under a name exactly once, with the types of the arguments the code passes, and the arguments fit.\<close>

definition declared_as :: "declarations \<Rightarrow> item_kind \<times> fpp_item \<Rightarrow> (nat \<times> fpp_type list) list" where
  "declared_as ds kn = map (\<lambda>((k, n), name, tys). (n, tys)) (filter (\<lambda>((k, n), name, tys). (k, name) = kn) ds)"

definition item_declared :: "declarations \<Rightarrow> (item_kind \<times> fpp_item) option \<Rightarrow> (fpp_type \<times> int) list \<Rightarrow> bool" where
  "item_declared ds item args \<longleftrightarrow>
     (case item of None \<Rightarrow> True | Some kn \<Rightarrow> map snd (declared_as ds kn) = [map fst args] \<and> (\<forall>(t, v) \<in> set args. fits t v))"

text \<open>The channels and commands of the three components, and the instances of the framework.\<close>

definition own_channels :: nat where
  "own_channels = length (filter (\<lambda>((k, n), e). k = Channel) dictionary)"

definition framework_instances :: "instance_name list" where
  "framework_instances = filter (\<lambda>i. i \<notin> {BatteryMonitorI, GpsReceiverI, LoraDriverI}) (map fst topology_instances)"

lemma base_id_simps [simp]: "base_id BatteryMonitorI = 0x1000" "base_id GpsReceiverI = 0x2000" "base_id LoraDriverI = 0x3000"
  by (simp_all add: base_id_def topology_instances_def)

lemmas declaration_defs = bat_declarations_def gps_declarations_def lora_declarations_def

lemma dictionary_eq: "dictionary = concat (map (\<lambda>(i, ds). map (\<lambda>((k, n), d). ((k, base_id i + n), i, d)) ds)
    [(BatteryMonitorI, bat_declarations), (GpsReceiverI, gps_declarations), (LoraDriverI, lora_declarations)])"
  by (simp add: dictionary_def globally_def)

lemma dictionary_distinct: "distinct (map fst dictionary)" "distinct (map fst command_dictionary)"
  by (simp_all add: dictionary_eq declaration_defs command_dictionary_def bat_opcodes_def gps_opcodes_def lora_opcodes_def)

lemma bat_item_declared: "bat_value_ok x \<Longrightarrow> item_declared bat_declarations (bat_item x) (bat_args x)"
  by (cases x) (auto simp: item_declared_def declared_as_def bat_item_def bat_args_def bat_declarations_def bat_value_ok_def well_typed_def)

lemma gps_item_declared: "gps_value_ok x \<Longrightarrow> item_declared gps_declarations (gps_item x) (gps_args x)"
  by (cases x) (auto simp: item_declared_def declared_as_def gps_item_def gps_args_def gps_declarations_def gps_value_ok_def well_typed_def)

lemma lora_item_declared: "lora_value_ok x \<Longrightarrow> item_declared lora_declarations (lora_item x) (lora_args x)"
  by (cases x) (auto simp: item_declared_def declared_as_def lora_item_def lora_args_def lora_declarations_def lora_value_ok_def well_typed_def)

lemma own_ids_high:
  "list_all (\<lambda>((k, n), e). 0x1000 \<le> n) dictionary" "list_all (\<lambda>(n, c). 0x1000 \<le> n) command_dictionary"
  by (simp_all add: dictionary_eq declaration_defs command_dictionary_def bat_opcodes_def gps_opcodes_def lora_opcodes_def)

lemma framework_base_ids: "i \<in> set framework_instances \<Longrightarrow> base_id i \<le> 0x600"
  by (auto simp: framework_instances_def base_id_def topology_instances_def)

lemma framework_ids_apart:
  assumes "i \<in> set framework_instances" "n < 0xA00"
  shows "(k, base_id i + n) \<notin> fst ` set dictionary" "base_id i + n \<notin> fst ` set command_dictionary"
proof -
  have "base_id i + n < 0x1000" using framework_base_ids [OF assms(1)] assms(2) by simp
  then show "(k, base_id i + n) \<notin> fst ` set dictionary" "base_id i + n \<notin> fst ` set command_dictionary"
    using own_ids_high by (auto simp: list_all_iff)
qed

lemma own_counts: "own_channels = 18" "length command_dictionary = 9"
  by (simp_all add: own_channels_def dictionary_eq declaration_defs command_dictionary_def bat_opcodes_def gps_opcodes_def lora_opcodes_def)

subsection \<open>Properties\<close>



lemmas instance_constant_defs = BATTERY_MONITOR_QUEUE_DEPTH_def GPS_RECEIVER_QUEUE_DEPTH_def LORA_DRIVER_QUEUE_DEPTH_def
  BATTERY_MONITOR_STACK_SIZE_def GPS_RECEIVER_STACK_SIZE_def LORA_DRIVER_STACK_SIZE_def
  BATTERY_MONITOR_PRIORITY_def GPS_RECEIVER_PRIORITY_def LORA_DRIVER_PRIORITY_def

text \<open>A bus that differs from \<open>sdk\<close> in the calls with another time-out than \<open>t\<close>.\<close>

definition other_timeouts :: "u32 \<Rightarrow> 'd i2c_sdk \<Rightarrow> 'd i2c_sdk \<Rightarrow> 'd i2c_sdk" where
  "other_timeouts t other sdk = sdk
     \<lparr>i2c_write_timeout_us := (\<lambda>addr bs nostop t'. i2c_write_timeout_us (if t' = t then sdk else other) addr bs nostop t'),
      i2c_read_timeout_us := (\<lambda>addr len nostop t'. i2c_read_timeout_us (if t' = t then sdk else other) addr len nostop t')\<rparr>"

lemma other_timeouts_fields:
  "i2c_write_timeout_us (other_timeouts t other sdk) addr bs nostop t = i2c_write_timeout_us sdk addr bs nostop t"
  "i2c_read_timeout_us (other_timeouts t other sdk) addr len nostop t = i2c_read_timeout_us sdk addr len nostop t"
  "PICO_ERROR_GENERIC (other_timeouts t other sdk) = PICO_ERROR_GENERIC sdk" "PICO_ERROR_TIMEOUT (other_timeouts t other sdk) = PICO_ERROR_TIMEOUT sdk"
  by (simp_all add: other_timeouts_def)

lemma i2c_timeout_only: "hal_i2c_read_reg (other_timeouts t other sdk) i2c_id addr reg b len t d = hal_i2c_read_reg sdk i2c_id addr reg b len t d"
  by (simp only: hal_i2c_read_reg_def i2c1_read_reg_def other_timeouts_fields)

lemma poll_timeout: "doPoll (other_timeouts I2C_TIMEOUT_US other sdk) b d = doPoll sdk b d"
  unfolding I2C_TIMEOUT_US_def doPoll_def i2c_timeout_only ..

lemma freq_silent:
  assumes "world_wf w" "live_clock (w_clock w)" "lora_wf l" "tx_free HAL_UART0 w" "rx_quiet HAL_UART0 w" "rx_list HAL_UART0 w = []"
  shows "\<exists>l' w'. LORA_SET_FREQ_cmdHandler op seq f l w = Some (l', w') \<and> last (lora_out l') = LoraCmdResponse op seq EXECUTION_ERROR
    \<and> w_reads w + 2 < w_reads w' - 1
    \<and> w_clock w (w_reads w + 2) + ucast LORA_AT_RESPONSE_TIMEOUT_US \<le> w_clock w (w_reads w' - 1)
    \<and> (\<forall>n. w_reads w + 2 < n \<and> n < w_reads w' - 1 \<longrightarrow> w_clock w n < w_clock w (w_reads w + 2) + ucast LORA_AT_RESPONSE_TIMEOUT_US)"
proof -
  let ?s = "ascii ''AT+BAND='' @ nat_text (unat (f * 1000))"
  obtain m where m: "w_reads w + 2 < m" "w_clock w (w_reads w + 2) + ucast (200000 :: u32) \<le> w_clock w m"
    using assms(2) unfolding live_clock_def by (meson Suc_le_eq)
  have "length (nat_text (unat (f * 1000))) \<le> 10" by (rule nat_text_u32)
  then have s: "0 \<notin> set ?s" "length ?s \<le> 126" by simp_all
  have T: "LORA_AT_TIMEOUT_US = 200000" "LORA_AT_RESPONSE_TIMEOUT_US = 200000"
    by (simp_all add: LORA_AT_TIMEOUT_US_def LORA_AT_RESPONSE_TIMEOUT_US_def)
  obtain l' w' where r: "sendAT (?s @ [0]) 200000 l w = Some (False, l', w')" "w_reads w + 2 < w_reads w' - 1"
    "w_clock w (w_reads w + 2) + ucast (200000 :: u32) \<le> w_clock w (w_reads w' - 1)"
    "\<forall>n. w_reads w + 2 < n \<and> Suc n < w_reads w' \<longrightarrow> w_clock w n < w_clock w (w_reads w + 2) + ucast (200000 :: u32)"
    using sendAT_silent [OF assms(1,3) s assms(4-6) m] by blast
  have "LORA_SET_FREQ_cmdHandler op seq f l w = Some (cmd_respond op seq False l', w')"
    using r(1) by (simp add: LORA_SET_FREQ_cmdHandler_def freq_cmd_text T(1))
  then show ?thesis
    unfolding T(2) using r(2-4) by (intro exI [of _ "cmd_respond op seq False l'"] exI [of _ w']) (auto simp: cmd_respond_def lora_emit_def)
qed

text \<open>
  C40: The constants of \<open>config/AcConstants.fpp\<close> are what the code does. A receive ring holds \<open>HAL_UART_RING_BUF_SIZE\<close>
  bytes less the one that tells full from empty; a payload is taken iff it has at most \<open>LORA_PAYLOAD_MAX_BYTES\<close>, and is addressed to
  \<open>LORA_GROUND_STATION_ADDR\<close>; a poll of the battery makes bus calls with \<open>I2C_TIMEOUT_US\<close> only; a command the module does not answer
  fails at the first reading of the timer that is \<open>LORA_AT_RESPONSE_TIMEOUT_US\<close> after the start of the wait; from power-up \<open>BatteryLow\<close> is raised at \<open>BATTERY_LOW_THRESHOLD_DEFAULT\<close>
  and below; start-up configures the module with, command for command, what \<open>LORA_SET_FREQ\<close>, \<open>LORA_SET_SF\<close> and
  \<open>LORA_SET_POWER\<close> send for the default frequency, spreading factor and power, and the default node address; the
  instances have the configured queue depths, stack sizes and priorities. \<open>UART_RX_TIMEOUT_US\<close> names nothing in the code, which
  reads the UARTs without a time-out, and is not part of the statement.
\<close>

theorem configuration_agrees:
  assumes "rb_wf rb" "world_wf w" "live_clock (w_clock w)" "lora_wf l" "m_state l = READY"
    and "tx_free HAL_UART0 w" "rx_quiet HAL_UART0 w" "rx_list HAL_UART0 w = []"
  shows "(\<exists>rb'. rx_irq_loop bs rb = Some rb' \<and> rb_list rb' = take (HAL_UART_RING_BUF_SIZE - 1) (rb_list rb @ bs))
   \<and> (\<exists>l' w'. dataIn_handler payload l w = Some (l', w')
       \<and> (m_txCount l' \<noteq> m_txCount l \<or> m_txErrors l' \<noteq> m_txErrors l \<longleftrightarrow> length payload \<le> LORA_PAYLOAD_MAX_BYTES))
   \<and> send_cmd (take LORA_PAYLOAD_MAX_BYTES payload) = Some (ascii ''AT+SEND='' @ nat_text LORA_GROUND_STATION_ADDR @ 44 #
       nat_text (length (take LORA_PAYLOAD_MAX_BYTES payload)) @ 44 # take LORA_PAYLOAD_MAX_BYTES payload @ [0])
   \<and> doPoll (other_timeouts I2C_TIMEOUT_US other sdk) b d = doPoll sdk b d
   \<and> (\<exists>l' w'. LORA_SET_FREQ_cmdHandler op seq f l w = Some (l', w') \<and> last (lora_out l') = LoraCmdResponse op seq EXECUTION_ERROR
       \<and> w_reads w + 2 < w_reads w' - 1
       \<and> w_clock w (w_reads w + 2) + ucast LORA_AT_RESPONSE_TIMEOUT_US \<le> w_clock w (w_reads w' - 1)
       \<and> (\<forall>n. w_reads w + 2 < n \<and> n < w_reads w' - 1 \<longrightarrow> w_clock w n < w_clock w (w_reads w + 2) + ucast LORA_AT_RESPONSE_TIMEOUT_US))
   \<and> (BATTERY_CRITICAL_THRESHOLD < p \<longrightarrow>
        (LogBatteryLow p \<in> set (bat_out (threshold_events False p battery_init)) \<longleftrightarrow> p \<le> BATTERY_LOW_THRESHOLD_DEFAULT))
   \<and> init_band_cmd = freq_cmd LORA_DEFAULT_FREQ_KHZ
   \<and> (\<exists>sf power. sf_cmd LORA_DEFAULT_SF = Some sf \<and> power_cmd LORA_DEFAULT_POWER_DBM = Some power
       \<and> init_params = at_step sf LORA_AT_RESPONSE_TIMEOUT_US
           (at_step (ascii ''AT+ADDRESS='' @ nat_text LORA_DEFAULT_NODE_ADDR @ [0]) LORA_AT_RESPONSE_TIMEOUT_US
             (at_step (cstr_lit ''AT+NETWORKID=6'') LORA_AT_RESPONSE_TIMEOUT_US
               (at_step power LORA_AT_RESPONSE_TIMEOUT_US (\<lambda>l w. Some (True, l, w))))))
   \<and> map_of active_instances BatteryMonitorI = Some \<lparr>queue_size = BATTERY_MONITOR_QUEUE_DEPTH,
       stack_size = BATTERY_MONITOR_STACK_SIZE, priority = BATTERY_MONITOR_PRIORITY\<rparr>
   \<and> map_of active_instances GpsReceiverI = Some \<lparr>queue_size = GPS_RECEIVER_QUEUE_DEPTH,
       stack_size = GPS_RECEIVER_STACK_SIZE, priority = GPS_RECEIVER_PRIORITY\<rparr>
   \<and> map_of active_instances LoraDriverI = Some \<lparr>queue_size = LORA_DRIVER_QUEUE_DEPTH,
       stack_size = LORA_DRIVER_STACK_SIZE, priority = LORA_DRIVER_PRIORITY\<rparr>"
proof (intro conjI)
  show "\<exists>rb'. rx_irq_loop bs rb = Some rb' \<and> rb_list rb' = take (HAL_UART_RING_BUF_SIZE - 1) (rb_list rb @ bs)"
    using ring.foldM_accepts [OF assms(1), of bs] ring.cont_bounded [OF assms(1)]
    by (auto simp: rx_irq_loop_foldM HAL_UART_RING_BUF_SIZE_def)
  show "\<exists>l' w'. dataIn_handler payload l w = Some (l', w')
       \<and> (m_txCount l' \<noteq> m_txCount l \<or> m_txErrors l' \<noteq> m_txErrors l \<longleftrightarrow> length payload \<le> LORA_PAYLOAD_MAX_BYTES)"
    using dataIn_returns [OF assms(2-4), of payload] assms(5)
    by (auto simp: Let_def LORA_PAYLOAD_MAX_BYTES_def split: if_splits)
  show "send_cmd (take LORA_PAYLOAD_MAX_BYTES payload) = Some (ascii ''AT+SEND='' @ nat_text LORA_GROUND_STATION_ADDR @ 44 #
       nat_text (length (take LORA_PAYLOAD_MAX_BYTES payload)) @ 44 # take LORA_PAYLOAD_MAX_BYTES payload @ [0])"
    using send_cmd_text [of "take LORA_PAYLOAD_MAX_BYTES payload"]
    by (simp add: LORA_PAYLOAD_MAX_BYTES_def LORA_GROUND_STATION_ADDR_def nat_text.simps)
  show "doPoll (other_timeouts I2C_TIMEOUT_US other sdk) b d = doPoll sdk b d" by (rule poll_timeout)
  show "\<exists>l' w'. LORA_SET_FREQ_cmdHandler op seq f l w = Some (l', w') \<and> last (lora_out l') = LoraCmdResponse op seq EXECUTION_ERROR
       \<and> w_reads w + 2 < w_reads w' - 1
       \<and> w_clock w (w_reads w + 2) + ucast LORA_AT_RESPONSE_TIMEOUT_US \<le> w_clock w (w_reads w' - 1)
       \<and> (\<forall>n. w_reads w + 2 < n \<and> n < w_reads w' - 1 \<longrightarrow> w_clock w n < w_clock w (w_reads w + 2) + ucast LORA_AT_RESPONSE_TIMEOUT_US)"
    by (rule freq_silent [OF assms(2-4,6-8)])
  show "BATTERY_CRITICAL_THRESHOLD < p \<longrightarrow>
        (LogBatteryLow p \<in> set (bat_out (threshold_events False p battery_init)) \<longleftrightarrow> p \<le> BATTERY_LOW_THRESHOLD_DEFAULT)"
    by (auto simp: threshold_events_def bat_emit_def battery_init_def BATTERY_LOW_THRESHOLD_DEFAULT_def)
  show "init_band_cmd = freq_cmd LORA_DEFAULT_FREQ_KHZ"
    by (simp add: init_band_cmd_text freq_cmd_text LORA_DEFAULT_FREQ_KHZ_def nat_text.simps)
  have params: "sf_cmd LORA_DEFAULT_SF = Some (cstr_lit ''AT+PARAMETER=9,7,1,12'')"
    "power_cmd LORA_DEFAULT_POWER_DBM = Some (cstr_lit ''AT+CRFOP=14'')"
    "ascii ''AT+ADDRESS='' @ nat_text LORA_DEFAULT_NODE_ADDR @ [0] = cstr_lit ''AT+ADDRESS=1''"
    by (simp_all add: sf_cmd_text LORA_DEFAULT_SF_def power_cmd_text LORA_DEFAULT_POWER_DBM_def LORA_DEFAULT_NODE_ADDR_def nat_text.simps cstr_lit_def)
  have "LORA_AT_RESPONSE_TIMEOUT_US = LORA_AT_TIMEOUT_US" by (simp add: LORA_AT_TIMEOUT_US_def LORA_AT_RESPONSE_TIMEOUT_US_def)
  then show "\<exists>sf power. sf_cmd LORA_DEFAULT_SF = Some sf \<and> power_cmd LORA_DEFAULT_POWER_DBM = Some power
       \<and> init_params = at_step sf LORA_AT_RESPONSE_TIMEOUT_US
           (at_step (ascii ''AT+ADDRESS='' @ nat_text LORA_DEFAULT_NODE_ADDR @ [0]) LORA_AT_RESPONSE_TIMEOUT_US
             (at_step (cstr_lit ''AT+NETWORKID=6'') LORA_AT_RESPONSE_TIMEOUT_US
               (at_step power LORA_AT_RESPONSE_TIMEOUT_US (\<lambda>l w. Some (True, l, w)))))"
    unfolding params by (simp add: init_params_def)
qed (simp_all add: active_instances_def topology_instances_def instance_constant_defs)

lemma configuration_agrees_witness:
  "\<exists>l' w'. LORA_SET_FREQ_cmdHandler 1 2 868000 (lora_init\<lparr>m_state := READY\<rparr>) (sim_world [] []) = Some (l', w')
    \<and> last (lora_out l') = LoraCmdResponse 1 2 EXECUTION_ERROR \<and> 200002 < w_reads w'"
proof -
  let ?w = "sim_world [] []" and ?l = "lora_init\<lparr>m_state := READY\<rparr>"
  have l: "lora_wf ?l" "m_state ?l = READY" using lora_init_wf by (simp_all add: lora_wf_def)
  have free: "tx_free HAL_UART0 ?w" by (simp add: tx_free_def sim_world_def)
  have rb: "rb_wf (rb_load [])" using rb_load_list [of "[]"] by simp
  have f: "w_clock ?w = of_nat" "w_reads ?w = 0" by (simp_all add: sim_world_def)
  obtain l' w' where r: "LORA_SET_FREQ_cmdHandler 1 2 868000 ?l ?w = Some (l', w')" "last (lora_out l') = LoraCmdResponse 1 2 EXECUTION_ERROR"
    "(2 :: u64) + ucast LORA_AT_RESPONSE_TIMEOUT_US \<le> of_nat (w_reads w' - 1)"
    using configuration_agrees [OF rb sim_world_wf sim_world_live l free sim_world_quiet sim_world_rx(1),
        where op = 1 and seq = 2 and f = 868000 and sdk = sim_i2c and other = sim_i2c,
        THEN conjunct2, THEN conjunct2, THEN conjunct2, THEN conjunct2, THEN conjunct1] f by auto
  have "200002 \<le> w_reads w' - 1"
  proof (rule ccontr)
    assume "\<not> ?thesis"
    then have "unat (of_nat (w_reads w' - 1) :: u64) < 200002" by (simp add: unat_of_nat)
    with r(3) show False by (simp add: word_le_nat_alt LORA_AT_RESPONSE_TIMEOUT_US_def)
  qed
  with r show ?thesis by auto
qed

end
