(* ===== verification/Downlink.thy ===== *)
theory Downlink
  imports Telemetry "HOL-Library.Sublist"
begin

text \<open>
  What the firmware ever says to the LoRa module, over a whole run: the bytes on UART0 are frames of the AT commands of the
  handlers that ran, each whole or, after a time-out of the transmitter, a prefix. \<open>call_texts\<close> names the commands each handler
  may send; \<open>frames_of\<close> is closed under sequence, so every handler and then every run of \<open>main\<close> is covered.
\<close>

subsection \<open>The commands of each handler\<close>

definition init_texts :: "bytes list" where
  "init_texts = [ascii ''AT'', ascii ''AT+RESET'', ascii ''AT+BAND=868000000'', ascii ''AT+PARAMETER=9,7,1,12'',
     ascii ''AT+ADDRESS=1'', ascii ''AT+NETWORKID=6'', ascii ''AT+CRFOP=14'']"

definition call_texts :: "fw_call \<Rightarrow> bytes list" where
  "call_texts c =
     (case c of
        LoraPreamble \<Rightarrow> init_texts
      | LoraReset _ _ \<Rightarrow> init_texts
      | LoraDataIn payload \<Rightarrow> [ascii ''AT+SEND=0,'' @ nat_text (length payload) @ 44 # payload]
      | LoraSendAt _ _ cmd \<Rightarrow> [cmd]
      | LoraSetFreq _ _ freqKHz \<Rightarrow> [ascii ''AT+BAND='' @ nat_text (unat (freqKHz * 1000))]
      | LoraSetSf _ _ sf \<Rightarrow> [ascii ''AT+PARAMETER='' @ (48 + sf) # ascii '',7,1,12'']
      | LoraSetPower _ _ powerDbm \<Rightarrow> [ascii ''AT+CRFOP='' @ nat_text (unat powerDbm)]
      | _ \<Rightarrow> [])"

definition frames_of :: "bytes set \<Rightarrow> bytes \<Rightarrow> bool" where
  "frames_of T bs \<longleftrightarrow> (\<exists>fs. bs = concat fs \<and> (\<forall>f \<in> set fs. \<exists>t \<in> T. prefix f (at_frame t)))"

lemma frames_Nil [simp]: "frames_of T []"
  unfolding frames_of_def by (intro exI [of _ "[]"]) simp

lemma frames_take: "t \<in> T \<Longrightarrow> frames_of T (take k (at_frame t))"
  unfolding frames_of_def by (intro exI [of _ "[take k (at_frame t)]"]) (use take_is_prefix in auto)

lemma frames_append: "frames_of T xs \<Longrightarrow> frames_of T ys \<Longrightarrow> frames_of T (xs @ ys)"
  unfolding frames_of_def by (metis Un_iff concat_append set_append)

lemma frames_mono: "frames_of S bs \<Longrightarrow> S \<subseteq> T \<Longrightarrow> frames_of T bs"
  unfolding frames_of_def by blast

subsection \<open>Initialisation\<close>

text \<open>Only frames of commands in \<open>T\<close> go out on UART0.\<close>

definition speaks :: "bytes set \<Rightarrow> (lora \<Rightarrow> world \<Rightarrow> (bool \<times> lora \<times> world) option) \<Rightarrow> bool" where
  "speaks T f \<longleftrightarrow> (\<forall>l w. world_wf w \<longrightarrow> live_clock (w_clock w) \<longrightarrow> lora_wf l \<longrightarrow>
     (\<exists>ok l' w' bs. f l w = Some (ok, l', w') \<and> at_keeps l l' \<and> wired HAL_UART0 bs w w' \<and> frames_of T bs))"

lemma speaksD:
  assumes "speaks T f" "world_wf w" "live_clock (w_clock w)" "lora_wf l"
  obtains ok l' w' bs where "f l w = Some (ok, l', w')" "at_keeps l l'" "wired HAL_UART0 bs w w'" "frames_of T bs"
  using assms unfolding speaks_def by blast

lemma wired_refl: "world_wf w \<Longrightarrow> wired HAL_UART0 [] w w"
  by (auto simp: wired_def)

lemma speaks_done: "speaks T (\<lambda>l w. Some (ok, l, w))"
  by (auto simp: speaks_def intro!: exI [of _ "[]"] at_keeps_refl wired_refl)

lemma speaks_delay:
  assumes "speaks T f"
  shows "speaks T (\<lambda>l w. do { w \<leftarrow> hal_delay_ms ms w; f l w })"
  unfolding speaks_def
proof (intro allI impI)
  fix l w
  assume w: "world_wf w" "live_clock (w_clock w)" and l: "lora_wf l"
  obtain w1 where d: "hal_delay_ms ms w = Some w1" "wired HAL_UART0 [] w w1" by (rule hal_delay_ms_wired [OF w(1)])
  obtain ok l' w' bs where r: "f l w1 = Some (ok, l', w')" "at_keeps l l'" "wired HAL_UART0 bs w1 w'" "frames_of T bs"
    by (rule speaksD [OF assms wired_wf [OF d(2)] wired_live [OF d(2) w(2)] l])
  have "(do { w \<leftarrow> hal_delay_ms ms w; f l w }) = Some (ok, l', w')" using d(1) r(1) by simp
  with r(2,4) wired_trans [OF d(2) r(3)]
  show "\<exists>ok l' w' bs. (do { w \<leftarrow> hal_delay_ms ms w; f l w }) = Some (ok, l', w') \<and> at_keeps l l' \<and> wired HAL_UART0 bs w w' \<and> frames_of T bs"
    unfolding append_Nil by blast
qed

text \<open>One command, then what its answer decides.\<close>

lemma speaks_sendAT:
  assumes "0 \<notin> set s" "length s \<le> 126" "s \<in> T" "\<And>ok. speaks T (rest ok)"
  shows "speaks T (\<lambda>l w. do { (ok, l, w) \<leftarrow> sendAT (s @ [0]) t l w; rest ok l w })"
  unfolding speaks_def
proof (intro allI impI)
  fix l w
  assume w: "world_wf w" "live_clock (w_clock w)" and l: "lora_wf l"
  obtain ok l1 w1 k where a: "sendAT (s @ [0]) t l w = Some (ok, l1, w1)" "at_keeps l l1" "wired HAL_UART0 (take k (at_frame s)) w w1"
    using sendAT_returns [OF w l assms(1,2), of t] by blast
  obtain ok' l' w' bs where r: "rest ok l1 w1 = Some (ok', l', w')" "at_keeps l1 l'" "wired HAL_UART0 bs w1 w'" "frames_of T bs"
    by (rule speaksD [OF assms(4) wired_wf [OF a(3)] wired_live [OF a(3) w(2)] at_keeps_wf [OF a(2)]])
  have "(do { (ok, l, w) \<leftarrow> sendAT (s @ [0]) t l w; rest ok l w }) = Some (ok', l', w')" using a(1) r(1) by simp
  with at_keeps_trans [OF a(2) r(2)] wired_trans [OF a(3) r(3)] frames_append [OF frames_take [OF assms(3)] r(4)]
  show "\<exists>ok l' w' bs. (do { (ok, l, w) \<leftarrow> sendAT (s @ [0]) t l w; rest ok l w }) = Some (ok, l', w') \<and> at_keeps l l'
      \<and> wired HAL_UART0 bs w w' \<and> frames_of T bs" by blast
qed

lemma speaks_step:
  assumes "speaks T rest" "0 \<notin> set s" "length s \<le> 126" "s \<in> T"
  shows "speaks T (at_step (s @ [0]) t rest)"
proof -
  have "at_step (s @ [0]) t rest = (\<lambda>l w. do { (ok, l, w) \<leftarrow> sendAT (s @ [0]) t l w; (if ok then rest else (\<lambda>l w. Some (False, l, w))) l w })"
    by (auto simp: at_step_def fun_eq_iff split: bind_split)
  moreover have "speaks T (if ok then rest else (\<lambda>l w. Some (False, l, w)))" for ok using assms(1) speaks_done by simp
  ultimately show ?thesis using speaks_sendAT [OF assms(2-4), of "\<lambda>ok. if ok then rest else (\<lambda>l w. Some (False, l, w))"] by simp
qed

lemma speaks_alive: "speaks (set init_texts) (init_alive a)"
proof (induction "3 - a" arbitrary: a)
  case 0
  then have "init_alive a = (\<lambda>l w. Some (False, l, w))"
    by (simp add: fun_eq_iff init_alive.simps [of a] LORA_INIT_RETRIES_def)
  then show ?case by (simp add: speaks_done)
next
  case (Suc n)
  let ?rest = "\<lambda>ok. if ok then (\<lambda>l w. Some (True, l, w)) else (\<lambda>l w. do { w \<leftarrow> hal_delay_ms 200 w; init_alive (Suc a) l w })"
  have "a < LORA_INIT_RETRIES" using Suc.hyps(2) by (simp add: LORA_INIT_RETRIES_def)
  then have eq: "init_alive a = (\<lambda>l w. do { (ok, l, w) \<leftarrow> sendAT (ascii ''AT'' @ [0]) LORA_AT_TIMEOUT_US l w; ?rest ok l w })"
    by (auto simp: fun_eq_iff init_alive.simps [of a] cstr_lit_def split: bind_split)
  have "n = 3 - Suc a" using Suc.hyps(2) by simp
  then have "speaks (set init_texts) (?rest ok)" for ok using speaks_delay [OF Suc.hyps(1)] speaks_done by simp
  from speaks_sendAT [OF _ _ _ this, of "ascii ''AT''"] show ?case unfolding eq by (simp add: init_texts_def)
qed

lemma speaks_init: "speaks (set init_texts) initModule"
proof -
  have T: "ascii ''AT+RESET'' \<in> set init_texts" "ascii ''AT+BAND=868000000'' \<in> set init_texts" "ascii ''AT+PARAMETER=9,7,1,12'' \<in> set init_texts"
    "ascii ''AT+ADDRESS=1'' \<in> set init_texts" "ascii ''AT+NETWORKID=6'' \<in> set init_texts" "ascii ''AT+CRFOP=14'' \<in> set init_texts"
    by (simp_all add: init_texts_def)
  have params: "speaks (set init_texts) init_params"
    unfolding init_params_def cstr_lit_def by (intro speaks_step speaks_done T) simp_all
  have tail: "speaks (set init_texts) (\<lambda>l w. do { w \<leftarrow> hal_delay_ms 500 w; cmd \<leftarrow> init_band_cmd; at_step cmd LORA_AT_TIMEOUT_US init_params l w })"
    unfolding init_band_cmd_text bind.bind_lunit by (intro speaks_delay speaks_step params T) simp_all
  let ?reset = "at_step (ascii ''AT+RESET'' @ [0]) 2000000
    (\<lambda>l w. do { w \<leftarrow> hal_delay_ms 500 w; cmd \<leftarrow> init_band_cmd; at_step cmd LORA_AT_TIMEOUT_US init_params l w })"
  have reset: "speaks (set init_texts) ?reset" by (intro speaks_step tail T) simp_all
  show ?thesis
    unfolding speaks_def
  proof (intro allI impI)
    fix l w
    assume w: "world_wf w" "live_clock (w_clock w)" and l: "lora_wf l"
    obtain ok l1 w1 bs where i: "init_alive 0 l w = Some (ok, l1, w1)" "at_keeps l l1" "wired HAL_UART0 bs w w1" "frames_of (set init_texts) bs"
      by (rule speaksD [OF speaks_alive w l])
    obtain ok2 l2 w2 cs where r: "?reset l1 w1 = Some (ok2, l2, w2)" "at_keeps l1 l2" "wired HAL_UART0 cs w1 w2" "frames_of (set init_texts) cs"
      by (rule speaksD [OF reset wired_wf [OF i(3)] wired_live [OF i(3) w(2)] at_keeps_wf [OF i(2)]])
    have eq: "initModule l w = (if ok then Some (ok2, l2, w2) else Some (False, l1, w1))"
      using i(1) r(1) by (simp add: initModule_def cstr_lit_def)
    show "\<exists>ok l' w' bs. initModule l w = Some (ok, l', w') \<and> at_keeps l l' \<and> wired HAL_UART0 bs w w' \<and> frames_of (set init_texts) bs"
      using eq i(2-4) at_keeps_trans [OF i(2) r(2)] wired_trans [OF i(3) r(3)] frames_append [OF i(4) r(4)] by (cases ok) auto
  qed
qed

subsection \<open>Every handler\<close>

definition tx_grows :: "bytes set \<Rightarrow> 'd firmware \<Rightarrow> 'd firmware \<Rightarrow> bool" where
  "tx_grows T s s' \<longleftrightarrow> (\<exists>bs. w_tx0 (hw s') = w_tx0 (hw s) @ bs \<and> frames_of T bs)"

lemma tx_grows_same: "w_tx0 (hw s') = w_tx0 (hw s) \<Longrightarrow> tx_grows T s s'"
  unfolding tx_grows_def by (intro exI [of _ "[]"]) simp

lemma tx_grows_trans: "tx_grows S s s1 \<Longrightarrow> tx_grows T s1 s2 \<Longrightarrow> tx_grows (S \<union> T) s s2"
  unfolding tx_grows_def using frames_append frames_mono [of S _ "S \<union> T"] frames_mono [of T _ "S \<union> T"]
  by (metis Un_upper1 Un_upper2 append.assoc)

lemma wired_grows:
  assumes "f (loraDriver s) (hw s) = Some (l, w)" "wired HAL_UART0 bs (hw s) w" "frames_of T bs" "with_lora f s = Some s'"
  shows "tx_grows T s s'"
  using assms by (auto simp: with_lora_def tx_grows_def wired_def tx_of_def)

lemma at_command_grows:
  assumes "with_lora f s = Some s'" "at_command op seq t (loraDriver s) (hw s) (f (loraDriver s) (hw s))" "t \<in> T"
  shows "tx_grows T s s'"
  using assms(2) wired_grows [OF _ _ frames_take [OF assms(3)] assms(1)] unfolding at_command_def by blast

lemma idle_grows: "with_lora f s = Some s' \<Longrightarrow> f (loraDriver s) (hw s) = Some (l, hw s) \<Longrightarrow> tx_grows T s s'"
  by (auto simp: with_lora_def intro: tx_grows_same)

lemma later_tx: "later w w' \<Longrightarrow> w_tx0 w' = w_tx0 w"
  by (simp add: later_def)

lemma init_grows:
  assumes "fw_inv s"
  shows "with_lora preamble s = Some s' \<Longrightarrow> tx_grows (set init_texts) s s'"
    and "with_lora (LORA_RESET_cmdHandler op seq) s = Some s' \<Longrightarrow> tx_grows (set init_texts) s s'"
proof -
  note inv = fw_invD [OF assms]
  obtain ok l' w' bs where r: "initModule (loraDriver s) (hw s) = Some (ok, l', w')" "wired HAL_UART0 bs (hw s) w'" "frames_of (set init_texts) bs"
    by (rule speaksD [OF speaks_init inv(1-3)])
  show "with_lora preamble s = Some s' \<Longrightarrow> tx_grows (set init_texts) s s'"
    by (rule wired_grows [OF _ r(2,3)]) (simp_all add: preamble_eq r(1))
  show "with_lora (LORA_RESET_cmdHandler op seq) s = Some s' \<Longrightarrow> tx_grows (set init_texts) s s'"
    by (rule wired_grows [OF _ r(2,3)]) (simp_all add: LORA_RESET_eq r(1))
qed

lemma config_grows:
  assumes "fw_inv s"
  shows "with_lora (LORA_SET_FREQ_cmdHandler op seq f) s = Some s' \<Longrightarrow> tx_grows (set (call_texts (LoraSetFreq op seq f))) s s'"
    and "with_lora (LORA_SET_SF_cmdHandler op seq sf) s = Some s' \<Longrightarrow> tx_grows (set (call_texts (LoraSetSf op seq sf))) s s'"
    and "with_lora (LORA_SET_POWER_cmdHandler op seq p) s = Some s' \<Longrightarrow> tx_grows (set (call_texts (LoraSetPower op seq p))) s s'"
proof -
  note config = config_commands_return [OF fw_invD(1-3) [OF assms], of op seq f sf p]
  show "tx_grows (set (call_texts (LoraSetFreq op seq f))) s s'" if "with_lora (LORA_SET_FREQ_cmdHandler op seq f) s = Some s'"
    by (rule at_command_grows [OF that config [THEN conjunct1]]) (simp add: call_texts_def)
  show "tx_grows (set (call_texts (LoraSetSf op seq sf))) s s'" if "with_lora (LORA_SET_SF_cmdHandler op seq sf) s = Some s'"
  proof (cases "7 \<le> sf \<and> sf \<le> 12")
    case True
    show ?thesis
      by (rule at_command_grows [OF that config [THEN conjunct2, THEN conjunct1, unfolded if_P [OF True]]]) (simp add: call_texts_def)
  next
    case False
    show ?thesis by (rule idle_grows [OF that config [THEN conjunct2, THEN conjunct1, unfolded if_not_P [OF False]]])
  qed
  show "tx_grows (set (call_texts (LoraSetPower op seq p))) s s'" if "with_lora (LORA_SET_POWER_cmdHandler op seq p) s = Some s'"
  proof (cases "p \<le> 22")
    case True
    show ?thesis
      by (rule at_command_grows [OF that config [THEN conjunct2, THEN conjunct2, unfolded if_P [OF True]]]) (simp add: call_texts_def)
  next
    case False
    show ?thesis by (rule idle_grows [OF that config [THEN conjunct2, THEN conjunct2, unfolded if_not_P [OF False]]])
  qed
qed

lemma dataIn_grows:
  assumes "fw_inv s" "with_lora (dataIn_handler payload) s = Some s'"
  shows "tx_grows (set (call_texts (LoraDataIn payload))) s s'"
proof -
  let ?t = "ascii ''AT+SEND=0,'' @ nat_text (length payload) @ 44 # payload"
  have f: "at_frame ?t = ascii ''AT+SEND=0,'' @ nat_text (length payload) @ 44 # payload @ [13, 10]" by (simp add: at_frame_def)
  obtain l' w' k where r: "dataIn_handler payload (loraDriver s) (hw s) = Some (l', w')" "w' = hw s \<or> wired HAL_UART0 (take k (at_frame ?t)) (hw s) w'"
    using dataIn_returns [OF fw_invD(1-3) [OF assms(1)], of payload] unfolding f [symmetric] Let_def by (auto split: if_splits)
  have "frames_of {?t} (take k (at_frame ?t))" by (rule frames_take) simp
  with r wired_grows [OF r(1) _ _ assms(2)] idle_grows [OF assms(2)] show ?thesis unfolding call_texts_def by auto
qed

lemma gps_grows:
  assumes "fw_inv s"
  shows "with_gps gps_schedIn_handler s = Some s' \<Longrightarrow> tx_grows T s s'"
    and "with_gps (GPS_RESET_cmdHandler op seq) s = Some s' \<Longrightarrow> tx_grows T s s'"
proof -
  note inv = fw_invD [OF assms]
  obtain bs w' where d: "drain (hal_poll HAL_UART1) gps_byte 256 (gpsReceiver s) (hw s) = map_option (\<lambda>g. (g, w')) (foldM gps_byte bs (gpsReceiver s))"
    "later (hw s) w'"
    using uart1.drain_feeds [where ?'s = gps, OF inv(1), of 256] by blast
  then show "with_gps gps_schedIn_handler s = Some s' \<Longrightarrow> tx_grows T s s'"
    by (intro tx_grows_same) (cases "foldM gps_byte bs (gpsReceiver s)"; auto simp: with_gps_def gps_schedIn_drain [OF inv(1)] later_tx split: if_splits)
  obtain w1 where "hal_uart_rx_flush HAL_UART1 (hw s) = Some w1" "later (hw s) w1"
    using hal_uart_rx_flush_spec [OF inv(1)] by blast
  then show "with_gps (GPS_RESET_cmdHandler op seq) s = Some s' \<Longrightarrow> tx_grows T s s'"
    by (intro tx_grows_same) (auto simp: with_gps_def GPS_RESET_cmdHandler_def later_tx)
qed

lemma fw_handle_grows:
  assumes "fw_inv s" "fw_call_ok c" "fw_handle sdk c s = Some s'"
  shows "tx_grows (set (call_texts c)) s s'"
proof (cases c)
  case LoraSched
  note inv = fw_invD [OF assms(1)]
  obtain l' w' where "lora_schedIn_handler (loraDriver s) (hw s) = Some (l', w')" "later (hw s) w'"
    using lora_schedIn_returns [OF inv(1,3)] by blast
  with LoraSched assms(3) show ?thesis by (auto simp: fw_handle_def with_lora_def later_tx intro: tx_grows_same)
next
  case (LoraSendAt op seq cmd)
  then have run: "with_lora (LORA_SEND_AT_cmdHandler op seq (cmd @ [0])) s = Some s'" and cmd: "0 \<notin> set cmd" "length cmd \<le> 126"
    using assms(2,3) by (simp_all add: fw_handle_def fw_call_ok_def)
  have "at_command op seq cmd (loraDriver s) (hw s) (LORA_SEND_AT_cmdHandler op seq (cmd @ [0]) (loraDriver s) (hw s))"
    using at_command_sendAT [OF fw_invD(1-3) [OF assms(1)] cmd, of op seq] by (simp add: LORA_SEND_AT_cmdHandler_def)
  from at_command_grows [OF run this] LoraSendAt show ?thesis by (simp add: call_texts_def)
next
  case (BatteryCall bc)
  with assms(3) show ?thesis by (auto simp: fw_handle_def Option.bind_eq_Some_conv intro: tx_grows_same)
qed (use assms(1,3) init_grows config_grows dataIn_grows gps_grows in
    \<open>auto simp: fw_handle_def call_texts_def [of LoraPreamble] call_texts_def [of "LoraReset x y" for x y] intro: tx_grows_same\<close>)

subsection \<open>Every run\<close>

lemma fw_handles_grow:
  assumes "fw_inv s" "\<forall>c \<in> set calls. fw_call_ok c" "foldM (fw_handle sdk) calls s = Some s'"
  shows "fw_inv s' \<and> tx_grows (set (concat (map call_texts calls))) s s'"
  using assms
proof (induction calls arbitrary: s)
  case Nil
  then show ?case by (simp add: tx_grows_same)
next
  case (Cons c calls)
  then obtain s1 where s1: "fw_handle sdk c s = Some s1" "foldM (fw_handle sdk) calls s1 = Some s'"
    by (auto simp: Option.bind_eq_Some_conv)
  have ok: "fw_call_ok c" "\<forall>c \<in> set calls. fw_call_ok c" using Cons.prems(2) by simp_all
  have idle: "gps_schedIn_handler (gpsReceiver s) (hw s) \<noteq> None" if "c = GpsSched"
    using s1(1) that by (cases "gps_schedIn_handler (gpsReceiver s) (hw s)") (auto simp: fw_handle_def with_gps_def)
  have "fw_inv s1" using fw_handle_safe [OF Cons.prems(1) ok(1), of sdk] s1(1) idle by (auto simp: fw_keeps_def)
  from Cons.IH [OF this ok(2) s1(2)] tx_grows_trans [OF fw_handle_grows [OF Cons.prems(1) ok(1) s1(1)]] show ?case by simp
qed

text \<open>All commands the calls of a run may send.\<close>

definition run_texts :: "fw_call list \<Rightarrow> bytes set" where
  "run_texts calls = set (concat (map call_texts calls))"

lemma in_run_texts: "t \<in> run_texts calls \<longleftrightarrow> (\<exists>c \<in> set calls. t \<in> set (call_texts c))"
  by (simp add: run_texts_def)

lemma run_texts_mono: "set cs \<subseteq> set calls \<Longrightarrow> run_texts cs \<subseteq> run_texts calls"
  unfolding subset_iff in_run_texts by blast

lemma fw_main_frames:
  assumes "fw_main sdk setup ticks acts (fw_reset w d) = Some m"
    and "live_clock (w_clock w)" "\<forall>c \<in> set (setup @ concat ticks). fw_call_ok c"
  shows "frames_of (run_texts (setup @ concat ticks)) (w_tx0 (hw (fst (main_app m))))"
proof -
  let ?J = "\<lambda>n s. fw_inv s \<and> frames_of (run_texts (setup @ concat ticks)) (w_tx0 (hw s))"
  have list: "?J n' s'" if "fw_inv s" "frames_of (run_texts (setup @ concat ticks)) (w_tx0 (hw s))" "set cs \<subseteq> set (setup @ concat ticks)"
    "foldM (fw_handle sdk) cs s = Some s'" for s s' cs n'
  proof -
    have "\<forall>c \<in> set cs. fw_call_ok c" using assms(3) that(3) by blast
    from fw_handles_grow [OF that(1) this that(4)] have "fw_inv s'" "tx_grows (run_texts cs) s s'" by (simp_all add: run_texts_def)
    then show ?thesis
      using frames_append [OF that(2)] frames_mono [OF _ run_texts_mono [OF that(3)]] unfolding tx_grows_def by metis
  qed
  have "?J (ticks_done m) (fst (main_app m))"
  proof (rule fw_main_run [where J = ?J, OF assms(1)], goal_cases)
    case (1 s)
    have "w_tx0 (hw (hw_init sdk (fw_reset w d))) = []"
      by (simp add: hw_init_def fw_reset_def hal_uart0_init_def hal_uart1_init_def uart0_init_hw_def uart1_init_hw_def
          hal_watchdog_enable_def sdk_do_def Let_def split: prod.splits)
    then show ?case using list [OF hw_init_boot [OF assms(2), THEN conjunct1] _ _ 1] by simp
  next
    case (2 n s c)
    then show ?case by (simp add: fw_inv_def sdk_do_def world_wf_def)
  next
    case (3 n s s')
    have "set (ticks ! n) \<subseteq> set (setup @ concat ticks)" using nth_mem [OF 3(2)] by auto
    with 3 list show ?case by blast
  qed simp_all
  then show ?thesis ..
qed

subsection \<open>\<open>AT+SEND\<close>\<close>

text \<open>
  The commands of all handlers but \<open>dataIn\<close> and \<open>LORA_SEND_AT\<close> have no plus sign before an \<open>S\<close>, and all start with an \<open>A\<close>; so no
  sequence of their frames, whole or cut short, contains \<open>+SEND\<close>.
\<close>

abbreviation no_plus_S :: "bytes \<Rightarrow> bool" where
  "no_plus_S \<equiv> successively (\<lambda>a b. \<not> (a = 43 \<and> b = 83))"

lemma no_plus: "43 \<notin> set xs \<Longrightarrow> no_plus_S xs"
  by (induction xs rule: induct_list012) auto

lemma no_plus_concat:
  "\<forall>f \<in> set fs. no_plus_S f \<and> (f \<noteq> [] \<longrightarrow> hd f = 65) \<Longrightarrow> no_plus_S (concat fs) \<and> (concat fs \<noteq> [] \<longrightarrow> hd (concat fs) = 65)"
  by (induction fs) (auto simp: successively_append_iff hd_append)

lemma nat_text_no_plus: "43 \<notin> set (nat_text n)"
  using nat_text_digits [of n] by (auto simp: is_digit_def)

lemma frame_no_plus: "43 \<notin> set ys \<Longrightarrow> no_plus_S xs \<Longrightarrow> (xs \<noteq> [] \<longrightarrow> last xs \<noteq> 43) \<Longrightarrow> no_plus_S (at_frame (xs @ ys))"
  using no_plus [of "ys @ [13, 10]"] by (auto simp: at_frame_def successively_append_iff)

lemma prefix_no_plus: "prefix f xs \<Longrightarrow> no_plus_S xs \<and> hd xs = 65 \<Longrightarrow> no_plus_S f \<and> (f \<noteq> [] \<longrightarrow> hd f = 65)"
  by (auto simp: prefix_def successively_append_iff)

lemma call_text_no_plus:
  assumes "t \<in> set (call_texts c)" "\<forall>payload. c \<noteq> LoraDataIn payload" "\<forall>op seq s. c \<noteq> LoraSendAt op seq s"
  shows "no_plus_S (at_frame t) \<and> hd (at_frame t) = 65"
proof (cases c)
  case (LoraSetFreq op seq f)
  with assms(1) have "t = ascii ''AT+BAND='' @ nat_text (unat (f * 1000))" by (simp add: call_texts_def)
  then show ?thesis using frame_no_plus [OF nat_text_no_plus, of "ascii ''AT+BAND=''"] by (simp add: at_frame_def)
next
  case (LoraSetPower op seq p)
  with assms(1) have "t = ascii ''AT+CRFOP='' @ nat_text (unat p)" by (simp add: call_texts_def)
  then show ?thesis using frame_no_plus [OF nat_text_no_plus, of "ascii ''AT+CRFOP=''"] by (simp add: at_frame_def)
qed (use assms in \<open>auto simp: call_texts_def init_texts_def at_frame_def\<close>)

lemma frames_no_send:
  assumes "frames_of (run_texts calls) bs" "\<forall>c \<in> set calls. (\<forall>payload. c \<noteq> LoraDataIn payload) \<and> (\<forall>op seq s. c \<noteq> LoraSendAt op seq s)"
  shows "\<not> sublist (ascii ''AT+SEND='') bs"
proof
  assume s: "sublist (ascii ''AT+SEND='') bs"
  obtain fs where fs: "bs = concat fs" "\<forall>f \<in> set fs. \<exists>t \<in> run_texts calls. prefix f (at_frame t)"
    using assms(1) unfolding frames_of_def by blast
  have "no_plus_S f \<and> (f \<noteq> [] \<longrightarrow> hd f = 65)" if f: "f \<in> set fs" for f
  proof -
    obtain t where t: "t \<in> run_texts calls" "prefix f (at_frame t)" using bspec [OF fs(2) f] by (elim bexE)
    obtain c where c: "c \<in> set calls" "t \<in> set (call_texts c)" using t(1) [unfolded in_run_texts] by (elim bexE)
    have "no_plus_S (at_frame t) \<and> hd (at_frame t) = 65"
      by (rule call_text_no_plus [OF c(2) bspec [OF assms(2) c(1), THEN conjunct1] bspec [OF assms(2) c(1), THEN conjunct2]])
    from prefix_no_plus [OF t(2) this] show ?thesis .
  qed
  then have "no_plus_S bs" unfolding fs(1) using no_plus_concat by blast
  with s show False by (auto simp: sublist_def successively_append_iff)
qed

end
