(* ===== verification/Deployment.thy ===== *)
theory Deployment
  imports Config Downlink OsQueue OsTask "HOL-Library.Multiset"
begin

text \<open>
  The deployed topology: which handlers the connections of \<open>Top/PipiCubeTopology.fpp\<close> can cause at all, what a run
  on the documented rate schedule samples and reports, and whether the operating-system layer of \<open>Os/Baremetal\<close> can host
  the eight active instances.
\<close>

subsection \<open>Set-up and tear-down, \<open>Top/PipiCubeTopology.cpp\<close>\<close>

text \<open>
  The code that the F' tools generate for the topology, and the \<open>configure\<close> functions of the framework, are
  parameters; a failed assertion in them is \<open>None\<close>. \<open>TopologyState\<close> is empty.
\<close>

record 's topology_code =
  initComponents :: "'s \<Rightarrow> 's option"
  setBaseIds :: "'s \<Rightarrow> 's option"
  connectComponents :: "'s \<Rightarrow> 's option"
  regCommands :: "'s \<Rightarrow> 's option"
  rateGroupDriver_configure :: "(nat \<times> nat) list \<Rightarrow> 's \<Rightarrow> 's option"
  rateGroup4Hz_configure :: "u32 list \<Rightarrow> nat \<Rightarrow> 's \<Rightarrow> 's option"
  rateGroup1Hz_configure :: "u32 list \<Rightarrow> nat \<Rightarrow> 's \<Rightarrow> 's option"
  startTasks :: "'s \<Rightarrow> 's option"
  stopTasks :: "'s \<Rightarrow> 's option"
  freeThreads :: "'s \<Rightarrow> 's option"
  CONNECTION_COUNT_MAX :: nat

definition s_contexts4Hz :: "'s topology_code \<Rightarrow> u32 list" where
  "s_contexts4Hz g = replicate (CONNECTION_COUNT_MAX g) 0"

definition s_contexts1Hz :: "'s topology_code \<Rightarrow> u32 list" where
  "s_contexts1Hz g = replicate (CONNECTION_COUNT_MAX g) 0"

definition setupTopology :: "'s topology_code \<Rightarrow> 's \<Rightarrow> 's option" where
  "setupTopology g s = do {
     s \<leftarrow> initComponents g s;
     s \<leftarrow> setBaseIds g s;
     s \<leftarrow> connectComponents g s;
     s \<leftarrow> regCommands g s;
     s \<leftarrow> rateGroupDriver_configure g s_rateDivs s;
     s \<leftarrow> rateGroup4Hz_configure g (s_contexts4Hz g) (length (s_contexts4Hz g)) s;
     s \<leftarrow> rateGroup1Hz_configure g (s_contexts1Hz g) (length (s_contexts1Hz g)) s;
     startTasks g s }"

definition teardownTopology :: "'s topology_code \<Rightarrow> 's \<Rightarrow> 's option" where
  "teardownTopology g s = do { s \<leftarrow> stopTasks g s; freeThreads g s }"

text \<open>
  The documented order of the framework's start-up: components are initialised first, connected before commands are
  registered, and base ids, connections, commands and rate groups are in place before the tasks run; tasks are stopped before their
  threads are freed. \<open>facts s\<close> is what has been done so far.
\<close>

datatype setup_fact =
    Initialised | BaseIdsSet | Connected | Registered | DriverConfigured "(nat \<times> nat) list"
  | Group4HzConfigured "u32 list" | Group1HzConfigured "u32 list" | TasksStarted | TasksStopped | ThreadsFreed

definition does :: "('s \<Rightarrow> setup_fact set) \<Rightarrow> setup_fact set \<Rightarrow> setup_fact \<Rightarrow> ('s \<Rightarrow> 's option) \<Rightarrow> bool" where
  "does facts required new f \<longleftrightarrow> (\<forall>s. required \<subseteq> facts s \<longrightarrow> (\<exists>s'. f s = Some s' \<and> facts s' = insert new (facts s)))"

definition setup_order :: "('s \<Rightarrow> setup_fact set) \<Rightarrow> 's topology_code \<Rightarrow> bool" where
  "setup_order facts g \<longleftrightarrow>
     does facts {} Initialised (initComponents g)
     \<and> does facts {Initialised} BaseIdsSet (setBaseIds g)
     \<and> does facts {Initialised} Connected (connectComponents g)
     \<and> does facts {Initialised, Connected} Registered (regCommands g)
     \<and> (\<forall>divs. does facts {Initialised} (DriverConfigured divs) (rateGroupDriver_configure g divs))
     \<and> (\<forall>cs. length cs \<le> CONNECTION_COUNT_MAX g \<longrightarrow>
          does facts {Initialised} (Group4HzConfigured cs) (rateGroup4Hz_configure g cs (length cs))
          \<and> does facts {Initialised} (Group1HzConfigured cs) (rateGroup1Hz_configure g cs (length cs)))
     \<and> does facts ({Initialised, BaseIdsSet, Connected, Registered, DriverConfigured s_rateDivs}
          \<union> {Group4HzConfigured (s_contexts4Hz g), Group1HzConfigured (s_contexts1Hz g)}) TasksStarted (startTasks g)
     \<and> does facts {TasksStarted} TasksStopped (stopTasks g)
     \<and> does facts {TasksStopped} ThreadsFreed (freeThreads g)"

lemma does_last:
  assumes "does facts required new f" "required \<subseteq> facts s" "insert new (facts s) = done_facts"
  shows "\<exists>s1. f s = Some s1 \<and> facts s1 = done_facts"
  using assms by (auto simp: does_def)

lemma does_bind:
  assumes "does facts required new f" "required \<subseteq> facts s"
    and "\<And>s'. facts s' = insert new (facts s) \<Longrightarrow> \<exists>s1. k s' = Some s1 \<and> facts s1 = done_facts"
  shows "\<exists>s1. f s \<bind> k = Some s1 \<and> facts s1 = done_facts"
  using does_last [OF assms(1,2) refl] assms(3) by auto

text \<open>
  Set-up and tear-down call the generated code in an order it accepts: with functions that require what they depend
  on to be done before, \<open>setupTopology\<close> goes through from the initial state and ends with everything done, the
  driver configured with the dividers and both rate groups with a zero context for every member, and
  \<open>teardownTopology\<close> then stops the tasks and frees their threads.
\<close>

theorem topology_lifecycle:
  assumes "setup_order facts g" "facts s = {}"
  shows "\<exists>s1 s2. setupTopology g s = Some s1 \<and> teardownTopology g s1 = Some s2
    \<and> facts s1 = {Initialised, BaseIdsSet, Connected, Registered, DriverConfigured [(1, 0), (4, 0)],
        Group4HzConfigured (replicate (CONNECTION_COUNT_MAX g) 0), Group1HzConfigured (replicate (CONNECTION_COUNT_MAX g) 0), TasksStarted}
    \<and> facts s2 = facts s1 \<union> {TasksStopped, ThreadsFreed}"
proof -
  have len: "length (s_contexts4Hz g) \<le> CONNECTION_COUNT_MAX g" "length (s_contexts1Hz g) \<le> CONNECTION_COUNT_MAX g"
    by (simp_all add: s_contexts4Hz_def s_contexts1Hz_def)
  have order: "does facts {} Initialised (initComponents g)" "does facts {Initialised} BaseIdsSet (setBaseIds g)"
    "does facts {Initialised} Connected (connectComponents g)" "does facts {Initialised, Connected} Registered (regCommands g)"
    "does facts {Initialised} (DriverConfigured s_rateDivs) (rateGroupDriver_configure g s_rateDivs)"
    "does facts {Initialised} (Group4HzConfigured (s_contexts4Hz g)) (rateGroup4Hz_configure g (s_contexts4Hz g) (length (s_contexts4Hz g)))"
    "does facts {Initialised} (Group1HzConfigured (s_contexts1Hz g)) (rateGroup1Hz_configure g (s_contexts1Hz g) (length (s_contexts1Hz g)))"
    "does facts ({Initialised, BaseIdsSet, Connected, Registered, DriverConfigured s_rateDivs}
          \<union> {Group4HzConfigured (s_contexts4Hz g), Group1HzConfigured (s_contexts1Hz g)}) TasksStarted (startTasks g)"
    "does facts {TasksStarted} TasksStopped (stopTasks g)" "does facts {TasksStopped} ThreadsFreed (freeThreads g)"
    using assms(1) len unfolding setup_order_def by blast+
  have "\<exists>s1. setupTopology g s = Some s1 \<and> facts s1 = {Initialised, BaseIdsSet, Connected, Registered, DriverConfigured s_rateDivs,
      Group4HzConfigured (s_contexts4Hz g), Group1HzConfigured (s_contexts1Hz g), TasksStarted}"
    unfolding setupTopology_def
    by (rule does_bind [OF order(1)], simp, rule does_bind [OF order(2)], simp, rule does_bind [OF order(3)], simp,
      rule does_bind [OF order(4)], simp, rule does_bind [OF order(5)], simp, rule does_bind [OF order(6)], simp,
      rule does_bind [OF order(7)], simp, rule does_last [OF order(8)]) (auto simp: assms(2))
  then obtain s1 where s1: "setupTopology g s = Some s1" "facts s1 = {Initialised, BaseIdsSet, Connected, Registered,
      DriverConfigured s_rateDivs, Group4HzConfigured (s_contexts4Hz g), Group1HzConfigured (s_contexts1Hz g), TasksStarted}" by blast
  have "\<exists>s2. teardownTopology g s1 = Some s2 \<and> facts s2 = facts s1 \<union> {TasksStopped, ThreadsFreed}"
    unfolding teardownTopology_def
    by (rule does_bind [OF order(9)], simp add: s1(2), rule does_last [OF order(10)]) (auto simp: s1(2))
  with s1 show ?thesis by (auto simp: s_rateDivs_def s_contexts4Hz_def s_contexts1Hz_def)
qed

definition demo_topology :: "(setup_fact set) topology_code" where
  "demo_topology = (let do_it = (\<lambda>required new s. if required \<subseteq> s then Some (insert new s) else None) in
     \<lparr>initComponents = do_it {} Initialised, setBaseIds = do_it {Initialised} BaseIdsSet,
      connectComponents = do_it {Initialised} Connected, regCommands = do_it {Initialised, Connected} Registered,
      rateGroupDriver_configure = (\<lambda>divs. do_it {Initialised} (DriverConfigured divs)),
      rateGroup4Hz_configure = (\<lambda>cs n. do_it {Initialised} (Group4HzConfigured cs)),
      rateGroup1Hz_configure = (\<lambda>cs n. do_it {Initialised} (Group1HzConfigured cs)),
      startTasks = do_it {Initialised, BaseIdsSet, Connected, Registered, DriverConfigured [(1, 0), (4, 0)],
        Group4HzConfigured [0, 0], Group1HzConfigured [0, 0]} TasksStarted,
      stopTasks = do_it {TasksStarted} TasksStopped, freeThreads = do_it {TasksStopped} ThreadsFreed,
      CONNECTION_COUNT_MAX = 2\<rparr>)"

lemma topology_lifecycle_witness:
  "\<exists>s1. setupTopology demo_topology {} = Some s1 \<and> TasksStarted \<in> s1 \<and> Group1HzConfigured [0, 0] \<in> s1"
proof -
  have "setup_order (\<lambda>s. s) demo_topology"
    by (simp add: setup_order_def does_def demo_topology_def Let_def s_rateDivs_def s_contexts4Hz_def s_contexts1Hz_def numeral_2_eq_2)
  from topology_lifecycle [OF this] show ?thesis by (auto simp: demo_topology_def Let_def numeral_2_eq_2)
qed

subsection \<open>Connections\<close>

text \<open>A port of an instance; \<open>nat\<close> is the index in an array of ports.\<close>

datatype port_name = CycleOut | CycleIn | RateGroupMemberOut | SchedIn | Run | DataIn | CmdIn

type_synonym topo_port = "instance_name \<times> port_name \<times> nat"

definition topology_connections :: "(topo_port \<times> topo_port) list" where
  "topology_connections =
     [((BaremetalTimerI, CycleOut, 0), (RateGroupDriverI, CycleIn, 0)),
      ((RateGroupDriverI, CycleOut, 0), (RateGroup4HzI, CycleIn, 0)),
      ((RateGroupDriverI, CycleOut, 1), (RateGroup1HzI, CycleIn, 0)),
      ((RateGroup1HzI, RateGroupMemberOut, 0), (BatteryMonitorI, SchedIn, 0)),
      ((RateGroup1HzI, RateGroupMemberOut, 1), (GpsReceiverI, SchedIn, 0)),
      ((RateGroup1HzI, RateGroupMemberOut, 2), (TlmChanI, Run, 0)),
      ((RateGroup1HzI, RateGroupMemberOut, 3), (CmdDispI, Run, 0)),
      ((RateGroup4HzI, RateGroupMemberOut, 0), (LoraDriverI, SchedIn, 0))]"

text \<open>
  The pattern \<open>command connections\<close> connects the dispatcher to the command port of every instance that has one: the three
  components of the repository, and those of the framework's instances whose component declares commands (\<open>has_commands\<close>, a parameter,
  since their components are not in the repository).
\<close>

definition command_targets :: "(instance_name \<Rightarrow> bool) \<Rightarrow> topo_port list" where
  "command_targets has_commands =
     map (\<lambda>i. (i, CmdIn, 0)) (filter (\<lambda>i. i \<in> {BatteryMonitorI, GpsReceiverI, LoraDriverI} \<or> has_commands i) (map fst topology_instances))"

text \<open>The port at which a handler is called. \<open>preamble\<close> is called by the component's task at its start, not through a port.\<close>

definition call_port :: "fw_call \<Rightarrow> topo_port option" where
  "call_port c =
     (case c of
        BatteryCall BatSched \<Rightarrow> Some (BatteryMonitorI, SchedIn, 0)
      | BatteryCall _ \<Rightarrow> Some (BatteryMonitorI, CmdIn, 0)
      | GpsSched \<Rightarrow> Some (GpsReceiverI, SchedIn, 0)
      | GpsReset _ _ \<Rightarrow> Some (GpsReceiverI, CmdIn, 0)
      | GpsSetEnabled _ _ _ \<Rightarrow> Some (GpsReceiverI, CmdIn, 0)
      | LoraPreamble \<Rightarrow> None
      | LoraSched \<Rightarrow> Some (LoraDriverI, SchedIn, 0)
      | LoraDataIn _ \<Rightarrow> Some (LoraDriverI, DataIn, 0)
      | _ \<Rightarrow> Some (LoraDriverI, CmdIn, 0))"

definition port_reachable :: "(instance_name \<Rightarrow> bool) \<Rightarrow> topo_port \<Rightarrow> bool" where
  "port_reachable has_commands p \<longleftrightarrow> p \<in> set (map snd topology_connections) \<or> p \<in> set (command_targets has_commands)"

text \<open>The calls the framework can make in this topology.\<close>

definition topology_call :: "(instance_name \<Rightarrow> bool) \<Rightarrow> fw_call \<Rightarrow> bool" where
  "topology_call has_commands c \<longleftrightarrow> (case call_port c of None \<Rightarrow> True | Some p \<Rightarrow> port_reachable has_commands p)"

lemma topology_call_iff: "topology_call has_commands c \<longleftrightarrow> (\<forall>payload. c \<noteq> LoraDataIn payload)"
  by (cases c) (auto simp: topology_call_def call_port_def port_reachable_def topology_connections_def command_targets_def
      topology_instances_def split: bat_call.split)

subsection \<open>Nothing is transmitted\<close>

lemma fw_handles_quiet:
  assumes "\<forall>c \<in> set calls. topology_call has_commands c" "foldM (fw_handle sdk) calls s = Some s'"
  shows "lora_tells (loraDriver s) (loraDriver s')"
  using assms
proof (induction calls arbitrary: s)
  case Nil
  then show ?case by simp
next
  case (Cons c calls)
  then obtain s1 where s1: "fw_handle sdk c s = Some s1" "foldM (fw_handle sdk) calls s1 = Some s'"
    by (auto simp: Option.bind_eq_Some_conv)
  have "lora_tells (loraDriver s) (loraDriver s1)"
    using Cons.prems(1) s1(1) by (intro postD [OF fw_handle_quiet]) (auto simp: topology_call_iff)
  with Cons.IH [OF _ s1(2)] Cons.prems(1) show ?case by (auto intro: rtranclp_trans)
qed

lemma tells_transmissions: "quiet_says\<^sup>*\<^sup>* v v' \<Longrightarrow> transmissions v' = transmissions v"
  by (induction rule: rtranclp_induct) (auto simp: quiet_says_def)

lemma no_transmissions:
  assumes "transmissions v = []" "lora_counted v" "v = (st, tx, err, rx, out)"
  shows "tx = 0 \<and> err = 0"
proof -
  have "tx_values out = [] \<and> tx_error_values out = []"
    using assms(1) unfolding assms(3) by (induction out) (auto simp: transmissions_def split: lora_output.splits if_splits)
  with assms(2) show ?thesis unfolding assms(3) by (simp add: lora_counted_def counts_def)
qed

lemma topology_frames:
  assumes "fw_main sdk setup ticks acts (fw_reset w d) = Some m"
    and "\<forall>c \<in> set setup \<union> set (concat ticks). topology_call has_commands c"
    and "live_clock (w_clock w)" "\<forall>c \<in> set setup \<union> set (concat ticks). fw_call_ok c"
  shows "frames_of (run_texts (setup @ concat ticks)) (w_tx0 (hw (fst (main_app m))))
    \<and> ((\<forall>opCode cmdSeq cmd. LoraSendAt opCode cmdSeq cmd \<notin> set setup \<union> set (concat ticks)) \<longrightarrow>
        \<not> sublist (ascii ''AT+SEND='') (w_tx0 (hw (fst (main_app m)))))"
proof -
  have ok: "\<forall>c \<in> set (setup @ concat ticks). fw_call_ok c" using assms(4) by simp
  note frames = fw_main_frames [OF assms(1,3) ok]
  have none: "\<forall>c \<in> set (setup @ concat ticks). \<forall>payload. c \<noteq> LoraDataIn payload" using assms(2) unfolding topology_call_iff by simp
  have "\<not> sublist (ascii ''AT+SEND='') (w_tx0 (hw (fst (main_app m))))"
    if "\<forall>opCode cmdSeq cmd. LoraSendAt opCode cmdSeq cmd \<notin> set setup \<union> set (concat ticks)"
  proof (rule frames_no_send [OF frames], rule ballI, rule conjI)
    fix c
    assume c: "c \<in> set (setup @ concat ticks)"
    show "\<forall>payload. c \<noteq> LoraDataIn payload" using none c by (rule bspec)
    show "\<forall>op seq s. c \<noteq> LoraSendAt op seq s" using that c by auto
  qed
  with frames show ?thesis by blast
qed

text \<open>
  C10: The driver's downlink is not connected: no connection of the topology leads to \<open>LoRaDriver::dataIn\<close>, whatever instances of the
  framework take commands. So in every run of \<open>main\<close> whose handlers the topology can cause, no transmission is ever reported
  and the counts of sent and failed packets stay zero, whatever the ground commands and the hardware do. On the wire to the module go only frames, whole
  or cut short by a time-out, of the AT commands of initialisation and of the ground's LoRa commands; \<open>AT+SEND=\<close>
  is not among them unless the ground itself spells it out in a \<open>LORA_SEND_AT\<close> command, whose text is passed on
  as it is.
\<close>

theorem nothing_downlinked:
  assumes "fw_main sdk setup ticks acts (fw_reset w d) = Some m"
    and "\<forall>c \<in> set setup \<union> set (concat ticks). topology_call has_commands c"
  shows "let s = fst (main_app m); l = loraDriver s in
    m_txCount l = 0 \<and> m_txErrors l = 0 \<and> transmissions (lora_view l) = []
    \<and> (live_clock (w_clock w) \<and> (\<forall>c \<in> set setup \<union> set (concat ticks). fw_call_ok c) \<longrightarrow>
        frames_of (run_texts (setup @ concat ticks)) (w_tx0 (hw s))
        \<and> ((\<forall>opCode cmdSeq cmd. LoraSendAt opCode cmdSeq cmd \<notin> set setup \<union> set (concat ticks)) \<longrightarrow>
            \<not> sublist (ascii ''AT+SEND='') (w_tx0 (hw s))))"
proof -
  have "quiet_says\<^sup>*\<^sup>* (lora_view lora_init) (lora_view (loraDriver (fst (main_app m))))"
  proof (rule fw_main_run [where J = "\<lambda>n s. lora_tells lora_init (loraDriver s)", OF assms(1)], goal_cases)
    case (1 s)
    have "loraDriver (hw_init sdk (fw_reset w d)) = lora_init"
      by (simp add: hw_init_def fw_reset_def Let_def split: prod.splits)
    moreover have "\<forall>c \<in> set setup. topology_call has_commands c" using assms(2) by simp
    from fw_handles_quiet [OF this 1] have "lora_tells (loraDriver (hw_init sdk (fw_reset w d))) (loraDriver s)" .
    ultimately show ?case by simp
  next
    case (3 n s s')
    have "\<forall>c \<in> set (ticks ! n). topology_call has_commands c" using 3(2) assms(2) by (auto dest: nth_mem)
    from rtranclp_trans [OF 3(1) fw_handles_quiet [OF this 3(3)]] show ?case .
  qed simp_all
  then have none: "transmissions (lora_view (loraDriver (fst (main_app m)))) = []"
    by (auto dest: tells_transmissions simp: lora_view_def lora_init_def transmissions_def)
  have "lora_counted (lora_view (loraDriver (fst (main_app m))))" using fw_main_counted [OF assms(1)] by (simp add: Let_def)
  from no_transmissions [OF none this] have "m_txCount (loraDriver (fst (main_app m))) = 0 \<and> m_txErrors (loraDriver (fst (main_app m))) = 0"
    by (simp add: lora_view_def)
  with none topology_frames [OF assms] show ?thesis unfolding Let_def by blast
qed

lemma nothing_downlinked_witness:
  "\<exists>m. fw_main sim_i2c [] sim_calls sim_acts (fw_reset (sim_world [] []) ()) = Some m
    \<and> m_txCount (loraDriver (fst (main_app m))) = 0 \<and> \<not> sublist (ascii ''AT+SEND='') (w_tx0 (hw (fst (main_app m))))"
proof -
  obtain m where m: "fw_main sim_i2c [] sim_calls sim_acts (fw_reset (sim_world [] []) ()) = Some m" using sim_run by blast
  have top: "\<forall>c \<in> set [] \<union> set (concat sim_calls). topology_call (\<lambda>i. i = CmdDispI) c" by (simp add: topology_call_iff)
  have ok: "\<forall>c \<in> set [] \<union> set (concat sim_calls). fw_call_ok c" using sim_calls_ok by simp
  have "\<forall>op seq s. LoraSendAt op seq s \<notin> set [] \<union> set (concat sim_calls)" by simp
  with nothing_downlinked [OF m top] ok m sim_world_live [of "[]" "[]"] show ?thesis unfolding Let_def by blast
qed

subsection \<open>Samples of the battery\<close>

definition samples :: "bat_output list \<Rightarrow> nat" where
  "samples xs = length (filter (\<lambda>x. case x of TlmBatteryPercent _ \<Rightarrow> True | LogI2cReadError _ _ \<Rightarrow> True | _ \<Rightarrow> False) xs)"

definition poll_count :: "fw_call list \<Rightarrow> nat" where
  "poll_count cs = length (filter (\<lambda>c. case c of BatteryCall BatSched \<Rightarrow> True | BatteryCall (BatPoll _ _) \<Rightarrow> True | _ \<Rightarrow> False) cs)"

lemma samples_simps [simp]:
  "samples [] = 0" "samples (xs @ ys) = samples xs + samples ys"
  "samples (x # xs) = (case x of TlmBatteryPercent _ \<Rightarrow> 1 | LogI2cReadError _ _ \<Rightarrow> 1 | _ \<Rightarrow> 0) + samples xs"
  by (simp_all add: samples_def split: bat_output.split)

lemma bat_apply_samples [simp]: "samples (bat_out (bat_apply r b)) = Suc (samples (bat_out b))"
  by (cases r) (simp_all add: bat_apply_def transition_events_def threshold_events_def bat_emit_def Let_def)

lemma bat_emit_response [simp]: "samples (bat_out (bat_emit (BatCmdResponse opCode cmdSeq x) b)) = samples (bat_out b)"
  by (simp add: bat_emit_def)

lemma fw_handle_samples:
  "on_return (\<lambda>s'. samples (bat_out (batteryMonitor s')) = samples (bat_out (batteryMonitor s)) + poll_count [c]) (fw_handle sdk c s)"
proof (cases c)
  case (BatteryCall bc)
  then show ?thesis
    by (cases bc) (simp_all add: fw_handle_def bat_handle_def bat_schedIn_handler_def BATTERY_POLL_cmdHandler_def
        BATTERY_SET_LOW_THRESHOLD_cmdHandler_def doPoll_apply poll_count_def on_return_def)
qed (auto simp: fw_handle_def poll_count_def with_lora_def with_gps_def intro!: post_rules)

lemma fw_handles_samples:
  "foldM (fw_handle sdk) calls s = Some s' \<Longrightarrow>
     samples (bat_out (batteryMonitor s')) = samples (bat_out (batteryMonitor s)) + poll_count calls"
proof (induction calls arbitrary: s)
  case Nil
  then show ?case by (simp add: poll_count_def)
next
  case (Cons c calls)
  then obtain s1 where s1: "fw_handle sdk c s = Some s1" "foldM (fw_handle sdk) calls s1 = Some s'"
    by (auto simp: Option.bind_eq_Some_conv)
  with Cons.IH [OF s1(2)] postD [OF fw_handle_samples s1(1)] show ?case by (simp add: poll_count_def)
qed

text \<open>
  The calls of the \<open>n\<close>-th tick when the rate groups call their members as the documented driver says, and the
  services of the framework cause no handler.
\<close>

definition nominal_calls :: "sched_port \<Rightarrow> fw_call list" where
  "nominal_calls p =
     (case p of
        BatteryMonitorSchedIn \<Rightarrow> [BatteryCall BatSched]
      | GpsReceiverSchedIn \<Rightarrow> [GpsSched]
      | LoraDriverSchedIn \<Rightarrow> [LoraSched]
      | TlmChanRun \<Rightarrow> []
      | CmdDispRun \<Rightarrow> [])"

definition nominal_tick :: "((nat \<times> nat) list \<Rightarrow> nat \<Rightarrow> nat list) \<Rightarrow> nat \<Rightarrow> fw_call list" where
  "nominal_tick driver n = concat (map nominal_calls (scheduled driver n))"

lemma nominal_tick_polls:
  assumes "\<And>divs n. driver divs n = divider_driver divs n"
  shows "poll_count (nominal_tick driver n) = (if n mod 4 = 0 then 1 else 0)"
  by (simp add: nominal_tick_def scheduled_at [OF assms] nominal_calls_def poll_count_def)

text \<open>
  C22: On the documented rate schedule the battery is sampled once per second, whatever the hardware and the
  interrupts do: when \<open>n\<close> ticks of a run of \<open>main\<close> are complete, exactly the ticks 0, 4, 8 and so on have sent one
  battery level or one read error each, that is \<open>(n + 3) div 4\<close>.
\<close>

theorem battery_sampled:
  assumes "\<And>divs n. driver divs n = divider_driver divs n"
    and "fw_main sdk setup (map (nominal_tick driver) [0..<N]) acts (fw_reset w d) = Some m"
    and "poll_count setup = 0" "ticks_done m \<le> N"
  shows "samples (bat_out (batteryMonitor (fst (main_app m)))) = (ticks_done m + 3) div 4"
proof -
  let ?J = "\<lambda>n s. samples (bat_out (batteryMonitor s)) = (min n N + 3) div 4"
  have "?J (ticks_done m) (fst (main_app m))"
  proof (rule fw_main_run [where J = ?J, OF assms(2)], goal_cases)
    case (1 s)
    have "samples (bat_out (batteryMonitor (hw_init sdk (fw_reset w d)))) = 0"
      by (simp add: hw_init_def fw_reset_def battery_init_def samples_def Let_def split: prod.splits)
    with fw_handles_samples [OF 1] assms(3) show ?case by simp
  next
    case (3 n s s')
    with fw_handles_samples [OF 3(3)] nominal_tick_polls [OF assms(1)] quarter_up [of n] show ?case by simp
  qed simp_all
  with assms(4) show ?thesis by (simp add: min_absorb1)
qed

lemma nominal_run:
  "\<exists>m. fw_main sim_i2c [GpsSetEnabled 3 4 False] (map (nominal_tick divider_driver) [0..<1]) sim_acts (fw_reset (sim_world [] []) ()) = Some m
    \<and> ticks_done m = 1"
proof -
  have "map (nominal_tick divider_driver) [0..<1] = [[LoraSched, BatteryCall BatSched, GpsSched]]"
    by (simp add: nominal_tick_def scheduled_at nominal_calls_def)
  then show ?thesis
    by (simp add: fw_main_def main_setup_def main_exec_def main_act_defs main_start_def fw_kick_def BaremetalTimer_tick_def
      hw_init_def fw_reset_def sim_i2c_def hal_i2c1_init_def i2c1_init_hw_def hal_uart0_init_def hal_uart1_init_def
      uart0_init_hw_def uart1_init_hw_def sdk_do_def Let_def fw_handle_def bat_handle_def with_lora_def with_gps_def
      bat_schedIn_handler_def doPoll_apply
      lora_schedIn_handler_def lora_init_def GPS_SET_ENABLED_cmdHandler_def gps_emit_def gps_schedIn_handler_def)
qed

lemma battery_sampled_witness:
  "\<exists>m. fw_main sim_i2c [GpsSetEnabled 3 4 False] (map (nominal_tick divider_driver) [0..<1]) sim_acts (fw_reset (sim_world [] []) ()) = Some m
    \<and> samples (bat_out (batteryMonitor (fst (main_app m)))) = 1"
proof -
  obtain m where m: "fw_main sim_i2c [GpsSetEnabled 3 4 False] (map (nominal_tick divider_driver) [0..<1]) sim_acts
      (fw_reset (sim_world [] []) ()) = Some m" "ticks_done m = 1" using nominal_run by blast
  have "poll_count [GpsSetEnabled 3 4 False] = 0" "ticks_done m \<le> 1" using m(2) by (simp_all add: poll_count_def)
  from battery_sampled [OF refl m(1) this] m show ?thesis by simp
qed

subsection \<open>A sentence is reported within a second\<close>

text \<open>Polling one line leaves what waits on the other, silent one.\<close>

definition gps_waits :: "gps \<Rightarrow> bytes \<Rightarrow> 'd firmware \<Rightarrow> bool" where
  "gps_waits g bs s \<longleftrightarrow> fw_inv s \<and> gpsReceiver s = g \<and> rx_quiet HAL_UART1 (hw s) \<and> rx_list HAL_UART1 (hw s) = bs"

lemma getc_other:
  assumes "world_wf w" "rx_quiet HAL_UART1 w" "hal_uart_getc HAL_UART0 b0 w = Some (rc, b, w')"
  shows "world_wf w'" "rx_quiet HAL_UART1 w'" "rx_list HAL_UART1 w' = rx_list HAL_UART1 w"
proof -
  show "world_wf w'" "rx_quiet HAL_UART1 w'"
    using assms(2,3) by (cases rule: hal_uart_getc_cases [OF assms(1), of HAL_UART0 b0]; auto intro: later_rx_quiet)+
  obtain w1 where w1: "serve_irqs w = Some w1" "rx_list HAL_UART1 w1 = rx_list HAL_UART1 w @ rx_arriving HAL_UART1 w"
    using serve_irqs_spec [OF assms(1)] by blast
  with assms(3) obtain rb where "w' = set_rx HAL_UART0 rb w1" by (auto simp: hal_uart_getc_def Option.bind_eq_Some_conv)
  then show "rx_list HAL_UART1 w' = rx_list HAL_UART1 w"
    using w1(2) rx_quiet_arriving [OF assms(2)] by (simp add: rx_list_def rx_of_def set_rx_def)
qed

lemma pollRx_other:
  "world_wf w \<Longrightarrow> rx_quiet HAL_UART1 w \<Longrightarrow>
    on_return (\<lambda>(l', w'). rx_quiet HAL_UART1 w' \<and> rx_list HAL_UART1 w' = rx_list HAL_UART1 w) (pollRx lim n b l w)"
proof (induction lim n b l w rule: pollRx.induct)
  case (1 lim n b l w)
  note other = getc_other [OF 1(2,3)]
  have "on_return (\<lambda>(l', w'). rx_quiet HAL_UART1 w' \<and> rx_list HAL_UART1 w' = rx_list HAL_UART1 w) (pollRx lim (Suc n) b' l1 w1)"
    if "n < lim" "hal_uart_getc HAL_UART0 b w = Some (HAL_OK, b', w1)" "lora_byte b' l = Some l1" for b' l1 w1
    using 1(1) [OF that(1,2) refl refl refl that(3) other(1,2) [OF that(2)]] other(3) [OF that(2)] by (simp add: on_return_def)
  with 1(3) show ?case
    by (subst pollRx.simps) (auto intro!: post_rules dest: other)
qed

lemma lora_tick_waits:
  assumes "gps_waits g bs s"
  shows "\<exists>s'. fw_handle sdk LoraSched s = Some s' \<and> gps_waits g bs s' \<and> batteryMonitor s' = batteryMonitor s"
proof -
  have s: "fw_inv s" "gpsReceiver s = g" "rx_quiet HAL_UART1 (hw s)" "rx_list HAL_UART1 (hw s) = bs"
    using assms by (simp_all add: gps_waits_def)
  obtain s' where s': "with_lora lora_schedIn_handler s = Some s'" "fw_keeps s s'" using lora_call_keeps(2) [OF s(1)] by blast
  then obtain l w where lw: "lora_schedIn_handler (loraDriver s) (hw s) = Some (l, w)" "s' = s\<lparr>loraDriver := l, hw := w\<rparr>"
    by (auto simp: with_lora_def Option.bind_eq_Some_conv)
  have "rx_quiet HAL_UART1 w \<and> rx_list HAL_UART1 w = bs"
    using lw(1) s(3,4) postD [OF pollRx_other [OF fw_invD(1) [OF s(1)] s(3)]] by (auto simp: lora_schedIn_handler_def split: if_splits)
  with s' lw(2) s(2) show ?thesis by (auto simp: fw_handle_def gps_waits_def fw_keeps_def)
qed

lemma lora_ticks_wait:
  "gps_waits g bs s \<Longrightarrow> \<exists>s'. foldM (fw_handle sdk) (replicate k LoraSched) s = Some s' \<and> gps_waits g bs s' \<and> batteryMonitor s' = batteryMonitor s"
proof (induction k arbitrary: s)
  case (Suc k)
  obtain s1 where "fw_handle sdk LoraSched s = Some s1" "gps_waits g bs s1" "batteryMonitor s1 = batteryMonitor s"
    using lora_tick_waits [OF Suc.prems] by blast
  with Suc.IH [of s1] show ?case by simp
qed simp

text \<open>Four ticks in a row contain one tick of the slow group.\<close>

lemma nominal_second:
  assumes "\<And>divs n. driver divs n = divider_driver divs n"
  shows "\<exists>a b. concat (map (nominal_tick driver) [n..<n + 4]) = replicate a LoraSched @ [BatteryCall BatSched, GpsSched] @ replicate b LoraSched"
proof -
  have t: "nominal_tick driver k = LoraSched # (if k mod 4 = 0 then [BatteryCall BatSched, GpsSched] else [])" for k
    by (simp add: nominal_tick_def scheduled_at [OF assms] nominal_calls_def)
  have u: "[n..<n + 4] = [n, n + 1, n + 2, n + 3]" by (simp add: upt_rec)
  have r: "replicate 0 LoraSched = []" "replicate 1 LoraSched = [LoraSched]" "replicate 2 LoraSched = [LoraSched, LoraSched]"
    "replicate 3 LoraSched = [LoraSched, LoraSched, LoraSched]" "replicate 4 LoraSched = [LoraSched, LoraSched, LoraSched, LoraSched]"
    by (simp_all add: eval_nat_numeral)
  consider "n mod 4 = 0" | "n mod 4 = 1" | "n mod 4 = 2" | "n mod 4 = 3" by linarith
  then show ?thesis
  proof cases
    case 1
    then have "(n + 1) mod 4 \<noteq> 0" "(n + 2) mod 4 \<noteq> 0" "(n + 3) mod 4 \<noteq> 0" by presburger+
    with 1 show ?thesis unfolding u by (intro exI [of _ "1::nat"] exI [of _ "3::nat"]) (simp only: list.map concat.simps t r if_True if_False append.simps simp_thms)
  next
    case 2
    then have "(n + 1) mod 4 \<noteq> 0" "(n + 2) mod 4 \<noteq> 0" "(n + 3) mod 4 = 0" by presburger+
    with 2 show ?thesis unfolding u by (intro exI [of _ "4::nat"] exI [of _ "0::nat"]) (simp only: list.map concat.simps t r if_True if_False append.simps simp_thms one_neq_zero)
  next
    case 3
    then have "(n + 1) mod 4 \<noteq> 0" "(n + 2) mod 4 = 0" "(n + 3) mod 4 \<noteq> 0" "n mod 4 \<noteq> 0" by presburger+
    then show ?thesis unfolding u by (intro exI [of _ "3::nat"] exI [of _ "1::nat"]) (simp only: list.map concat.simps t r if_True if_False append.simps simp_thms)
  next
    case 4
    then have "(n + 1) mod 4 = 0" "(n + 2) mod 4 \<noteq> 0" "(n + 3) mod 4 \<noteq> 0" "n mod 4 \<noteq> 0" by presburger+
    then show ?thesis unfolding u by (intro exI [of _ "2::nat"] exI [of _ "2::nat"]) (simp only: list.map concat.simps t r if_True if_False append.simps simp_thms)
  qed
qed

text \<open>
  C9: A position is reported within a second: on the documented rate schedule, when a well-formed GGA report waits in
  the UART1 ring of a running firmware, nothing more arrives there, and the receiver is enabled and between lines, any
  four ticks in a row run to their end, whatever the LoRa module and the battery do, and send exactly its time, fix, position, altitude and HDOP, the change
  of the fix and the count; the battery is sampled once in them, and the ring is left empty.
\<close>

theorem report_within_second:
  assumes "\<And>divs n. driver divs n = divider_driver divs n" "fw_inv s"
    and "m_enabled (gpsReceiver s)" "m_lineLen (gpsReceiver s) = 0" "rx_quiet HAL_UART1 (hw s)"
    and "fx_ok fx" "length (fx_line fx) \<le> 99" "rx_list HAL_UART1 (hw s) = fx_line fx @ [13, 10]"
  shows "\<exists>s'. foldM (fw_handle sdk) (concat (map (nominal_tick driver) [n..<n + 4])) s = Some s' \<and> fw_inv s'
    \<and> gps_out (gpsReceiver s') = gps_out (gpsReceiver s) @ fx_outputs (m_lastFixQuality (gpsReceiver s)) fx
        @ [TlmSentenceCount (m_sentenceCount (gpsReceiver s) + 1)]
    \<and> samples (bat_out (batteryMonitor s')) = samples (bat_out (batteryMonitor s)) + 1
    \<and> rx_list HAL_UART1 (hw s') = []"
proof -
  let ?g = "gpsReceiver s" and ?bs = "fx_line fx @ [13, 10]"
  obtain a b where calls: "concat (map (nominal_tick driver) [n..<n + 4]) = replicate a LoraSched @ [BatteryCall BatSched, GpsSched] @ replicate b LoraSched"
    using nominal_second [OF assms(1)] by blast
  have "gps_waits ?g ?bs s" using assms by (simp add: gps_waits_def)
  then obtain s1 where s1: "foldM (fw_handle sdk) (replicate a LoraSched) s = Some s1" "gps_waits ?g ?bs s1" "batteryMonitor s1 = batteryMonitor s"
    using lora_ticks_wait by blast
  obtain s2 where s2: "fw_handle sdk (BatteryCall BatSched) s1 = Some s2" "fw_keeps s1 s2"
    using fw_handle_safe [of s1 "BatteryCall BatSched" sdk] s1(2) by (auto simp: gps_waits_def fw_call_ok_def)
  have w2: "gps_waits ?g ?bs s2" using s2 s1(2) by (auto simp: gps_waits_def fw_keeps_def fw_handle_def Option.bind_eq_Some_conv)
  have bat: "samples (bat_out (batteryMonitor s2)) = samples (bat_out (batteryMonitor s)) + 1"
    using postD [OF fw_handle_samples s2(1)] s1(3) by (simp add: poll_count_def)
  note inv2 = fw_invD [of s2] and wait2 = w2 [unfolded gps_waits_def]
  have wf: "gps_wf ?g" using assms(2) by (simp add: fw_inv_def)
  obtain g' where g': "foldM gps_byte ?bs ?g = Some g'" "gps_core g' = gps_core (fx_effect fx ?g)"
    by (rule gps_frame_fix [OF assms(6,7) wf assms(4)])
  have len: "length (rx_list HAL_UART1 (hw s2)) < 256" and run: "foldM gps_byte (rx_list HAL_UART1 (hw s2)) (gpsReceiver s2) = Some g'"
    using wait2 g'(1) assms(7) by simp_all
  have en: "m_enabled (gpsReceiver s2)" using wait2 assms(3) by simp
  obtain w3 where w3: "gps_schedIn_handler (gpsReceiver s2) (hw s2) = Some (g', w3)" "later (hw s2) w3" "rx_list HAL_UART1 w3 = []"
    using gps_schedIn_quiet [OF fw_invD(1) _ len en run] wait2 by blast
  let ?s3 = "s2\<lparr>gpsReceiver := g', hw := w3\<rparr>"
  have s3: "fw_handle sdk GpsSched s2 = Some ?s3" using w3(1) by (simp add: fw_handle_def with_gps_def)
  have "fw_keeps s2 ?s3" using gps_sched_keeps [of s2 ?s3] wait2 w3(1) by (simp add: with_gps_def)
  then have "gps_waits g' [] ?s3" using wait2 w3(2,3) by (auto simp: gps_waits_def fw_keeps_def intro: later_rx_quiet)
  then obtain s4 where s4: "foldM (fw_handle sdk) (replicate b LoraSched) ?s3 = Some s4" "gps_waits g' [] s4" "batteryMonitor s4 = batteryMonitor ?s3"
    using lora_ticks_wait by blast
  have "foldM (fw_handle sdk) (concat (map (nominal_tick driver) [n..<n + 4])) s = Some s4"
    using s1(1) s2(1) s3 s4(1) by (simp add: calls foldM_append)
  moreover have "gps_out g' = gps_out ?g @ fx_outputs (m_lastFixQuality ?g) fx @ [TlmSentenceCount (m_sentenceCount ?g + 1)]"
    using g'(2) by (simp add: gps_core_def fx_effect_def)
  ultimately show ?thesis
    using s4(2,3) bat by (intro exI [of _ s4]) (simp add: gps_waits_def)
qed

lemma report_within_second_witness:
  "\<exists>s'. foldM (fw_handle sim_i2c) (concat (map (nominal_tick divider_driver) [7..<7 + 4]))
      \<lparr>batteryMonitor = battery_init, gpsReceiver = gps_init, loraDriver = lora_init, i2c_bus = (), hw = sim_world [] (fx_line fx_sample @ [13, 10])\<rparr> = Some s'
    \<and> gps_out (gpsReceiver s') = [TlmUtcTime 795411, TlmFixQuality 1, TlmSatCount 8, TlmLatitude 48117300,
        TlmLongitude 11516666, TlmAltitude 54540, TlmHDOP 90, LogFixAcquired 8, TlmSentenceCount 1]
    \<and> samples (bat_out (batteryMonitor s')) = 1"
proof -
  let ?s = "\<lparr>batteryMonitor = battery_init, gpsReceiver = gps_init, loraDriver = lora_init, i2c_bus = (), hw = sim_world [] (fx_line fx_sample @ [13, 10])\<rparr>"
  have i: "m_lineLen gps_init = 0" "m_enabled gps_init" "m_lastFixQuality gps_init = 0" "gps_out gps_init = []" "m_sentenceCount gps_init = 0"
    "bat_out battery_init = []" by (simp_all add: gps_init_def battery_init_def)
  have len: "length (fx_line fx_sample) \<le> 99" "length (fx_line fx_sample @ [13, 10]) \<le> 255" using fx_sample_ok(2) by simp_all
  have "fw_inv ?s" using gps_init_wf lora_init_wf len(2) by (simp add: fw_inv_def) (simp add: sim_world_def)
  then show ?thesis
    using report_within_second [of divider_driver ?s fx_sample sim_i2c 7] i len fx_sample_ok(1) fx_sample_outputs by auto
qed

subsection \<open>Queues and tasks of the active instances\<close>

text \<open>
  With the layer of \<open>Os/Baremetal\<close> under the framework, every active instance creates one queue with the depth of
  the topology and a message size that the generated code knows, in an order the generated code chooses.
\<close>

definition creation :: "(instance_name \<times> active_cfg) \<times> int \<Rightarrow> queue_call" where
  "creation im = (let ((i, c), m) = im in QCreate (int (queue_size c)) m)"

definition pool_need :: "(instance_name \<times> active_cfg) \<times> int \<Rightarrow> nat" where
  "pool_need im = (let ((i, c), m) = im in queue_size c * (nat m + 4))"

lemma aq_run_creates:
  assumes "\<forall>c \<in> set cs. \<exists>d m. c = QCreate d m \<and> 0 < d \<and> 0 < m" "aq_created a + length cs \<le> 8" "aq_used a \<le> 8192"
  shows "\<exists>rs a'. aq_run store cs (a, b) = (rs, a', b) \<and> length rs = length cs
    \<and> ((\<forall>r \<in> set rs. fst r = Ret QUEUE_OK) \<longleftrightarrow>
        aq_used a + sum_list (map (\<lambda>c. case c of QCreate d m \<Rightarrow> nat d * (nat m + 4) | _ \<Rightarrow> 0) cs) \<le> 8192)
    \<and> (cs \<noteq> [] \<longrightarrow> aq_created a = 0 \<longrightarrow> snd (hd rs) = 0)
    \<and> ((\<forall>r \<in> set rs. fst r = Ret QUEUE_OK) \<longrightarrow> aq_created a' = aq_created a + length cs)"
  using assms
proof (induction cs arbitrary: a)
  case Nil
  then show ?case by simp
next
  case (Cons c cs)
  obtain d m where c: "c = QCreate d m" "0 < d" "0 < m" using Cons.prems(1) by auto
  let ?need = "nat d * (nat m + 4)"
  let ?a = "a\<lparr>aq_queues := (aq_queues a)[aq_created a := \<lparr>aq_depth = nat d, aq_size = nat m, aq_msgs = []\<rparr>],
              aq_created := aq_created a + 1, aq_used := aq_used a + ?need\<rparr>"
  show ?case
  proof (cases "aq_used a + ?need > 8192")
    case True
    then have step: "aq_do store c (a, b) = ((Ret QUEUE_UNINITIALIZED, 0), a, b)" using c by (simp add: aq_do_def)
    have "\<exists>rs a'. aq_run store cs (a, b) = (rs, a', b) \<and> length rs = length cs" using Cons.IH [of a] Cons.prems by auto
    then obtain rs a' where "aq_run store cs (a, b) = (rs, a', b)" "length rs = length cs" by blast
    with step True c(1) show ?thesis by simp
  next
    case False
    then have step: "aq_do store c (a, b) = ((Ret QUEUE_OK, of_nat (aq_created a)), ?a, b)"
      using c Cons.prems(2) by (simp add: aq_do_def)
    have "\<exists>rs a'. aq_run store cs (?a, b) = (rs, a', b) \<and> length rs = length cs
      \<and> ((\<forall>r \<in> set rs. fst r = Ret QUEUE_OK) \<longleftrightarrow>
          aq_used ?a + sum_list (map (\<lambda>c. case c of QCreate d m \<Rightarrow> nat d * (nat m + 4) | _ \<Rightarrow> 0) cs) \<le> 8192)
      \<and> ((\<forall>r \<in> set rs. fst r = Ret QUEUE_OK) \<longrightarrow> aq_created a' = aq_created ?a + length cs)"
      using Cons.IH [of ?a] Cons.prems False by auto
    then obtain rs a' where "aq_run store cs (?a, b) = (rs, a', b)" "length rs = length cs"
      "(\<forall>r \<in> set rs. fst r = Ret QUEUE_OK) \<longleftrightarrow>
          aq_used ?a + sum_list (map (\<lambda>c. case c of QCreate d m \<Rightarrow> nat d * (nat m + 4) | _ \<Rightarrow> 0) cs) \<le> 8192"
      "(\<forall>r \<in> set rs. fst r = Ret QUEUE_OK) \<longrightarrow> aq_created a' = aq_created ?a + length cs" by blast
    with step c(1) show ?thesis by (simp add: add.assoc)
  qed
qed

text \<open>A creation does not use the buffer class.\<close>

lemma queue_run_creates:
  assumes "\<forall>c \<in> set cs. \<exists>d m. c = QCreate d m"
  shows "queue_run f cs (s, b) = queue_run g cs (s, b)"
  using assms
proof (induction cs arbitrary: s)
  case Nil
  then show ?case by simp
next
  case (Cons c cs)
  obtain d m where c: "c = QCreate d m" using Cons.prems by auto
  have "queue_run f cs (s', b) = queue_run g cs (s', b)" for s' using Cons by simp
  with c show ?case by (cases "Queue_create d m 0 s") (auto simp: queue_do_def)
qed

lemma active_instances_eq: "length active_instances = 8" "sum_list (map (\<lambda>(i, c). queue_size c) active_instances) = 100"
  "\<forall>(i, c) \<in> set active_instances. 0 < queue_size c \<and> queue_size c \<le> 20"
  by (simp_all add: active_instances_def topology_instances_def)

text \<open>Facts about any list of creations, one for each active instance.\<close>

lemma creations_facts:
  assumes "mset (map fst qs) = mset active_instances" "\<forall>(i, m) \<in> set qs. 0 < m \<and> m \<le> 100000000"
  shows "length qs = 8" "\<forall>c \<in> set (map creation qs). call_ok c \<and> (\<exists>d m. c = QCreate d m \<and> 0 < d \<and> 0 < m)"
proof -
  show "length qs = 8" using mset_eq_length [OF assms(1)] active_instances_eq(1) by simp
  have "call_ok (creation ((i, c), m)) \<and> (\<exists>d m'. creation ((i, c), m) = QCreate d m' \<and> 0 < d \<and> 0 < m')"
    if q: "((i, c), m) \<in> set qs" for i c m
  proof -
    have "(i, c) \<in># mset (map fst qs)" using q by force
    then have "(i, c) \<in> set active_instances" unfolding assms(1) by simp
    with active_instances_eq(3) assms(2) q have e: "0 < queue_size c" "queue_size c \<le> 20" "0 < m" "m \<le> 100000000" by auto
    then have "int (queue_size c) * (m + 4) \<le> 20 * 100000004" by (intro mult_mono) auto
    with e show ?thesis by (simp add: creation_def call_ok_def)
  qed
  then show "\<forall>c \<in> set (map creation qs). call_ok c \<and> (\<exists>d m. c = QCreate d m \<and> 0 < d \<and> 0 < m)" by auto
qed

lemma pool_need_uniform:
  assumes "mset (map fst qs) = mset active_instances" "\<forall>(i, m) \<in> set qs. m = n"
  shows "sum_list (map pool_need qs) = 100 * (nat n + 4)"
proof -
  let ?need = "\<lambda>(i :: instance_name, c). queue_size c * (nat n + 4)"
  have "map pool_need qs = map ?need (map fst qs)" using assms(2) by (auto simp: pool_need_def)
  then have "sum_list (map pool_need qs) = sum_mset (image_mset ?need (mset (map fst qs)))"
    by (metis mset_map sum_mset_sum_list)
  also have "\<dots> = sum_list (map ?need active_instances)"
    unfolding assms(1) by (metis mset_map sum_mset_sum_list)
  finally show ?thesis by (simp add: active_instances_def topology_instances_def)
qed

lemma pool_need_creation: "(case creation q of QCreate d m \<Rightarrow> nat d * (nat m + 4) | _ \<Rightarrow> 0) = pool_need q"
  by (simp add: creation_def pool_need_def split: prod.split)

text \<open>
  C39: The queue layer of \<open>Os/Baremetal\<close> can host the topology only with small messages: in whatever order the eight
  active instances create their queues, all creations succeed iff depths times message sizes, with a header of four
  bytes per message, fit the pool of 8192 bytes; with one size for all, that is at most 77 bytes. The first
  instance always gets the null handle, with which every send and receive fails its assertion, and after success the
  table is full.
\<close>

theorem topology_queues_fit:
  assumes "mset (map fst qs) = mset active_instances" "\<forall>(i, m) \<in> set qs. 0 < m \<and> m \<le> 100000000"
  shows "\<exists>rs s. queue_run setBuff (map creation qs) (queues_init irq, b) = Some (rs, s, b) \<and> length rs = 8
    \<and> snd (hd rs) = 0 \<and> Queue_send (snd (hd rs)) data s = Some (AssertFailed, s)
    \<and> Queue_receive setBuff (snd (hd rs)) b p s = Some (AssertFailed, b, p, s)
    \<and> ((\<forall>r \<in> set rs. fst r = Ret QUEUE_OK) \<longleftrightarrow> sum_list (map pool_need qs) \<le> 8192)
    \<and> ((\<forall>r \<in> set rs. fst r = Ret QUEUE_OK) \<longrightarrow> (\<forall>d m h. 0 < d \<longrightarrow> 0 < m \<longrightarrow> Queue_create d m h s = Some (Ret QUEUE_UNINITIALIZED, h, s)))
    \<and> ((\<forall>(i, m) \<in> set qs. m = n) \<longrightarrow> (sum_list (map pool_need qs) \<le> 8192 \<longleftrightarrow> n \<le> 77))"
proof -
  let ?cs = "map creation qs"
  let ?set = "\<lambda>b src len. Some (True, b)" and ?store = "\<lambda>b m. (True, b)"
  note facts = creations_facts [OF assms]
  have creates: "\<forall>c \<in> set ?cs. \<exists>d m. c = QCreate d m \<and> 0 < d \<and> 0 < m" and ok: "\<forall>c \<in> set ?cs. call_ok c"
    using facts(2) by blast+
  obtain rs a' where r: "aq_run ?store ?cs (aqueues_init, b) = (rs, a', b)" "length rs = 8" "snd (hd rs) = 0"
    "(\<forall>r \<in> set rs. fst r = Ret QUEUE_OK) \<longleftrightarrow> sum_list (map pool_need qs) \<le> 8192"
    "(\<forall>r \<in> set rs. fst r = Ret QUEUE_OK) \<longrightarrow> aq_created a' = 8"
    using aq_run_creates [OF creates, of aqueues_init ?store b] facts(1)
    by (auto simp: aqueues_init_def comp_def pool_need_creation)
  have "set_buff_spec ?set ?store" by (simp add: set_buff_spec_def)
  from queue_run_refines [OF queue_rel_init ok _ this, of irq b] r(1) facts(1) obtain s k where
    s: "queue_run ?set ?cs (queues_init irq, b) = Some (rs, s, b)" "queue_rel k s a'" by auto
  have run: "queue_run setBuff ?cs (queues_init irq, b) = Some (rs, s, b)"
    using queue_run_creates [of ?cs setBuff "queues_init irq" b ?set] creates s(1) by fastforce
  have full: "Queue_create d m h s = Some (Ret QUEUE_UNINITIALIZED, h, s)" if "aq_created a' = 8" "0 < d" "0 < m" for d m h
    using s(2) that by (simp add: Queue_create_def queue_rel_def MAX_QUEUES_def)
  have uniform: "sum_list (map pool_need qs) \<le> 8192 \<longleftrightarrow> n \<le> 77" if "\<forall>(i, m) \<in> set qs. m = n"
  proof -
    obtain q where "q \<in> set qs" using facts(1) by (cases qs) auto
    with that assms(2) have "0 < n" by auto
    then show ?thesis unfolding pool_need_uniform [OF assms(1) that] by auto
  qed
  show ?thesis
    using run r full uniform by (intro exI [of _ rs] exI [of _ s]) (auto simp: Queue_send_def Queue_receive_def)
qed

lemma topology_queues_fit_witness:
  "\<exists>rs s. queue_run buffer_set (map creation (map (\<lambda>i. (i, 64 :: int)) active_instances)) (queues_init 0, []) = Some (rs, s, [])
    \<and> (\<forall>r \<in> set rs. fst r = Ret QUEUE_OK)"
proof -
  let ?qs = "map (\<lambda>i. (i, 64 :: int)) active_instances"
  have "mset (map fst ?qs) = mset active_instances" "\<forall>(i, m) \<in> set ?qs. 0 < m \<and> m \<le> 100000000" by (simp_all add: comp_def)
  from topology_queues_fit [OF this, of buffer_set 0 "[]" "[]" 0 64] show ?thesis by fastforce
qed

end
